(* ===== verification/Prelude.thy ===== *)
theory Prelude
  imports Main "HOL-Library.Word"
begin

text \<open>
  Shared vocabulary of the development: the machine integers of Go as words, byte slices as
  byte lists, the big-endian numerals that \<^verbatim>\<open>math/big\<close> and
  \<^verbatim>\<open>encoding/binary\<close> read and write, checked writes into a preallocated buffer
  (a write outside the buffer is a Go panic, here \<open>None\<close>), and the collections of
  rewrite rules the component theories use.
\<close>

unbundle bit_operations_syntax

type_synonym byte = "8 word"
type_synonym u16 = "16 word"
type_synonym u32 = "32 word"
type_synonym u64 = "64 word"
type_synonym bytes = "byte list"

named_theorems endian_simps \<open>values and lengths of little- and big-endian numerals\<close>

text \<open>A Go run-time panic: a nil pointer dereference, an integer division by zero, an
  index or slice bound out of range, or an explicit call of \<^verbatim>\<open>panic\<close>.\<close>

datatype go_panic = NilDeref | DivByZero | OutOfRange | Panic string

type_synonym 'a go = "go_panic + 'a"

section \<open>Positional numerals over bytes\<close>

fun le_val :: "bytes \<Rightarrow> nat" where
  "le_val [] = 0"
| "le_val (b # bs) = unat b + 256 * le_val bs"

fun le_bytes :: "nat \<Rightarrow> bytes" where
  "le_bytes n = (if n = 0 then [] else of_nat (n mod 256) # le_bytes (n div 256))"

declare le_bytes.simps [simp del]

text \<open>\<^verbatim>\<open>big.Int.SetBytes\<close> and \<^verbatim>\<open>big.Int.Bytes\<close> on the magnitude.\<close>

definition be_val :: "bytes \<Rightarrow> nat" where
  "be_val bs = le_val (rev bs)"

definition be_bytes :: "nat \<Rightarrow> bytes" where
  "be_bytes n = rev (le_bytes n)"

text \<open>A write of \<open>ds\<close> at the start of the slice \<open>b\<close>, with the number of bytes
  written; \<open>None\<close> is the index-out-of-range panic.\<close>

definition put_bytes :: "bytes \<Rightarrow> bytes \<Rightarrow> (bytes \<times> nat) option" where
  "put_bytes b ds = (if length ds \<le> length b then Some (ds @ drop (length ds) b, length ds) else None)"

subsection \<open>Basic laws\<close>

lemma le_bytes_0 [simp]: "le_bytes 0 = []"
  by (simp add: le_bytes.simps)

lemma le_bytes_pos: "n \<noteq> 0 \<Longrightarrow> le_bytes n = of_nat (n mod 256) # le_bytes (n div 256)"
  by (subst le_bytes.simps) simp

lemma le_bytes_eq_Nil [simp]: "le_bytes n = [] \<longleftrightarrow> n = 0"
  by (subst le_bytes.simps) simp

lemma unat_of_nat_byte [simp]: "unat (of_nat (n mod 256) :: byte) = n mod 256"
  by (simp add: unat_of_nat take_bit_eq_mod)

lemma unat_byte_less [simp]: "unat (b :: byte) < 256"
  using unsigned_less [of b, where 'a = nat] by simp

lemma of_nat_unat_byte [simp]: "(of_nat (unat b) :: byte) = b"
  by simp

lemma le_val_le_bytes [simp, endian_simps]: "le_val (le_bytes n) = n"
proof (induction n rule: le_bytes.induct)
  case (1 n)
  then show ?case
    by (cases "n = 0") (simp_all add: le_bytes_pos)
qed

lemma le_val_append: "le_val (xs @ ys) = le_val xs + 256 ^ length xs * le_val ys"
  by (induction xs) (simp_all add: algebra_simps)

lemma le_val_less: "le_val bs < 256 ^ length bs"
proof (induction bs)
  case (Cons b bs)
  show ?case
    unfolding le_val.simps list.size power_Suc add_0_right add_Suc_right
    using Cons unat_byte_less [of b] by linarith
qed simp

lemma le_val_replicate_0 [simp]: "le_val (replicate k 0) = 0"
  by (induction k) simp_all

lemma le_bytes_le_val: "bs = [] \<or> last bs \<noteq> 0 \<Longrightarrow> le_bytes (le_val bs) = bs"
proof (induction bs)
  case (Cons b bs)
  show ?case
  proof (cases "bs = []")
    case True
    with Cons.prems have "unat b \<noteq> 0" by (simp add: unat_eq_zero)
    with True show ?thesis by (simp add: le_bytes_pos)
  next
    case False
    with Cons have IH: "le_bytes (le_val bs) = bs" by simp
    with False have "le_val bs \<noteq> 0" by (metis le_bytes_0)
    then have nz: "unat b + 256 * le_val bs \<noteq> 0" by simp
    have m: "(unat b + 256 * le_val bs) mod 256 = unat b"
      and d: "(unat b + 256 * le_val bs) div 256 = le_val bs"
      by simp_all
    show ?thesis
      using nz by (simp add: le_bytes_pos m d IH)
  qed
qed simp

lemma length_le_bytes_le: "n < 256 ^ k \<Longrightarrow> length (le_bytes n) \<le> k"
proof (induction k arbitrary: n)
  case (Suc k)
  show ?case
  proof (cases "n = 0")
    case False
    from Suc.prems have "n div 256 < 256 ^ k" by (simp add: less_mult_imp_div_less mult.commute)
    with Suc.IH False show ?thesis by (simp add: le_bytes_pos)
  qed simp
qed simp

lemma length_le_bytes_iff: "length (le_bytes n) \<le> k \<longleftrightarrow> n < 256 ^ k"
proof
  assume "length (le_bytes n) \<le> k"
  moreover have "n < 256 ^ length (le_bytes n)"
    using le_val_less [of "le_bytes n"] by simp
  ultimately show "n < 256 ^ k"
    by (meson less_le_trans one_le_numeral power_increasing)
qed (rule length_le_bytes_le)

lemma last_le_bytes: "n \<noteq> 0 \<Longrightarrow> last (le_bytes n) \<noteq> 0"
proof (induction n rule: le_bytes.induct)
  case (1 n)
  show ?case
  proof (cases "n div 256 = 0")
    case True
    then have "n < 256" by (simp add: div_eq_0_iff)
    with "1.prems" True show ?thesis
      by (simp add: le_bytes_pos flip: unat_eq_zero)
         (metis "1.prems" \<open>n < 256\<close> mod_less unat_0 unat_of_nat_byte)
  next
    case False
    with 1 show ?thesis by (simp add: le_bytes_pos [of n])
  qed
qed

subsection \<open>Big-endian\<close>

lemma be_val_Nil [simp]: "be_val [] = 0"
  by (simp add: be_val_def)

lemma be_val_single [simp]: "be_val [b] = unat b"
  by (simp add: be_val_def)

lemma be_val_Cons: "be_val (b # bs) = unat b * 256 ^ length bs + be_val bs"
  by (simp add: be_val_def le_val_append)

lemma be_val_append: "be_val (xs @ ys) = be_val xs * 256 ^ length ys + be_val ys"
  by (simp add: be_val_def le_val_append)

lemma be_val_0_Cons [simp]: "be_val (0 # bs) = be_val bs"
  by (simp add: be_val_Cons)

lemma be_val_replicate_0 [simp]: "be_val (replicate k 0 @ bs) = be_val bs"
  by (induction k) simp_all

lemma be_val_less: "be_val bs < 256 ^ length bs"
  using le_val_less [of "rev bs"] by (simp add: be_val_def)

lemma be_val_be_bytes [simp, endian_simps]: "be_val (be_bytes n) = n"
  by (simp add: be_val_def be_bytes_def)

lemma be_bytes_0 [simp]: "be_bytes 0 = []"
  by (simp add: be_bytes_def)

lemma be_bytes_eq_Nil [simp]: "be_bytes n = [] \<longleftrightarrow> n = 0"
  by (simp add: be_bytes_def)

lemma length_be_bytes_le_iff [endian_simps]: "length (be_bytes n) \<le> k \<longleftrightarrow> n < 256 ^ k"
  by (simp add: be_bytes_def length_le_bytes_iff)

lemma hd_be_bytes: "n \<noteq> 0 \<Longrightarrow> hd (be_bytes n) \<noteq> 0"
  by (simp add: be_bytes_def hd_rev last_le_bytes)

lemma be_bytes_be_val: "bs = [] \<or> hd bs \<noteq> 0 \<Longrightarrow> be_bytes (be_val bs) = bs"
  by (simp add: be_bytes_def be_val_def le_bytes_le_val last_rev)

lemma be_bytes_be_val_strip: "be_bytes (be_val bs) = dropWhile (\<lambda>b. b = 0) bs"
proof (induction bs)
  case (Cons b bs)
  show ?case
  proof (cases "b = 0")
    case False
    then show ?thesis using be_bytes_be_val [of "b # bs"] by simp
  qed (simp add: Cons)
qed simp

lemma length_be_bytes: "n \<noteq> 0 \<Longrightarrow> length (be_bytes n) = Suc (length (be_bytes (n div 256)))"
  by (simp add: be_bytes_def le_bytes_pos)

lemma be_bytes_small: "0 < n \<Longrightarrow> n < 256 \<Longrightarrow> be_bytes n = [of_nat n]"
  by (simp add: be_bytes_def le_bytes_pos)

lemma be_bytes_step: "256 \<le> n \<Longrightarrow> be_bytes n = be_bytes (n div 256) @ [of_nat (n mod 256)]"
  by (simp add: be_bytes_def le_bytes_pos)

text \<open>The low \<open>k\<close> digits of \<open>n\<close>, most significant first.\<close>

definition be_digits :: "nat \<Rightarrow> nat \<Rightarrow> bytes" where
  "be_digits k n = map (\<lambda>j. of_nat (n div 256 ^ j mod 256)) (rev [0..<k])"

lemma be_digits_Suc: "be_digits (Suc k) n = be_digits k (n div 256) @ [of_nat (n mod 256)]"
proof -
  have "rev [0..<Suc k] = map Suc (rev [0..<k]) @ [0]"
    by (simp only: rev_map [symmetric] map_Suc_upt upt_conv_Cons [of 0 "Suc k"]) simp
  then show ?thesis
    by (simp add: be_digits_def div_mult2_eq)
qed

lemma be_digits_Cons: "be_digits (Suc k) n = of_nat (n div 256 ^ k mod 256) # be_digits k n"
  by (simp add: be_digits_def)

lemma be_digits_numeral: "be_digits (numeral k) n =
    of_nat (n div 256 ^ (pred_numeral k) mod 256) # be_digits (pred_numeral k) n"
  unfolding numeral_eq_Suc [of k] by (simp add: be_digits_def)

lemma be_digits_0 [simp]: "be_digits 0 n = []"
  by (simp add: be_digits_def)

lemma be_digits_1 [simp]: "be_digits (Suc 0) n = [of_nat (n mod 256)]"
  by (simp add: be_digits_def)

lemma be_bytes_digits: "256 ^ k \<le> n \<Longrightarrow> n < 256 ^ Suc k \<Longrightarrow> be_bytes n = be_digits (Suc k) n"
proof (induction k arbitrary: n)
  case 0
  then show ?case by (simp add: be_bytes_small be_digits_def)
next
  case (Suc k)
  have "(256::nat) \<le> 256 ^ Suc k" by simp
  with Suc.prems(1) have "256 \<le> n" by linarith
  moreover have "256 ^ k \<le> n div 256"
    using Suc.prems(1) by (simp add: less_eq_div_iff_mult_less_eq mult.commute)
  moreover have "n div 256 < 256 ^ Suc k"
    using Suc.prems(2) by (simp add: less_mult_imp_div_less mult.commute)
  ultimately show ?case
    by (simp add: be_bytes_step Suc.IH be_digits_Suc [of "Suc k"])
qed

section \<open>Words\<close>

lemma push_bit_or_byte: "push_bit 8 (w :: u64) OR ucast (b :: byte) = w * 256 + ucast b"
proof -
  have "push_bit 8 w AND ucast b = 0"
    by (rule bit_word_eqI) (auto simp: bit_simps dest: bit_imp_le_length)
  then have "push_bit 8 w OR ucast b = push_bit 8 w + ucast b"
    by (simp add: disjunctive_add_eq_or)
  then show ?thesis by (simp add: push_bit_eq_mult)
qed

text \<open>The shift-and-or reading of a big-endian number, as \<^verbatim>\<open>encoding/binary\<close>
  computes it on 64-bit words.\<close>

definition be_or :: "bytes \<Rightarrow> u64" where
  "be_or bs = foldl (\<lambda>a b. push_bit 8 a OR ucast b) 0 bs"

lemma be_or_snoc: "be_or (bs @ [b]) = push_bit 8 (be_or bs) OR ucast b"
  by (simp add: be_or_def)

lemma be_or_take_Suc:
  "k < length bs \<Longrightarrow> be_or (take (Suc k) bs) = push_bit 8 (be_or (take k bs)) OR ucast (bs ! k)"
  by (simp add: take_Suc_conv_app_nth be_or_snoc)

lemma be_or_take_numeral:
  "numeral k \<le> length bs \<Longrightarrow>
   be_or (take (numeral k) bs) =
     push_bit 8 (be_or (take (pred_numeral k) bs)) OR ucast (bs ! pred_numeral k)"
  unfolding numeral_eq_Suc [of k] by (rule be_or_take_Suc) simp

lemma be_or_Nil [simp]: "be_or [] = 0"
  by (simp add: be_or_def)

lemma be_or_eq: "be_or bs = of_nat (be_val bs)"
proof (induction bs rule: rev_induct)
  case (snoc b bs)
  then show ?case by (simp add: be_or_snoc push_bit_or_byte be_val_append)
qed (simp add: be_or_def)

lemma unat_be_or: "length bs \<le> 8 \<Longrightarrow> unat (be_or bs) = be_val bs"
proof -
  assume "length bs \<le> 8"
  then have "(256::nat) ^ length bs \<le> 256 ^ 8" by (rule power_increasing) simp
  with be_val_less [of bs] have "be_val bs < 256 ^ 8" by linarith
  then show ?thesis by (simp add: be_or_eq unat_of_nat take_bit_eq_mod)
qed

lemma unat_drop_bit_div: "unat (drop_bit k (w :: 'a::len word)) = unat w div 2 ^ k"
  by (metis unat_drop_bit_eq drop_bit_eq_div)

lemma ucast_drop_bit_byte:
  "(ucast (drop_bit k (w :: 'a::len word)) :: byte) = of_nat (unat w div 2 ^ k mod 256)"
  by (rule word_unat_eq_iff [THEN iffD2])
     (simp add: unsigned_ucast_eq unat_drop_bit_div take_bit_eq_mod unat_of_nat
        del: unat_drop_bit_eq)

lemma ucast_byte_mod: "(ucast (w :: 'a::len word) :: byte) = of_nat (unat w mod 256)"
  using ucast_drop_bit_byte [of 0 w] by simp

end
