(* ===== verification/RlpHead.thy ===== *)
theory RlpHead
  imports Prelude
begin

text \<open>
  RLP headers (\<^verbatim>\<open>src/rlp/encode.go\<close>, \<^verbatim>\<open>src/rlp/raw.go\<close>):
  minimal big-endian sizes (\<open>putint\<close>, \<open>intsize\<close>), header writing
  (\<open>headsize\<close>, \<open>puthead\<close>), header reading from a byte slice
  (\<open>readSize\<close>, \<open>readKind\<close>) and the slice-splitting interface built on it
  (\<open>Split\<close>, \<open>SplitString\<close>, \<open>SplitList\<close>, \<open>CountValues\<close>).
  The reference definition is \<open>enc_head\<close>, the header as the RLP format defines it.
\<close>

section \<open>Sizes in big-endian form\<close>

text \<open>The loop of \<open>intsize\<close>, entered with \<open>size = 1\<close>.\<close>

function intsize_loop :: "u64 \<Rightarrow> nat \<Rightarrow> nat" where
  "intsize_loop i sz =
     (let i' = drop_bit 8 i in if i' = 0 then sz else intsize_loop i' (sz + 1))"
  by pat_completeness auto

termination intsize_loop
proof (relation "measure (\<lambda>(i, sz). unat i)", simp)
  fix i :: u64 and sz :: nat and i' :: u64
  assume i': "i' = drop_bit 8 i" and "i' \<noteq> 0"
  have d: "unat i' = unat i div 256" using unat_drop_bit_div [of 8 i] by (simp add: i')
  from \<open>i' \<noteq> 0\<close> have "unat i' \<noteq> 0" by (simp only: unat_eq_zero) simp
  with d have "unat i' < unat i" by (simp add: div_eq_0_iff)
  then show "((i', sz + 1), i, sz) \<in> measure (\<lambda>(i, sz). unat i)" by simp
qed

declare intsize_loop.simps [simp del]

definition intsize :: "u64 \<Rightarrow> nat" where
  "intsize i = intsize_loop i 1"

definition putint :: "bytes \<Rightarrow> u64 \<Rightarrow> (bytes \<times> nat) option" where
  "putint b i = put_bytes b
     (if i < 0x100 then [ucast i]
      else if i < 0x10000 then [ucast (drop_bit 8 i), ucast i]
      else if i < 0x1000000 then [ucast (drop_bit 16 i), ucast (drop_bit 8 i), ucast i]
      else if i < 0x100000000 then
        [ucast (drop_bit 24 i), ucast (drop_bit 16 i), ucast (drop_bit 8 i), ucast i]
      else if i < 0x10000000000 then
        [ucast (drop_bit 32 i), ucast (drop_bit 24 i), ucast (drop_bit 16 i),
         ucast (drop_bit 8 i), ucast i]
      else if i < 0x1000000000000 then
        [ucast (drop_bit 40 i), ucast (drop_bit 32 i), ucast (drop_bit 24 i),
         ucast (drop_bit 16 i), ucast (drop_bit 8 i), ucast i]
      else if i < 0x100000000000000 then
        [ucast (drop_bit 48 i), ucast (drop_bit 40 i), ucast (drop_bit 32 i),
         ucast (drop_bit 24 i), ucast (drop_bit 16 i), ucast (drop_bit 8 i), ucast i]
      else
        [ucast (drop_bit 56 i), ucast (drop_bit 48 i), ucast (drop_bit 40 i),
         ucast (drop_bit 32 i), ucast (drop_bit 24 i), ucast (drop_bit 16 i),
         ucast (drop_bit 8 i), ucast i])"

definition headsize :: "u64 \<Rightarrow> nat" where
  "headsize sz = (if sz < 56 then 1 else 1 + intsize sz)"

text \<open>\<open>puthead\<close> writes a header at the start of \<open>buf\<close> and returns its length;
  \<open>buf[1:]\<close> and \<open>buf[0]\<close> panic on a slice that is too short.\<close>

definition puthead :: "bytes \<Rightarrow> byte \<Rightarrow> byte \<Rightarrow> u64 \<Rightarrow> (bytes \<times> nat) option" where
  "puthead buf smalltag largetag sz =
     (if sz < 56 then put_bytes buf [smalltag + ucast sz]
      else if buf = [] then None
      else case putint (tl buf) sz of
             None \<Rightarrow> None
           | Some (rest, sizesize) \<Rightarrow> Some ((largetag + of_nat sizesize) # rest, sizesize + 1))"

text \<open>Reference definition: the header the RLP format prescribes for a payload of
  \<open>n\<close> bytes.\<close>

definition enc_head :: "byte \<Rightarrow> byte \<Rightarrow> nat \<Rightarrow> bytes" where
  "enc_head smalltag largetag n =
     (if n < 56 then [smalltag + of_nat n]
      else (largetag + of_nat (length (be_bytes n))) # be_bytes n)"

section \<open>Laws of the size encoding\<close>

lemma intsize_loop_eq: "intsize_loop i sz = sz + (length (be_bytes (unat i)) - 1)"
proof (induction i sz rule: intsize_loop.induct)
  case (1 i sz)
  have d: "unat (drop_bit 8 i) = unat i div 256"
    using unat_drop_bit_div [of 8 i] by simp
  show ?case
  proof (cases "drop_bit 8 i = 0")
    case True
    with d have "length (be_bytes (unat i)) \<le> 1"
      by (simp add: length_be_bytes_le_iff div_eq_0_iff)
    with True show ?thesis by (subst intsize_loop.simps) simp
  next
    case False
    then have "unat (drop_bit 8 i) \<noteq> 0" by (simp only: unat_eq_zero) simp
    then have nz: "unat i div 256 \<noteq> 0" unfolding d .
    then have "unat i \<noteq> 0" by (rule contrapos_nn) simp
    then have len: "length (be_bytes (unat i)) = Suc (length (be_bytes (unat i div 256)))"
      by (rule length_be_bytes)
    from nz have "0 < length (be_bytes (unat i div 256))" by simp
    moreover have "intsize_loop i sz = intsize_loop (drop_bit 8 i) (sz + 1)"
      using False by (subst intsize_loop.simps) simp
    moreover have "\<dots> = sz + 1 + (length (be_bytes (unat i div 256)) - 1)"
      using "1.IH" [OF refl False] unfolding d .
    ultimately show ?thesis unfolding len by simp
  qed
qed

definition size_bytes :: "u64 \<Rightarrow> bytes" where
  "size_bytes i = (if i = 0 then [0] else be_bytes (unat i))"

lemma intsize_eq: "intsize i = length (size_bytes i)"
proof (cases "i = 0")
  case False
  then have "be_bytes (unat i) \<noteq> []" by (simp add: unat_eq_zero)
  with False show ?thesis by (simp add: intsize_def intsize_loop_eq size_bytes_def Suc_le_eq)
qed (simp add: intsize_def intsize_loop_eq size_bytes_def)

lemma size_bytes_digits:
  "256 ^ k \<le> unat i \<Longrightarrow> unat i < 256 ^ Suc k \<Longrightarrow> size_bytes i = be_digits (Suc k) (unat i)"
  by (auto simp: size_bytes_def be_bytes_digits)

lemma putint_eq: "putint b i = put_bytes b (size_bytes i)"
proof -
  define n where "n = unat i"
  have less: "i < w \<longleftrightarrow> n < unat w" for w by (simp add: n_def word_less_nat_alt)
  have n0: "size_bytes i = [of_nat (n mod 256)]" if "n < 256"
    using that by (cases "i = 0") (auto simp: size_bytes_def n_def be_bytes_small unat_gt_0)
  note nk = size_bytes_digits [of _ i, folded n_def]
  note d = ucast_drop_bit_byte [of _ i, folded n_def] ucast_byte_mod [of i, folded n_def]
  have "n < 256 ^ 8" using unsigned_less [of i, where 'a = nat] by (simp add: n_def)
  then consider "n < 256" | "256 ^ 1 \<le> n" "n < 256 ^ Suc 1" | "256 ^ 2 \<le> n" "n < 256 ^ Suc 2"
    | "256 ^ 3 \<le> n" "n < 256 ^ Suc 3" | "256 ^ 4 \<le> n" "n < 256 ^ Suc 4"
    | "256 ^ 5 \<le> n" "n < 256 ^ Suc 5" | "256 ^ 6 \<le> n" "n < 256 ^ Suc 6"
    | "256 ^ 7 \<le> n" "n < 256 ^ Suc 7"
    by force
  then show ?thesis
    unfolding putint_def less d
    by cases (simp_all add: n0 nk [of 1] nk [of 2] nk [of 3] nk [of 4] nk [of 5] nk [of 6] nk [of 7]
        be_digits_numeral be_digits_Cons)
qed

lemma length_size_bytes: "1 \<le> length (size_bytes i)" "length (size_bytes i) \<le> 8"
proof -
  have "unat i < 256 ^ 8" using unsigned_less [of i, where 'a = nat] by simp
  then show "length (size_bytes i) \<le> 8" by (simp add: size_bytes_def length_be_bytes_le_iff)
  show "1 \<le> length (size_bytes i)" by (auto simp: size_bytes_def Suc_le_eq unat_eq_zero)
qed

section \<open>Headers\<close>

lemma size_bytes_of_nat: "0 < n \<Longrightarrow> n < 2 ^ 64 \<Longrightarrow> size_bytes (of_nat n) = be_bytes n"
  by (auto simp: size_bytes_def unat_of_nat take_bit_eq_mod word_unat_eq_iff)

lemma of_nat_less_56: "n < 2 ^ 64 \<Longrightarrow> (of_nat n :: u64) < 56 \<longleftrightarrow> n < 56"
  by (simp add: word_less_nat_alt unat_of_nat take_bit_eq_mod)

lemma ucast_of_nat_byte: "(ucast (of_nat n :: u64) :: byte) = of_nat n"
  by (rule bit_word_eqI) (simp add: bit_simps)

lemma headsize_of_nat:
  assumes "n < 2 ^ 64"
  shows "headsize (of_nat n) = length (enc_head s l n)"
  using assms by (simp add: headsize_def enc_head_def of_nat_less_56 intsize_eq size_bytes_of_nat)

lemma puthead_of_nat:
  assumes "n < 2 ^ 64" and "length (enc_head s l n) \<le> length buf"
  shows "puthead buf s l (of_nat n) =
    Some (enc_head s l n @ drop (length (enc_head s l n)) buf, length (enc_head s l n))"
proof (cases "n < 56")
  case True
  with assms show ?thesis
    by (simp add: puthead_def of_nat_less_56 enc_head_def put_bytes_def ucast_of_nat_byte)
next
  case False
  with assms(2) obtain x xs where "buf = x # xs" by (cases buf) (simp_all add: enc_head_def)
  with False assms show ?thesis
    by (simp add: puthead_def of_nat_less_56 enc_head_def putint_eq size_bytes_of_nat put_bytes_def)
qed

lemma length_enc_head_le: "n < 2 ^ 64 \<Longrightarrow> length (enc_head s l n) \<le> 9"
  by (simp add: enc_head_def length_be_bytes_le_iff)

lemma length_enc_head_pos [simp]: "0 < length (enc_head s l n)"
  by (simp add: enc_head_def)

end
