(* ===== verification/RlpRaw.thy ===== *)
theory RlpRaw
  imports RlpHead
begin

text \<open>
  \<^verbatim>\<open>src/rlp/raw.go\<close>: reading the header of the first value of a byte slice
  (\<open>readSize\<close>, \<open>readKind\<close>) and the interface built on it (\<open>Split\<close>,
  \<open>SplitString\<close>, \<open>SplitList\<close>, \<open>CountValues\<close>, \<open>ListSize\<close>).
  The reference is \<open>enc_kind\<close>, the canonical encoding of one value; \<open>Split\<close> is
  shown to accept exactly the canonical encodings and to invert them.
\<close>

section \<open>Reading headers from a byte slice\<close>

datatype rlp_kind = Byte | String | List

text \<open>The errors of the package; \<open>GoPanic\<close> is a run-time panic (slice bounds).\<close>

datatype rlp_error = EOF | ErrUnexpectedEOF | EOL | ErrExpectedString | ErrExpectedList
  | ErrCanonInt | ErrCanonSize | ErrElemTooLarge | ErrValueTooLarge | ErrMoreThanOneValue
  | ErrNotInList | ErrNotAtEOL | ErrUintOverflow | ErrInvalidBool u64 | GoPanic

definition readSize :: "bytes \<Rightarrow> byte \<Rightarrow> rlp_error + u64" where
  "readSize b slen =
     (if length b < unat slen then Inl ErrUnexpectedEOF
      else let s :: u64 =
             (if slen = 1 then ucast (b ! 0)
              else if slen = 2 then push_bit 8 (ucast (b ! 0)) OR ucast (b ! 1)
              else if slen = 3 then
                push_bit 16 (ucast (b ! 0)) OR push_bit 8 (ucast (b ! 1)) OR ucast (b ! 2)
              else if slen = 4 then
                push_bit 24 (ucast (b ! 0)) OR push_bit 16 (ucast (b ! 1)) OR
                push_bit 8 (ucast (b ! 2)) OR ucast (b ! 3)
              else if slen = 5 then
                push_bit 32 (ucast (b ! 0)) OR push_bit 24 (ucast (b ! 1)) OR
                push_bit 16 (ucast (b ! 2)) OR push_bit 8 (ucast (b ! 3)) OR ucast (b ! 4)
              else if slen = 6 then
                push_bit 40 (ucast (b ! 0)) OR push_bit 32 (ucast (b ! 1)) OR
                push_bit 24 (ucast (b ! 2)) OR push_bit 16 (ucast (b ! 3)) OR
                push_bit 8 (ucast (b ! 4)) OR ucast (b ! 5)
              else if slen = 7 then
                push_bit 48 (ucast (b ! 0)) OR push_bit 40 (ucast (b ! 1)) OR
                push_bit 32 (ucast (b ! 2)) OR push_bit 24 (ucast (b ! 3)) OR
                push_bit 16 (ucast (b ! 4)) OR push_bit 8 (ucast (b ! 5)) OR ucast (b ! 6)
              else if slen = 8 then
                push_bit 56 (ucast (b ! 0)) OR push_bit 48 (ucast (b ! 1)) OR
                push_bit 40 (ucast (b ! 2)) OR push_bit 32 (ucast (b ! 3)) OR
                push_bit 24 (ucast (b ! 4)) OR push_bit 16 (ucast (b ! 5)) OR
                push_bit 8 (ucast (b ! 6)) OR ucast (b ! 7)
              else 0)
           in if s < 56 then Inl ErrCanonSize
              else if b = [] then Inl GoPanic
              else if b ! 0 = 0 then Inl ErrCanonSize
              else Inr s)"

definition readKind :: "bytes \<Rightarrow> rlp_error + (rlp_kind \<times> u64 \<times> u64)" where
  "readKind buf =
     (case buf of
        [] \<Rightarrow> Inl ErrUnexpectedEOF
      | b # rest \<Rightarrow>
          let header :: rlp_error + (rlp_kind \<times> u64 \<times> u64) =
            (if b < 0x80 then Inr (Byte, 0, 1)
             else if b < 0xB8 then
               (let contentsize :: u64 = ucast (b - 0x80)
                in if contentsize = 1 \<and> 1 < length buf \<and> buf ! 1 < 128 then Inl ErrCanonSize
                   else Inr (String, 1, contentsize))
             else if b < 0xC0 then
               (case readSize rest (b - 0xB7) of
                  Inl e \<Rightarrow> Inl e
                | Inr contentsize \<Rightarrow> Inr (String, ucast (b - 0xB7) + 1, contentsize))
             else if b < 0xF8 then Inr (List, 1, ucast (b - 0xC0))
             else
               (case readSize rest (b - 0xF7) of
                  Inl e \<Rightarrow> Inl e
                | Inr contentsize \<Rightarrow> Inr (List, ucast (b - 0xF7) + 1, contentsize)))
          in case header of
               Inl e \<Rightarrow> Inl e
             | Inr (k, tagsize, contentsize) \<Rightarrow>
                 (if of_nat (length buf) - tagsize < contentsize then Inl ErrValueTooLarge
                  else Inr (k, tagsize, contentsize)))"

text \<open>The slice expression \<open>b[lo:hi]\<close>.\<close>

definition subslice :: "bytes \<Rightarrow> u64 \<Rightarrow> u64 \<Rightarrow> rlp_error + bytes" where
  "subslice b lo hi =
     (if lo \<le> hi \<and> unat hi \<le> length b then Inr (take (unat hi - unat lo) (drop (unat lo) b))
      else Inl GoPanic)"

text \<open>With an error the three functions return the input as the rest; the error alone stands for it.\<close>

definition Split :: "bytes \<Rightarrow> rlp_error + (rlp_kind \<times> bytes \<times> bytes)" where
  "Split b =
     (case readKind b of
        Inl e \<Rightarrow> Inl e
      | Inr (k, ts, cs) \<Rightarrow>
          (case subslice b ts (ts + cs) of
             Inl e \<Rightarrow> Inl e
           | Inr content \<Rightarrow>
               (case subslice b (ts + cs) (of_nat (length b)) of
                  Inl e \<Rightarrow> Inl e
                | Inr rest \<Rightarrow> Inr (k, content, rest))))"

definition SplitString :: "bytes \<Rightarrow> rlp_error + (bytes \<times> bytes)" where
  "SplitString b =
     (case Split b of
        Inl e \<Rightarrow> Inl e
      | Inr (k, content, rest) \<Rightarrow>
          (if k = List then Inl ErrExpectedString else Inr (content, rest)))"

definition SplitList :: "bytes \<Rightarrow> rlp_error + (bytes \<times> bytes)" where
  "SplitList b =
     (case Split b of
        Inl e \<Rightarrow> Inl e
      | Inr (k, content, rest) \<Rightarrow>
          (if k \<noteq> List then Inl ErrExpectedList else Inr (content, rest)))"

definition ListSize :: "u64 \<Rightarrow> u64" where
  "ListSize contentSize = of_nat (headsize contentSize) + contentSize"

partial_function (option) CountValues_loop :: "bytes \<Rightarrow> nat \<Rightarrow> (rlp_error + nat) option" where
  "CountValues_loop b i =
     (if b = [] then Some (Inr i)
      else case readKind b of
             Inl e \<Rightarrow> Some (Inl e)
           | Inr (k, tagsize, sz) \<Rightarrow>
               (case subslice b (tagsize + sz) (of_nat (length b)) of
                  Inl e \<Rightarrow> Some (Inl e)
                | Inr b' \<Rightarrow> CountValues_loop b' (i + 1)))"

definition CountValues :: "bytes \<Rightarrow> (rlp_error + nat) option" where
  "CountValues b = CountValues_loop b 0"

section \<open>Canonical encodings\<close>

text \<open>The canonical encoding of one value: its kind and its content.\<close>

definition single :: "bytes \<Rightarrow> bool" where
  "single c \<longleftrightarrow> length c = 1 \<and> c ! 0 < 0x80"

definition enc_str :: "bytes \<Rightarrow> bytes" where
  "enc_str c = (if single c then c else enc_head 0x80 0xB7 (length c) @ c)"

definition enc_list :: "bytes \<Rightarrow> bytes" where
  "enc_list c = enc_head 0xC0 0xF7 (length c) @ c"

definition kind_ok :: "rlp_kind \<Rightarrow> bytes \<Rightarrow> bool" where
  "kind_ok k c = (case k of Byte \<Rightarrow> single c | String \<Rightarrow> \<not> single c | List \<Rightarrow> True)"

definition enc_kind :: "rlp_kind \<Rightarrow> bytes \<Rightarrow> bytes" where
  "enc_kind k c = (case k of List \<Rightarrow> enc_list c | _ \<Rightarrow> enc_str c)"

lemma enc_str_Nil [simp]: "enc_str [] = [0x80]"
  by (simp add: enc_str_def single_def enc_head_def)

lemma single_be_bytes: "single (be_bytes n) \<longleftrightarrow> 0 < n \<and> n < 128"
proof (cases "n < 256")
  case True
  then show ?thesis
    by (cases "n = 0") (simp_all add: be_bytes_small single_def word_less_nat_alt unat_of_nat take_bit_eq_mod)
next
  case False
  then have "\<not> length (be_bytes n) \<le> 1" by (simp add: length_be_bytes_le_iff)
  with False show ?thesis by (simp add: single_def)
qed

lemma enc_str_01 [simp]: "enc_str [0] = [0]" "enc_str [1] = [1]"
  by (simp_all add: enc_str_def single_def)

lemma enc_list_Nil [simp]: "enc_list [] = [0xC0]"
  by (simp add: enc_list_def enc_head_def)

section \<open>Laws of \<open>readSize\<close>\<close>

lemma readSize_take:
  assumes "n \<in> {1,2,3,4,5,6,7,8}" and "n \<le> length b"
  shows "readSize b (of_nat n) =
    (if be_or (take n b) < 56 \<or> b ! 0 = 0 then Inl ErrCanonSize else Inr (be_or (take n b)))"
proof -
  from assms have ne: "b \<noteq> []" by auto
  then have one: "be_or (take (Suc 0) b) = ucast (b ! 0)"
    using be_or_take_Suc [of 0 b] by simp
  show ?thesis
    using assms(1) assms(2) ne
    by (elim insertE)
       (simp_all add: readSize_def be_or_take_numeral one push_bit_or push_bit_push_bit or.assoc Let_def)
qed

lemma readSize_be_bytes:
  assumes "56 \<le> n" and "n < 2 ^ 64"
  shows "readSize (be_bytes n @ rest) (of_nat (length (be_bytes n))) = Inr (of_nat n)"
proof -
  let ?d = "be_bytes n"
  have "length ?d \<le> 8" using assms(2) by (simp add: length_be_bytes_le_iff)
  moreover have "?d \<noteq> []" using assms(1) by simp
  then have "1 \<le> length ?d" by (simp only: length_greater_0_conv [symmetric] Suc_le_eq One_nat_def)
  ultimately have "length ?d \<in> {1,2,3,4,5,6,7,8}" by auto
  then have "readSize (?d @ rest) (of_nat (length ?d)) =
    (if be_or ?d < 56 \<or> (?d @ rest) ! 0 = 0 then Inl ErrCanonSize else Inr (be_or ?d))"
    by (subst readSize_take) simp_all
  moreover have "be_or ?d = of_nat n" by (simp add: be_or_eq)
  moreover have "(?d @ rest) ! 0 \<noteq> 0"
    using hd_be_bytes [of n] assms(1) \<open>?d \<noteq> []\<close> by (simp add: nth_append hd_conv_nth)
  ultimately show ?thesis
    using assms of_nat_less_56 [of n] by simp
qed

lemma unat_tag: "t + n < 256 \<Longrightarrow> unat (of_nat t + of_nat n :: byte) = t + n"
  by (simp add: unat_word_ariths unat_of_nat take_bit_eq_mod)

lemma too_large_iff:
  assumes "ts + cs \<le> len" and "len < 2 ^ 64"
  shows "\<not> (of_nat len - of_nat ts < (of_nat cs :: u64))"
proof -
  have "unat (of_nat len - of_nat ts :: u64) = len - ts"
    using assms by (simp flip: of_nat_diff add: unat_of_nat take_bit_eq_mod)
  then show ?thesis using assms
    by (simp add: word_less_nat_alt unat_of_nat take_bit_eq_mod)
qed

lemma readKind_enc_head_small:
  assumes "n < 56" and "n \<le> length rest" and "length rest < 2 ^ 63"
  shows "(n = 1 \<Longrightarrow> \<not> rest ! 0 < 128) \<Longrightarrow>
      readKind (enc_head 0x80 0xB7 n @ rest) = Inr (String, 1, of_nat n)"
    "readKind (enc_head 0xC0 0xF7 n @ rest) = Inr (List, 1, of_nat n)"
proof -
  have s: "unat (0x80 + of_nat n :: byte) = 128 + n" "unat (0xC0 + of_nat n :: byte) = 192 + n"
    using unat_tag [of 128 n] unat_tag [of 192 n] assms(1) by simp_all
  have u: "(ucast (of_nat n :: byte) :: u64) = of_nat n"
    using assms(1) by (intro word_unat_eq_iff [THEN iffD2])
      (simp add: unsigned_ucast_eq unat_of_nat take_bit_eq_mod)
  have one: "(of_nat n :: u64) = 1 \<longleftrightarrow> n = 1"
    using assms(1) by (simp add: word_unat_eq_iff unat_of_nat take_bit_eq_mod)
  note l = too_large_iff [of 1 n "Suc (length rest)"]
  show "readKind (enc_head 0x80 0xB7 n @ rest) = Inr (String, 1, of_nat n)"
    if "n = 1 \<Longrightarrow> \<not> rest ! 0 < 128"
    using assms that l by (auto simp: readKind_def enc_head_def word_less_nat_alt s u one Let_def)
  show "readKind (enc_head 0xC0 0xF7 n @ rest) = Inr (List, 1, of_nat n)"
    using assms l by (auto simp: readKind_def enc_head_def word_less_nat_alt s u one Let_def)
qed

lemma byte_diff:
  assumes "unat (b :: byte) = t + m" and "t + m < 256"
  shows "b - of_nat t = of_nat m" "(ucast (of_nat m :: byte) :: u64) = of_nat m"
proof -
  have "b = of_nat (t + m)" using assms(1) by (metis of_nat_unat_byte)
  then show "b - of_nat t = of_nat m" by simp
  show "(ucast (of_nat m :: byte) :: u64) = of_nat m"
    using assms(2)
    by (intro word_unat_eq_iff [THEN iffD2])
       (simp add: unsigned_ucast_eq unat_of_nat take_bit_eq_mod)
qed

lemma readKind_large:
  assumes "0 < m" "m \<le> 8" "readSize t (of_nat m) = Inr cs"
    and fits: "\<not> of_nat (Suc (length t)) - (of_nat m + 1) < cs"
  shows "unat b = 183 + m \<Longrightarrow> readKind (b # t) = Inr (String, of_nat m + 1, cs)"
    "unat b = 247 + m \<Longrightarrow> readKind (b # t) = Inr (List, of_nat m + 1, cs)"
proof -
  assume b: "unat b = 183 + m"
  have d: "b - 0xB7 = of_nat m" "(ucast (of_nat m :: byte) :: u64) = of_nat m"
    using byte_diff [of b 183 m] assms(2) b by simp_all
  have c: "\<not> b < 0x80" "\<not> b < 0xB8" "b < 0xC0"
    using b assms(1,2) by (simp_all add: word_less_nat_alt)
  from fits show "readKind (b # t) = Inr (String, of_nat m + 1, cs)"
    unfolding readKind_def list.case Let_def by (simp add: c d assms(3))
next
  assume b: "unat b = 247 + m"
  have d: "b - 0xF7 = of_nat m" "(ucast (of_nat m :: byte) :: u64) = of_nat m"
    using byte_diff [of b 247 m] assms(2) b by simp_all
  have c: "\<not> b < 0x80" "\<not> b < 0xB8" "\<not> b < 0xC0" "\<not> b < 0xF8"
    using b assms(1,2) by (simp_all add: word_less_nat_alt)
  from fits show "readKind (b # t) = Inr (List, of_nat m + 1, cs)"
    unfolding readKind_def list.case Let_def by (simp add: c d assms(3))
qed

lemma readKind_enc_head_large:
  assumes "56 \<le> n" and "n \<le> length rest" and "length rest < 2 ^ 63"
  defines "m \<equiv> length (be_bytes n)"
  shows "readKind (enc_head 0x80 0xB7 n @ rest) = Inr (String, of_nat m + 1, of_nat n)"
    "readKind (enc_head 0xC0 0xF7 n @ rest) = Inr (List, of_nat m + 1, of_nat n)"
proof -
  have n64: "n < 2 ^ 64" using assms(2,3) by simp
  then have m8: "m \<le> 8" by (simp add: m_def length_be_bytes_le_iff)
  have m0: "0 < m" using assms(1) by (simp add: m_def)
  have r: "readSize (be_bytes n @ rest) (of_nat m) = Inr (of_nat n)"
    unfolding m_def by (rule readSize_be_bytes [OF assms(1) n64])
  have l: "\<not> of_nat (Suc (length (be_bytes n @ rest))) - (of_nat m + 1) < (of_nat n :: u64)"
    using too_large_iff [of "Suc m" n "Suc (length (be_bytes n @ rest))"] assms m8
    by (simp add: add_ac)
  note k = readKind_large [OF m0 m8 r l]
  have s: "unat (0xB7 + of_nat m :: byte) = 183 + m" "unat (0xF7 + of_nat m :: byte) = 247 + m"
    using unat_tag [of 183 m] unat_tag [of 247 m] m8 by simp_all
  show "readKind (enc_head 0x80 0xB7 n @ rest) = Inr (String, of_nat m + 1, of_nat n)"
    using k(1) [OF s(1)] assms(1) by (simp add: enc_head_def m_def)
  show "readKind (enc_head 0xC0 0xF7 n @ rest) = Inr (List, of_nat m + 1, of_nat n)"
    using k(2) [OF s(2)] assms(1) by (simp add: enc_head_def m_def)
qed

section \<open>\<open>Split\<close> inverts the canonical encoding\<close>

lemma subslice_of_nat:
  assumes "lo + n \<le> length b" and "length b < 2 ^ 63"
  shows "subslice b (of_nat lo) (of_nat lo + of_nat n) = Inr (take n (drop lo b))"
    "subslice b (of_nat lo + of_nat n) (of_nat (length b)) = Inr (drop (lo + n) b)"
proof -
  have u: "unat (of_nat lo :: u64) = lo" "unat (of_nat lo + of_nat n :: u64) = lo + n"
    "unat (of_nat (length b) :: u64) = length b"
    using assms by (simp_all flip: of_nat_add add: unat_of_nat take_bit_eq_mod)
  show "subslice b (of_nat lo) (of_nat lo + of_nat n) = Inr (take n (drop lo b))"
    "subslice b (of_nat lo + of_nat n) (of_nat (length b)) = Inr (drop (lo + n) b)"
    using assms by (simp_all add: subslice_def word_le_nat_alt u)
qed

lemma Split_of_nat:
  assumes "readKind b = Inr (k, of_nat ts, of_nat cs)" and "ts + cs \<le> length b"
    and "length b < 2 ^ 63"
  shows "Split b = Inr (k, take cs (drop ts b), drop (ts + cs) b)"
  using subslice_of_nat [OF assms(2,3)] by (simp add: Split_def assms(1))

lemma readKind_enc_kind:
  assumes "kind_ok k c" and "length (enc_kind k c @ rest) < 2 ^ 63"
  shows "\<exists>ts. readKind (enc_kind k c @ rest) = Inr (k, of_nat ts, of_nat (length c)) \<and>
    length (enc_kind k c) = ts + length c \<and> drop ts (enc_kind k c) = c"
proof (cases k)
  case Byte
  with assms(1) obtain x where c: "c = [x]" "x < 0x80"
    by (auto simp: kind_ok_def single_def length_Suc_conv)
  have "\<not> of_nat (Suc (length rest)) - 0 < (1 :: u64)"
    using too_large_iff [of 0 1 "Suc (length rest)"] assms(2) c Byte
    by (simp add: enc_kind_def enc_str_def single_def)
  with Byte c show ?thesis
    by (intro exI [of _ 0]) (simp add: enc_kind_def enc_str_def single_def readKind_def Let_def)
next
  case String
  with assms have c: "\<not> single c" "enc_kind k c = enc_head 0x80 0xB7 (length c) @ c"
    by (simp_all add: kind_ok_def enc_kind_def enc_str_def)
  with assms(2) have "length (c @ rest) < 2 ^ 63" by simp
  moreover have "length c = 1 \<Longrightarrow> \<not> (c @ rest) ! 0 < 128"
    using c(1) by (simp add: single_def nth_append)
  ultimately show ?thesis
    using String c(2) readKind_enc_head_small(1) [of "length c" "c @ rest"]
      readKind_enc_head_large(1) [of "length c" "c @ rest"]
    by (cases "length c < 56")
       (force simp: enc_head_def add_ac intro: exI [of _ "Suc (length (be_bytes (length c)))"])+
next
  case List
  then have c: "enc_kind k c = enc_head 0xC0 0xF7 (length c) @ c"
    by (simp add: enc_kind_def enc_list_def)
  with assms(2) have "length (c @ rest) < 2 ^ 63" by simp
  then show ?thesis
    using List c readKind_enc_head_small(2) [of "length c" "c @ rest"]
      readKind_enc_head_large(2) [of "length c" "c @ rest"]
    by (cases "length c < 56")
       (force simp: enc_head_def add_ac intro: exI [of _ "Suc (length (be_bytes (length c)))"])+
qed

lemma readSize_inv:
  assumes "readSize t (of_nat m) = Inr cs" and "0 < m" and "m \<le> 8"
  obtains n r where "56 \<le> n" "n < 2 ^ 64" "cs = of_nat n" "m = length (be_bytes n)" "t = be_bytes n @ r"
proof -
  have "unat (of_nat m :: byte) = m" using assms(3) by (simp add: unat_of_nat take_bit_eq_mod)
  with assms(1) have le: "m \<le> length t" by (auto simp: readSize_def split: if_splits)
  let ?d = "take m t" and ?n = "be_val (take m t)"
  have "m \<in> {1,2,3,4,5,6,7,8}" using assms(2,3) by auto
  from readSize_take [OF this le] assms(1)
  have d: "\<not> be_or ?d < 56" "t ! 0 \<noteq> 0" "cs = be_or ?d" by (simp_all split: if_splits)
  have len: "length ?d = m" using le by simp
  have u: "unat (be_or ?d) = ?n" using len assms(3) by (intro unat_be_or) simp
  have "?n < 256 ^ m" using be_val_less [of ?d] len by simp
  moreover have "(256::nat) ^ m \<le> 256 ^ 8" using assms(3) by (rule power_increasing) simp
  ultimately have "?n < 2 ^ 64" by simp
  moreover have "56 \<le> ?n" using d(1) u by (simp add: word_less_nat_alt)
  moreover have "hd ?d \<noteq> 0" using d(2) le assms(2) by (cases t) simp_all
  then have "be_bytes ?n = ?d" by (intro be_bytes_be_val) simp
  moreover have "cs = of_nat ?n" using d(3) by (simp add: be_or_eq)
  ultimately show thesis using len that [of ?n "drop m t"] by simp
qed

lemma fits_iff:
  assumes "ts \<le> len" and "len < 2 ^ 64" and "cs < 2 ^ 64"
  shows "of_nat len - of_nat ts < (of_nat cs :: u64) \<longleftrightarrow> len - ts < cs"
proof -
  have "unat (of_nat len - of_nat ts :: u64) = len - ts"
    using assms by (simp flip: of_nat_diff add: unat_of_nat take_bit_eq_mod)
  with assms show ?thesis
    by (simp add: word_less_nat_alt unat_of_nat take_bit_eq_mod)
qed

text \<open>What a successful \<open>readKind\<close> says about its input.\<close>

definition canonical_at :: "bytes \<Rightarrow> rlp_kind \<Rightarrow> u64 \<Rightarrow> u64 \<Rightarrow> bool" where
  "canonical_at b k ts cs \<longleftrightarrow>
     (\<exists>t c rest. ts = of_nat t \<and> cs = of_nat (length c) \<and> kind_ok k c \<and>
        b = enc_kind k c @ rest \<and> length (enc_kind k c) = t + length c \<and>
        drop t (enc_kind k c) = c \<and> 0 < length (enc_kind k c))"

lemma canonical_at_large:
  assumes "readSize t (of_nat m) = Inr cs" and "0 < m" and "m \<le> 8"
    and len: "length t < 2 ^ 63" and fits: "\<not> of_nat (Suc (length t)) - (of_nat m + 1) < cs"
  shows "unat x = 183 + m \<Longrightarrow> canonical_at (x # t) String (of_nat m + 1) cs"
    "unat x = 247 + m \<Longrightarrow> canonical_at (x # t) List (of_nat m + 1) cs"
proof -
  obtain n r where n: "56 \<le> n" "n < 2 ^ 64" "cs = of_nat n" "m = length (be_bytes n)"
    "t = be_bytes n @ r"
    by (rule readSize_inv [OF assms(1-3)])
  have "n \<le> length r"
    using fits fits_iff [of "Suc m" "Suc (length t)" n] n len by (simp add: add_ac)
  then obtain c rest where r: "r = c @ rest" "length c = n"
    by (metis append_take_drop_id length_take min.absorb2)
  have ns: "\<not> single c" using n(1) r(2) by (auto simp: single_def)
  have x: "of_nat (unat x) = x" by simp
  { assume "unat x = 183 + m"
    with x have "x = 0xB7 + of_nat m" by simp
    then show "canonical_at (x # t) String (of_nat m + 1) cs"
      unfolding canonical_at_def using n r ns
      by (intro exI [of _ "Suc m"] exI [of _ c] exI [of _ rest])
         (simp add: kind_ok_def enc_kind_def enc_str_def enc_head_def) }
  { assume "unat x = 247 + m"
    with x have "x = 0xF7 + of_nat m" by simp
    then show "canonical_at (x # t) List (of_nat m + 1) cs"
      unfolding canonical_at_def using n r ns
      by (intro exI [of _ "Suc m"] exI [of _ c] exI [of _ rest])
         (simp add: kind_ok_def enc_kind_def enc_list_def enc_head_def) }
qed

lemma canonical_at_small:
  assumes "n < 56" and "n \<le> length t"
  shows "unat x = 128 + n \<Longrightarrow> (n = 1 \<Longrightarrow> \<not> t ! 0 < 128) \<Longrightarrow> canonical_at (x # t) String 1 (of_nat n)"
    "unat x = 192 + n \<Longrightarrow> canonical_at (x # t) List 1 (of_nat n)"
proof -
  obtain c rest where t: "t = c @ rest" "length c = n"
    using assms(2) by (metis append_take_drop_id length_take min.absorb2)
  have x: "of_nat (unat x) = x" by simp
  { assume "unat x = 128 + n" and ns: "n = 1 \<Longrightarrow> \<not> t ! 0 < 128"
    with x have "x = 0x80 + of_nat n" by simp
    moreover from ns t have "\<not> single c" by (auto simp: single_def nth_append)
    ultimately show "canonical_at (x # t) String 1 (of_nat n)"
      unfolding canonical_at_def using t assms(1)
      by (intro exI [of _ "Suc 0"] exI [of _ c] exI [of _ rest])
         (simp add: kind_ok_def enc_kind_def enc_str_def enc_head_def) }
  { assume "unat x = 192 + n"
    with x have "x = 0xC0 + of_nat n" by simp
    then show "canonical_at (x # t) List 1 (of_nat n)"
      unfolding canonical_at_def using t assms(1)
      by (intro exI [of _ "Suc 0"] exI [of _ c] exI [of _ rest])
         (simp add: kind_ok_def enc_kind_def enc_list_def enc_head_def) }
qed

lemma canonical_at_byte: "x < 0x80 \<Longrightarrow> canonical_at (x # t) Byte 0 1"
  unfolding canonical_at_def
  by (intro exI [of _ "0::nat"] exI [of _ "[x]"] exI [of _ t])
     (simp add: kind_ok_def enc_kind_def enc_str_def single_def)

lemma readKind_canonical:
  assumes "readKind b = Inr (k, ts, cs)" and len: "length b < 2 ^ 63"
  shows "canonical_at b k ts cs"
proof -
  obtain x t where b: "b = x # t" using assms(1) by (cases b) (simp_all add: readKind_def)
  define n where "n = unat x"
  have x256: "n < 256" by (simp add: n_def)
  have lt: "x < w \<longleftrightarrow> n < unat w" for w by (simp add: n_def word_less_nat_alt)
  consider "n < 128" | "128 \<le> n" "n < 184" | "184 \<le> n" "n < 192" | "192 \<le> n" "n < 248" | "248 \<le> n"
    by linarith
  then show ?thesis
  proof cases
    case 1
    with assms show ?thesis
      using canonical_at_byte [of x t]
      by (auto simp: b readKind_def lt Let_def split: if_splits)
  next
    case 2
    then obtain m where m: "n = 128 + m" "m < 56" by (intro that [of "n - 128"]) simp_all
    have d: "x - 0x80 = of_nat m" "(ucast (of_nat m :: byte) :: u64) = of_nat m"
      using byte_diff [of x 128 m] m by (simp_all add: n_def)
    have one: "(of_nat m :: u64) = 1 \<longleftrightarrow> m = 1"
      using m(2) by (simp add: word_unat_eq_iff unat_of_nat take_bit_eq_mod)
    from assms(1) 2 have "k = String" "ts = 1" "cs = of_nat m"
      and c: "\<not> (m = 1 \<and> 1 < length b \<and> b ! 1 < 128)"
      and f: "\<not> of_nat (length b) - 1 < (of_nat m :: u64)"
      by (auto simp: b readKind_def lt Let_def d one split: if_splits)
    moreover have "m \<le> length t"
      using f fits_iff [of 1 "length b" m] len m(2) by (simp add: b)
    ultimately show ?thesis
      using canonical_at_small(1) [of m t x] m by (auto simp: b n_def)
  next
    case 3
    then obtain m where m: "n = 183 + m" "m \<le> 8" "0 < m" by (intro that [of "n - 183"]) simp_all
    have d: "x - 0xB7 = of_nat m" "(ucast (of_nat m :: byte) :: u64) = of_nat m"
      using byte_diff [of x 183 m] m by (simp_all add: n_def)
    from assms(1) 3 have "k = String" "ts = of_nat m + 1" "readSize t (of_nat m) = Inr cs"
      and f: "\<not> of_nat (Suc (length t)) - (of_nat m + 1) < cs"
      by (auto simp: b readKind_def lt Let_def d split: if_splits sum.splits)
    with canonical_at_large(1) [of t m cs x] m len show ?thesis by (simp add: b n_def)
  next
    case 4
    then obtain m where m: "n = 192 + m" "m < 56" by (intro that [of "n - 192"]) simp_all
    have d: "x - 0xC0 = of_nat m" "(ucast (of_nat m :: byte) :: u64) = of_nat m"
      using byte_diff [of x 192 m] m by (simp_all add: n_def)
    from assms(1) 4 have "k = List" "ts = 1" "cs = of_nat m"
      and f: "\<not> of_nat (length b) - 1 < (of_nat m :: u64)"
      by (auto simp: b readKind_def lt Let_def d split: if_splits)
    moreover have "m \<le> length t"
      using f fits_iff [of 1 "length b" m] len m(2) by (simp add: b)
    ultimately show ?thesis
      using canonical_at_small(2) [of m t x] m by (simp add: b n_def)
  next
    case 5
    then obtain m where m: "n = 247 + m" "m \<le> 8" "0 < m"
      using x256 by (intro that [of "n - 247"]) simp_all
    have d: "x - 0xF7 = of_nat m" "(ucast (of_nat m :: byte) :: u64) = of_nat m"
      using byte_diff [of x 247 m] m by (simp_all add: n_def)
    from assms(1) 5 have "k = List" "ts = of_nat m + 1" "readSize t (of_nat m) = Inr cs"
      and f: "\<not> of_nat (Suc (length t)) - (of_nat m + 1) < cs"
      by (auto simp: b readKind_def lt Let_def d split: if_splits sum.splits)
    with canonical_at_large(2) [of t m cs x] m len show ?thesis by (simp add: b n_def)
  qed
qed

lemma Split_enc_kind:
  assumes "kind_ok k c" and "length (enc_kind k c @ rest) < 2 ^ 63"
  shows "Split (enc_kind k c @ rest) = Inr (k, c, rest)"
proof -
  obtain ts where ts: "readKind (enc_kind k c @ rest) = Inr (k, of_nat ts, of_nat (length c))"
    "length (enc_kind k c) = ts + length c" "drop ts (enc_kind k c) = c"
    using readKind_enc_kind [OF assms] by blast
  show ?thesis
    using Split_of_nat [OF ts(1)] assms(2) by (simp add: ts(2,3))
qed

lemma Split_canonical:
  assumes "Split b = Inr (k, c, rest)" and len: "length b < 2 ^ 63"
  shows "kind_ok k c \<and> b = enc_kind k c @ rest"
proof -
  obtain ts cs where rk: "readKind b = Inr (k, ts, cs)"
    using assms(1) by (auto simp: Split_def split: sum.splits)
  obtain t c' rest' where can: "kind_ok k c'" "b = enc_kind k c' @ rest'"
    using readKind_canonical [OF rk len] by (auto simp: canonical_at_def)
  then have "Split b = Inr (k, c', rest')"
    using len by (auto intro: Split_enc_kind)
  with assms(1) can show ?thesis by simp
qed


section \<open>Counting values\<close>

definition enc_kinds :: "(rlp_kind \<times> bytes) list \<Rightarrow> bytes" where
  "enc_kinds vs = concat (map (\<lambda>(k, c). enc_kind k c) vs)"

definition kinds_ok :: "(rlp_kind \<times> bytes) list \<Rightarrow> bool" where
  "kinds_ok vs \<longleftrightarrow> list_all (\<lambda>(k, c). kind_ok k c) vs"

lemma enc_kinds_simps [simp]: "enc_kinds [] = []" "enc_kinds ((k, c) # vs) = enc_kind k c @ enc_kinds vs"
  by (simp_all add: enc_kinds_def)

lemma kinds_ok_simps [simp]: "kinds_ok []" "kinds_ok ((k, c) # vs) \<longleftrightarrow> kind_ok k c \<and> kinds_ok vs"
  by (simp_all add: kinds_ok_def)

lemma readKind_step:
  assumes "length b < 2 ^ 63" and "readKind b = Inr (k, ts, cs)"
  obtains c rest where "kind_ok k c" "b = enc_kind k c @ rest" "length rest < length b"
    "subslice b (ts + cs) (of_nat (length b)) = Inr rest"
proof -
  obtain t c rest where c: "ts = of_nat t" "cs = of_nat (length c)" "kind_ok k c"
      "b = enc_kind k c @ rest" "length (enc_kind k c) = t + length c" "0 < length (enc_kind k c)"
    using readKind_canonical [OF assms(2,1)] unfolding canonical_at_def by blast
  then have "subslice b (ts + cs) (of_nat (length b)) = Inr (drop (t + length c) b)"
    using subslice_of_nat(2) [of t "length c" b] assms(1) by simp
  also have "drop (t + length c) b = rest"
    unfolding c(4) c(5) [symmetric] by simp
  finally have "subslice b (ts + cs) (of_nat (length b)) = Inr rest" .
  moreover have "length rest < length b" using c(6) unfolding c(4) by simp
  ultimately show thesis using that c(3,4) by blast
qed

lemma CountValues_loop_total:
  "length b < 2 ^ 63 \<Longrightarrow>
   (\<exists>e. CountValues_loop b i = Some (Inl e)) \<or>
   (\<exists>vs. kinds_ok vs \<and> b = enc_kinds vs \<and> CountValues_loop b i = Some (Inr (i + length vs)))"
proof (induction b arbitrary: i rule: length_induct)
  case (1 b)
  consider "b = []" | e where "b \<noteq> []" "readKind b = Inl e"
    | k ts cs where "b \<noteq> []" "readKind b = Inr (k, ts, cs)"
    by (metis old.prod.exhaust obj_sumE)
  then show ?case
  proof cases
    case 1
    then show ?thesis by (intro disjI2 exI [of _ "[]"]) (simp add: CountValues_loop.simps)
  next
    case 2
    then show ?thesis by (simp add: CountValues_loop.simps)
  next
    case 3
    then obtain c rest where c: "kind_ok k c" "b = enc_kind k c @ rest" "length rest < length b"
        "subslice b (ts + cs) (of_nat (length b)) = Inr rest"
      using "1.prems" by (metis readKind_step)
    then have step: "CountValues_loop b i = CountValues_loop rest (i + 1)"
      using 3 by (subst CountValues_loop.simps) simp
    have "length rest < 2 ^ 63" using c(3) "1.prems" by simp
    with "1.IH" c(3) have "(\<exists>e. CountValues_loop rest (i + 1) = Some (Inl e)) \<or>
      (\<exists>vs. kinds_ok vs \<and> rest = enc_kinds vs \<and>
         CountValues_loop rest (i + 1) = Some (Inr (i + 1 + length vs)))"
      by blast
    then show ?thesis
    proof
      assume "\<exists>vs. kinds_ok vs \<and> rest = enc_kinds vs \<and>
         CountValues_loop rest (i + 1) = Some (Inr (i + 1 + length vs))"
      then obtain vs where "kinds_ok vs" "rest = enc_kinds vs"
        "CountValues_loop rest (i + 1) = Some (Inr (i + 1 + length vs))" by blast
      with c step show ?thesis by (intro disjI2 exI [of _ "(k, c) # vs"]) simp
    qed (simp add: step)
  qed
qed

lemma CountValues_loop_enc:
  "kinds_ok vs \<Longrightarrow> length (enc_kinds vs) < 2 ^ 63 \<Longrightarrow>
   CountValues_loop (enc_kinds vs) i = Some (Inr (i + length vs))"
proof (induction vs arbitrary: i)
  case Nil
  then show ?case by (simp add: CountValues_loop.simps)
next
  case (Cons v vs)
  obtain k c where v: "v = (k, c)" by (cases v)
  define b where "b = enc_kind k c @ enc_kinds vs"
  from Cons.prems have ok: "kind_ok k c" "length b < 2 ^ 63" by (simp_all add: v b_def)
  obtain t where t: "readKind b = Inr (k, of_nat t, of_nat (length c))"
      "length (enc_kind k c) = t + length c"
    using readKind_enc_kind [of k c "enc_kinds vs"] ok by (auto simp: b_def)
  have "subslice b (of_nat t + of_nat (length c)) (of_nat (length b)) = Inr (enc_kinds vs)"
    using subslice_of_nat(2) [of t "length c" b] ok(2) t(2) by (simp add: b_def)
  moreover have "b \<noteq> []" using t(1) by (auto simp: readKind_def)
  ultimately have "CountValues_loop b i = CountValues_loop (enc_kinds vs) (i + 1)"
    using t(1) by (subst CountValues_loop.simps) simp
  with Cons ok show ?case by (simp add: v b_def)
qed

section \<open>Properties\<close>

text \<open>C11. \<open>Split\<close> accepts exactly the canonical encodings: it returns kind, content
  and rest of a slice if and only if the slice is the canonical encoding of that content
  followed by the rest. In particular no slice bound is ever violated on success, and no value
  has two encodings.\<close>

theorem Split_iff_canonical:
  assumes "length b < 2 ^ 63"
  shows "Split b = Inr (k, c, rest) \<longleftrightarrow> kind_ok k c \<and> b = enc_kind k c @ rest"
proof
  assume "Split b = Inr (k, c, rest)"
  then show "kind_ok k c \<and> b = enc_kind k c @ rest" using assms by (rule Split_canonical)
next
  assume *: "kind_ok k c \<and> b = enc_kind k c @ rest"
  with assms show "Split b = Inr (k, c, rest)" using Split_enc_kind [of k c rest] by blast
qed

theorem Split_iff_canonical_witness:
  "Split [0x83, 1, 2, 3, 0xC0] = Inr (String, [1, 2, 3], [0xC0])"
  by (subst Split_iff_canonical)
     (simp_all add: kind_ok_def enc_kind_def enc_str_def enc_head_def single_def)

text \<open>C27. \<open>CountValues\<close> terminates on every slice, and it returns a number
  exactly when the slice is a sequence of that many canonical encodings.\<close>

theorem CountValues_correct:
  assumes "length b < 2 ^ 63"
  shows "CountValues b \<noteq> None \<and>
    (CountValues b = Some (Inr n) \<longleftrightarrow> (\<exists>vs. kinds_ok vs \<and> b = enc_kinds vs \<and> length vs = n))"
proof -
  have total: "(\<exists>e. CountValues b = Some (Inl e)) \<or>
    (\<exists>vs. kinds_ok vs \<and> b = enc_kinds vs \<and> CountValues b = Some (Inr (length vs)))"
    using CountValues_loop_total [OF assms, of 0] unfolding CountValues_def by simp
  have "CountValues b = Some (Inr n)" if "kinds_ok vs" "b = enc_kinds vs" "length vs = n" for vs
    using CountValues_loop_enc [of vs 0] assms that unfolding CountValues_def by simp
  with total show ?thesis by auto
qed

theorem CountValues_correct_witness:
  "CountValues [0x83, 1, 2, 3, 0xC0, 5] = Some (Inr 3)"
proof -
  have "kinds_ok [(String, [1, 2, 3]), (List, []), (Byte, [5])]"
    "[0x83, 1, 2, 3, 0xC0, 5] = enc_kinds [(String, [1, 2, 3]), (List, []), (Byte, [5])]"
    by (simp_all add: kind_ok_def enc_kind_def enc_str_def enc_list_def enc_head_def single_def)
  moreover have "length [0x83, 1, 2, 3, 0xC0, 5 :: byte] < 2 ^ 63" by simp
  ultimately show ?thesis
    using CountValues_correct [of "[0x83, 1, 2, 3, 0xC0, 5]" 3]
    by (metis length_Cons list.size(3) numeral_3_eq_3)
qed

end
