(* ===== verification/Bn.thy ===== *)
theory Bn
  imports GoStrings
begin

text \<open>
  \<^verbatim>\<open>src/bn/bignumber.go\<close>: \<open>bn.Number\<close>, a struct with one pointer to a
  \<^verbatim>\<open>big.Int\<close>. A value is \<open>None\<close> for the nil pointer and \<open>Some n\<close>
  otherwise; every operation that dereferences a nil pointer is a panic. \<^verbatim>\<open>big.Int\<close>
  is modelled by the mathematical integers with the documented semantics of its methods:
  Euclidean division, \<open>Exp\<close> with a nil modulus, arithmetic shifts and two's-complement
  bit operations.
\<close>

section \<open>Representation\<close>

record Number =
  V :: "int option"

abbreviation Num :: "int \<Rightarrow> Number" where
  "Num n \<equiv> \<lparr>V = Some n\<rparr>"

text \<open>\<^verbatim>\<open>big.Int.Div\<close> and \<^verbatim>\<open>big.Int.Mod\<close>: the remainder is never negative.\<close>

definition euclid_mod :: "int \<Rightarrow> int \<Rightarrow> int" where
  "euclid_mod x y = x mod \<bar>y\<bar>"

definition euclid_div :: "int \<Rightarrow> int \<Rightarrow> int" where
  "euclid_div x y = sgn y * (x div \<bar>y\<bar>)"

definition big_exp :: "int \<Rightarrow> int \<Rightarrow> int" where
  "big_exp x y = (if y \<le> 0 then 1 else x ^ nat y)"

definition cmp_int :: "int \<Rightarrow> int \<Rightarrow> int" where
  "cmp_int x y = (if x < y then -1 else if x = y then 0 else 1)"

section \<open>Construction\<close>

definition NewNumber :: "int \<Rightarrow> Number" where
  "NewNumber x = Num x"

definition N :: "int \<Rightarrow> Number" where
  "N x = NewNumber x"

definition NewNumberBigInt :: "int option \<Rightarrow> Number go" where
  "NewNumberBigInt x = (case x of None \<Rightarrow> Inl NilDeref | Some n \<Rightarrow> Inr (Num n))"

definition NB :: "int option \<Rightarrow> Number go" where
  "NB x = NewNumberBigInt x"

text \<open>The common shape of the binary operations: a fresh \<open>z\<close> is filled from
  \<open>x.V\<close> and \<open>y.V\<close>, which must not be nil.\<close>

definition binop :: "(int \<Rightarrow> int \<Rightarrow> int) \<Rightarrow> Number \<Rightarrow> Number \<Rightarrow> Number go" where
  "binop f x y =
     (case V x of None \<Rightarrow> Inl NilDeref
      | Some a \<Rightarrow> (case V y of None \<Rightarrow> Inl NilDeref | Some b \<Rightarrow> Inr (Num (f a b))))"

definition unop :: "(int \<Rightarrow> int) \<Rightarrow> Number \<Rightarrow> Number go" where
  "unop f x = (case V x of None \<Rightarrow> Inl NilDeref | Some a \<Rightarrow> Inr (Num (f a)))"

section \<open>Comparison\<close>

definition Cmp :: "Number \<Rightarrow> Number \<Rightarrow> int go" where
  "Cmp x y =
     (case V x of None \<Rightarrow> Inl NilDeref
      | Some a \<Rightarrow> (case V y of None \<Rightarrow> Inl NilDeref | Some b \<Rightarrow> Inr (cmp_int a b)))"

definition CmpI :: "Number \<Rightarrow> int \<Rightarrow> int go" where
  "CmpI x y = Cmp x (N y)"

definition IsZero :: "Number \<Rightarrow> bool go" where
  "IsZero x = map_sum id (\<lambda>c. c = 0) (CmpI x 0)"

definition IsPositive :: "Number \<Rightarrow> bool go" where
  "IsPositive x = map_sum id (\<lambda>c. c > 0) (CmpI x 0)"

definition IsNegative :: "Number \<Rightarrow> bool go" where
  "IsNegative x = map_sum id (\<lambda>c. c < 0) (CmpI x 0)"

definition IsEqualI :: "Number \<Rightarrow> int \<Rightarrow> bool go" where
  "IsEqualI x y = map_sum id (\<lambda>c. c = 0) (CmpI x y)"

definition IsEqual :: "Number \<Rightarrow> Number \<Rightarrow> bool go" where
  "IsEqual x y = map_sum id (\<lambda>c. c = 0) (Cmp x y)"

definition IsGreaterThanI :: "Number \<Rightarrow> int \<Rightarrow> bool go" where
  "IsGreaterThanI x y = map_sum id (\<lambda>c. c > 0) (CmpI x y)"

definition IsGreaterThan :: "Number \<Rightarrow> Number \<Rightarrow> bool go" where
  "IsGreaterThan x y = map_sum id (\<lambda>c. c > 0) (Cmp x y)"

definition IsLessThanI :: "Number \<Rightarrow> int \<Rightarrow> bool go" where
  "IsLessThanI x y = map_sum id (\<lambda>c. c < 0) (CmpI x y)"

definition IsLessThan :: "Number \<Rightarrow> Number \<Rightarrow> bool go" where
  "IsLessThan x y = map_sum id (\<lambda>c. c < 0) (Cmp x y)"

definition IsGEI :: "Number \<Rightarrow> int \<Rightarrow> bool go" where
  "IsGEI x y = map_sum id (\<lambda>c. c \<ge> 0) (CmpI x y)"

definition IsGE :: "Number \<Rightarrow> Number \<Rightarrow> bool go" where
  "IsGE x y = map_sum id (\<lambda>c. c \<ge> 0) (Cmp x y)"

definition IsLEI :: "Number \<Rightarrow> int \<Rightarrow> bool go" where
  "IsLEI x y = map_sum id (\<lambda>c. c \<le> 0) (CmpI x y)"

definition IsLE :: "Number \<Rightarrow> Number \<Rightarrow> bool go" where
  "IsLE x y = map_sum id (\<lambda>c. c \<le> 0) (Cmp x y)"

section \<open>Arithmetic\<close>

definition Add :: "Number \<Rightarrow> Number \<Rightarrow> Number go" where
  "Add = binop (+)"

definition AddI :: "Number \<Rightarrow> int \<Rightarrow> Number go" where
  "AddI x y = Add x (N y)"

definition Sub :: "Number \<Rightarrow> Number \<Rightarrow> Number go" where
  "Sub = binop (-)"

definition SubI :: "Number \<Rightarrow> int \<Rightarrow> Number go" where
  "SubI x y = Sub x (N y)"

definition Mul :: "Number \<Rightarrow> Number \<Rightarrow> Number go" where
  "Mul = binop (*)"

definition MulI :: "Number \<Rightarrow> int \<Rightarrow> Number go" where
  "MulI x y = Mul x (N y)"

definition Div :: "Number \<Rightarrow> Number \<Rightarrow> Number go" where
  "Div x y = (if V x \<noteq> None \<and> V y = Some 0 then Inl DivByZero else binop euclid_div x y)"

definition DivI :: "Number \<Rightarrow> int \<Rightarrow> Number go" where
  "DivI x y = Div x (N y)"

definition Mod :: "Number \<Rightarrow> Number \<Rightarrow> Number go" where
  "Mod x y = (if V x \<noteq> None \<and> V y = Some 0 then Inl DivByZero else binop euclid_mod x y)"

definition ModI :: "Number \<Rightarrow> int \<Rightarrow> Number go" where
  "ModI x y = Mod x (N y)"

definition Sq :: "Number \<Rightarrow> Number go" where
  "Sq x = Mul x x"

definition Exp :: "Number \<Rightarrow> Number \<Rightarrow> Number go" where
  "Exp = binop big_exp"

definition Lsh :: "Number \<Rightarrow> nat \<Rightarrow> Number go" where
  "Lsh x n = unop (push_bit n) x"

definition Rsh :: "Number \<Rightarrow> nat \<Rightarrow> Number go" where
  "Rsh x n = unop (drop_bit n) x"

definition And :: "Number \<Rightarrow> Number \<Rightarrow> Number go" where
  "And = binop (AND)"

definition Or :: "Number \<Rightarrow> Number \<Rightarrow> Number go" where
  "Or = binop (OR)"

definition Xor :: "Number \<Rightarrow> Number \<Rightarrow> Number go" where
  "Xor = binop (XOR)"

definition NotN :: "Number \<Rightarrow> Number go" where
  "NotN = unop NOT"

definition NewNumberLong :: "int \<Rightarrow> int \<Rightarrow> Number go" where
  "NewNumberLong b d = Mul (Num b) (Num d)"

definition NewNumberLongLong :: "int \<Rightarrow> int \<Rightarrow> int \<Rightarrow> Number go" where
  "NewNumberLongLong b d1 d2 =
     (case Mul (Num b) (Num d1) of Inl e \<Rightarrow> Inl e | Inr p \<Rightarrow> Mul p (Num d2))"

definition N1 :: "int \<Rightarrow> int \<Rightarrow> Number go" where
  "N1 b d = NewNumberLong b d"

definition N2 :: "int \<Rightarrow> int \<Rightarrow> int \<Rightarrow> Number go" where
  "N2 b d1 d2 = NewNumberLongLong b d1 d2"

text \<open>The loop of \<open>Sqrt\<close> on the values \<open>z\<close> and \<open>y\<close>; \<open>None\<close> would
  be a loop that does not end.\<close>

partial_function (option) Sqrt_loop :: "Number \<Rightarrow> Number \<Rightarrow> Number \<Rightarrow> Number go option" where
  "Sqrt_loop x z y =
     (case Cmp z y of
        Inl e \<Rightarrow> Some (Inl e)
      | Inr c \<Rightarrow>
          (if c < 0 then
             (case Div x z of
                Inl e \<Rightarrow> Some (Inl e)
              | Inr q \<Rightarrow>
                  (case Add q z of
                     Inl e \<Rightarrow> Some (Inl e)
                   | Inr t \<Rightarrow>
                       (case DivI t 2 of
                          Inl e \<Rightarrow> Some (Inl e)
                        | Inr z' \<Rightarrow> Sqrt_loop x z' z)))
           else Some (Inr y)))"

definition Sqrt :: "Number \<Rightarrow> Number go option" where
  "Sqrt x =
     (case IsNegative x of
        Inl e \<Rightarrow> Some (Inl e)
      | Inr True \<Rightarrow> Some (Inl (Panic ''square root of negative number''))
      | Inr False \<Rightarrow>
          (case AddI x 1 of
             Inl e \<Rightarrow> Some (Inl e)
           | Inr t \<Rightarrow>
               (case DivI t 2 of
                  Inl e \<Rightarrow> Some (Inl e)
                | Inr z \<Rightarrow> Sqrt_loop x z x)))"

section \<open>Byte and JSON encodings\<close>

definition Bytes :: "Number \<Rightarrow> bytes" where
  "Bytes x =
     (case V x of
        None \<Rightarrow> []
      | Some n \<Rightarrow> (if n < 0 then 0xFF else 0) # be_bytes (nat \<bar>n\<bar>))"

definition SetBytes :: "Number \<Rightarrow> bytes \<Rightarrow> Number" where
  "SetBytes x buf =
     (let v = (case V x of None \<Rightarrow> 0 | Some n \<Rightarrow> n)
      in case buf of
           [] \<Rightarrow> Num v
         | b # bs \<Rightarrow>
             (if b = 0xFF then Num (- int (be_val bs)) else Num (int (be_val buf))))"

definition NBytes :: "bytes \<Rightarrow> Number" where
  "NBytes bs = Num (int (be_val bs))"

definition NBS :: "bytes \<Rightarrow> Number" where
  "NBS bs = NBytes bs"

definition NSBytes :: "bytes \<Rightarrow> Number" where
  "NSBytes x = SetBytes (N 0) x"

definition NSBS :: "bytes \<Rightarrow> Number" where
  "NSBS bs = NSBytes bs"

text \<open>The receivers of the JSON methods are pointers: \<open>None\<close> is the nil receiver.\<close>

definition MarshalJSON :: "Number option \<Rightarrow> string" where
  "MarshalJSON x =
     (case x of
        None \<Rightarrow> ''null''
      | Some n \<Rightarrow> (case V n of None \<Rightarrow> ''null'' | Some i \<Rightarrow> show_int i))"

text \<open>\<open>UnmarshalJSON\<close> drops the success flag of \<open>SetString\<close>. After a failed
  conversion the value is undefined; it is the parameter \<open>junk\<close>. The result is the
  error, if any, with the new receiver.\<close>

definition UnmarshalJSON :: "(string \<Rightarrow> int) \<Rightarrow> Number \<Rightarrow> string \<Rightarrow> (string + Number) go" where
  "UnmarshalJSON junk x data =
     (let str = TrimSpace data;
          set = (\<lambda>str. Num (case SetString10 str of Some i \<Rightarrow> i | None \<Rightarrow> junk str))
      in if HasPrefix str ''{'' then
           (if length str < 2 then Inl OutOfRange
            else let bare = take (length str - 2) (tl str);
                     spl = split_on (CHR '':'') bare
                 in if length spl \<noteq> 2 \<or> TrimSpace (spl ! 0) \<noteq> [CHR 0x22, CHR ''v'', CHR 0x22]
                    then Inr (Inl ''wrong bn.number json format'')
                    else Inr (Inr (set (TrimSpace (spl ! 1)))))
         else Inr (Inr (set str)))"

section \<open>Laws\<close>

named_theorems bn_simps \<open>unfolding the operations on non-nil numbers\<close>

lemma binop_Num [bn_simps]: "binop f (Num a) (Num b) = Inr (Num (f a b))"
  by (simp add: binop_def)

lemma unop_Num [bn_simps]: "unop f (Num a) = Inr (Num (f a))"
  by (simp add: unop_def)

lemma N_eq [bn_simps]: "N a = Num a"
  by (simp add: N_def NewNumber_def)

lemma Cmp_Num [bn_simps]: "Cmp (Num a) (Num b) = Inr (cmp_int a b)"
  by (simp add: Cmp_def)

lemma cmp_int_less [simp]: "cmp_int a b < 0 \<longleftrightarrow> a < b"
  by (simp add: cmp_int_def)

lemma cmp_int_eq [simp]: "cmp_int a b = 0 \<longleftrightarrow> a = b"
  by (simp add: cmp_int_def)

lemma cmp_int_greater [simp]: "0 < cmp_int a b \<longleftrightarrow> b < a"
  by (auto simp: cmp_int_def)

lemma Div_Num [bn_simps]: "b \<noteq> 0 \<Longrightarrow> Div (Num a) (Num b) = Inr (Num (euclid_div a b))"
  by (simp add: Div_def binop_Num)

lemma Mod_Num [bn_simps]: "b \<noteq> 0 \<Longrightarrow> Mod (Num a) (Num b) = Inr (Num (euclid_mod a b))"
  by (simp add: Mod_def binop_Num)

lemmas [bn_simps] = Add_def AddI_def Sub_def SubI_def Mul_def MulI_def DivI_def ModI_def CmpI_def

lemma euclid_div_pos [simp]: "0 < y \<Longrightarrow> euclid_div x y = x div y"
  by (simp add: euclid_div_def)

lemma euclid_div_mod: "y \<noteq> 0 \<Longrightarrow> y * euclid_div x y + euclid_mod x y = x"
proof -
  have "y * euclid_div x y = \<bar>y\<bar> * (x div \<bar>y\<bar>)"
    by (simp add: euclid_div_def abs_sgn mult.assoc)
  then show ?thesis
    using mult_div_mod_eq [of "\<bar>y\<bar>" x] by (simp only: euclid_mod_def)
qed

lemma euclid_mod_bounds: "y \<noteq> 0 \<Longrightarrow> 0 \<le> euclid_mod x y \<and> euclid_mod x y < \<bar>y\<bar>"
  by (simp add: euclid_mod_def)

subsection \<open>Newton's iteration\<close>

lemma newton_lower:
  fixes x y :: int
  assumes "0 \<le> x" and "0 < y"
  shows "x < ((x div y + y) div 2 + 1)\<^sup>2"
proof -
  define q where "q = x div y + 1"
  define z where "z = (x div y + y) div 2 + 1"
  have "x < y * q"
    using assms by (simp add: q_def algebra_simps)
       (metis add.commute mult_div_mod_eq pos_mod_bound add_less_cancel_left)
  moreover have "q + y \<le> 2 * z" by (simp add: q_def z_def)
  moreover have "0 \<le> q" using assms by (simp add: q_def pos_imp_zdiv_nonneg_iff)
  ultimately have "4 * x < 4 * (y * q)" and le: "(q + y)\<^sup>2 \<le> (2 * z)\<^sup>2"
    using assms by (simp, intro power_mono) simp_all
  moreover have "4 * (y * q) \<le> (q + y)\<^sup>2"
    using zero_le_power2 [of "q - y"] by (simp add: power2_eq_square algebra_simps)
  ultimately have "4 * x < 4 * z\<^sup>2" by (simp add: power_mult_distrib)
  then show ?thesis by (simp add: z_def)
qed

lemma Sqrt_loop_step:
  assumes "z \<noteq> 0"
  shows "Sqrt_loop (Num x) (Num z) (Num y) =
    (if z < y then Sqrt_loop (Num x) (Num ((euclid_div x z + z) div 2)) (Num z) else Some (Inr (Num y)))"
  by (subst Sqrt_loop.simps) (simp add: bn_simps assms)

lemma Sqrt_loop_correct:
  fixes x y :: int
  assumes "0 < x" and "0 < y" and "x < (y + 1)\<^sup>2"
  shows "\<exists>r. Sqrt_loop (Num x) (Num ((x div y + y) div 2)) (Num y) = Some (Inr (Num r)) \<and>
    0 \<le> r \<and> r\<^sup>2 \<le> x \<and> x < (r + 1)\<^sup>2"
  using assms(2,3)
proof (induction "nat y" arbitrary: y rule: less_induct)
  case less
  define z where "z = (x div y + y) div 2"
  have "0 \<le> x div y" using assms(1) less.prems(1) by (simp add: pos_imp_zdiv_nonneg_iff)
  then have "0 < z"
    using assms(1) less.prems(1) by (cases "y = 1") (simp_all add: z_def)
  show ?case
  proof (cases "z < y")
    case True
    have "x < (z + 1)\<^sup>2" unfolding z_def using assms(1) less.prems(1) by (intro newton_lower) simp_all
    moreover have "nat z < nat y" using True \<open>0 < z\<close> by simp
    ultimately have "\<exists>r. Sqrt_loop (Num x) (Num ((x div z + z) div 2)) (Num z) = Some (Inr (Num r)) \<and>
        0 \<le> r \<and> r\<^sup>2 \<le> x \<and> x < (r + 1)\<^sup>2"
      using less.hyps \<open>0 < z\<close> by blast
    with True \<open>0 < z\<close> show ?thesis by (simp add: Sqrt_loop_step flip: z_def)
  next
    case False
    then have "y \<le> x div y" by (simp add: z_def)
    then have "y * y \<le> x div y * y" using less.prems(1) by (intro mult_right_mono) simp_all
    also have "\<dots> \<le> x"
      using less.prems(1) pos_mod_sign [of y x] by (simp flip: minus_mod_eq_div_mult)
    finally have "y * y \<le> x" .
    with False \<open>0 < z\<close> less.prems show ?thesis
      by (simp add: Sqrt_loop_step power2_eq_square flip: z_def)
  qed
qed

lemma Bytes_Num: "Bytes (Num n) = (if n < 0 then 0xFF else 0) # be_bytes (nat \<bar>n\<bar>)"
  by (simp add: Bytes_def)

lemma SetBytes_Bytes: "SetBytes y (Bytes (Num n)) = Num n"
  by (simp add: SetBytes_def Bytes_Num)

lemma SetBytes_zero_prefix: "SetBytes y (0 # bs) = Num (int (be_val bs))"
  by (simp add: SetBytes_def)

section \<open>Properties\<close>

lemma Sqrt_root:
  assumes "0 \<le> x"
  shows "\<exists>r. Sqrt (Num x) = Some (Inr (Num r)) \<and> 0 \<le> r \<and> r\<^sup>2 \<le> x \<and> x < (r + 1)\<^sup>2"
proof (cases "x = 0")
  case True
  then show ?thesis
    by (simp add: Sqrt_def IsNegative_def bn_simps) (simp add: Sqrt_loop.simps bn_simps)
next
  case False
  with assms have pos: "0 < x" by simp
  then have "x * 1 < (x + 1) * (x + 1)" by (intro mult_strict_mono) simp_all
  then have "x < (x + 1)\<^sup>2" by (simp add: power2_eq_square)
  from Sqrt_loop_correct [OF pos pos this] pos show ?thesis
    by (simp add: Sqrt_def IsNegative_def bn_simps add.commute)
qed

text \<open>C14. \<open>Sqrt\<close> terminates on every number: a negative one is the panic of the guard, and for all
  others the loop returns the integer square root, with no division by zero on the way.\<close>

theorem Sqrt_correct:
  "if x < 0 then Sqrt (Num x) = Some (Inl (Panic ''square root of negative number''))
   else \<exists>r. Sqrt (Num x) = Some (Inr (Num r)) \<and> 0 \<le> r \<and> r\<^sup>2 \<le> x \<and> x < (r + 1)\<^sup>2"
  using Sqrt_root [of x] by (simp add: Sqrt_def IsNegative_def bn_simps)

text \<open>C28. The signed byte encoding of a number decodes to the number, whatever value the
  receiver held before; the same holds for the JSON encoding.\<close>

theorem Number_roundtrip:
  "SetBytes y (Bytes (Num n)) = Num n \<and> UnmarshalJSON junk y (MarshalJSON (Some (Num n))) = Inr (Inr (Num n))"
proof -
  have "\<not> is_space c" if "c \<in> set (show_int n)" for c
    using that show_int_no_char [of _ n] by (auto simp: is_space_def)
  then have trim: "TrimSpace (show_int n) = show_int n" by (simp add: TrimSpace_id)
  obtain c cs where c: "show_int n = c # cs" by (cases "show_int n") auto
  then have "c \<noteq> CHR ''{''" using show_int_no_char [of "CHR ''{''" n] by auto
  then have "\<not> HasPrefix (show_int n) ''{''" by (simp add: HasPrefix_def c)
  with trim show ?thesis
    by (simp add: SetBytes_Bytes MarshalJSON_def UnmarshalJSON_def)
qed

text \<open>Division and remainder are Euclidean: for a non-zero divisor both return, the
  remainder lies between zero and the divisor's magnitude, and quotient and remainder
  recombine to the dividend; a zero divisor is the division panic.\<close>

lemma Div_Mod_euclidean:
  "if b = 0 then Div (Num a) (Num b) = Inl DivByZero \<and> Mod (Num a) (Num b) = Inl DivByZero
   else \<exists>q r. Div (Num a) (Num b) = Inr (Num q) \<and> Mod (Num a) (Num b) = Inr (Num r) \<and>
          a = b * q + r \<and> 0 \<le> r \<and> r < \<bar>b\<bar>"
  using euclid_div_mod [of b a] euclid_mod_bounds [of b a]
  by (auto simp: Div_Num Mod_Num) (simp_all add: Div_def Mod_def)

end
