(* ===== verification/RlpTypes.thy ===== *)
theory RlpTypes
  imports RlpHead Bn
begin

text \<open>
  The reflected types and values the RLP codec dispatches on, and
  \<^verbatim>\<open>src/rlp/typecache.go\<close>: struct tags, the fields of a struct that take part in
  the encoding, and the construction of type information, which fails for types that cannot
  be serialised. Types are finite trees, so the type cache, which breaks recursion through
  pointers and is otherwise a memo table, is not part of the model; maps and types with their
  own \<open>EncodeRLP\<close> or \<open>DecodeRLP\<close> methods are left out.
\<close>

section \<open>Types and values\<close>

text \<open>\<open>TUint w\<close> and \<open>TInt w\<close> are the integer kinds of width \<open>w\<close>;
  \<open>TBigInt\<close> is \<^verbatim>\<open>big.Int\<close>, \<open>TNumber\<close> is \<^verbatim>\<open>bn.Number\<close>,
  \<open>TRawValue\<close> is \<^verbatim>\<open>rlp.RawValue\<close>, \<open>TInterface\<close> is
  \<^verbatim>\<open>interface{}\<close> and \<open>TOther\<close> any type of another kind (floats, channels,
  functions). A struct field is a name, its \<open>rlp\<close> tag, whether it is exported, and its
  type.\<close>

datatype gotype = TUint nat | TInt nat | TBool | TString | TBigInt | TNumber | TRawValue
  | TSlice gotype | TArray nat gotype | TStruct "(string \<times> string \<times> bool \<times> gotype) list"
  | TPtr gotype | TInterface | TOther

type_synonym gofield = "string \<times> string \<times> bool \<times> gotype"

text \<open>Byte slices and byte arrays are \<open>VBytes\<close>, other slices and arrays \<open>VSeq\<close>.
  Signed integers are kept as the 64-bit word that \<^verbatim>\<open>reflect.Value.Int\<close> returns.\<close>

datatype goval = VUint u64 | VInt u64 | VBool bool | VString bytes | VBytes bytes | VBig int
  | VNum "int option" | VRaw bytes | VSeq "goval list" | VStruct "goval list"
  | VPtr "goval option" | VIface "(gotype \<times> goval) option"

fun isUint :: "gotype \<Rightarrow> bool" where
  "isUint (TUint _) = True"
| "isUint _ = False"

fun isInt :: "gotype \<Rightarrow> bool" where
  "isInt (TInt _) = True"
| "isInt _ = False"

definition isByte :: "gotype \<Rightarrow> bool" where
  "isByte t \<longleftrightarrow> t = TUint 8"

fun is_slice :: "gotype \<Rightarrow> bool" where
  "is_slice (TSlice _) = True"
| "is_slice TRawValue = True"
| "is_slice _ = False"

section \<open>Struct tags\<close>

record tags =
  nilOK :: bool
  tail :: bool
  ignored :: bool

definition no_tags :: tags where
  "no_tags = \<lparr>nilOK = False, tail = False, ignored = False\<rparr>"

datatype type_error = TailNotLast string | TailNotSlice string | UnknownTag string string
  | NotSerializable gotype

text \<open>One step of the loop over the comma-separated words of a tag; \<open>fi\<close> is the index
  of the field, \<open>n\<close> the number of fields.\<close>

definition parse_word :: "gofield \<Rightarrow> nat \<Rightarrow> nat \<Rightarrow> string \<Rightarrow> tags \<Rightarrow> type_error + tags" where
  "parse_word f fi n t ts =
     (case f of (name, tag, exported, typ) \<Rightarrow>
      (let t = TrimSpace t
       in if t = '''' then Inr ts
          else if t = ''-'' then Inr (ts\<lparr>ignored := True\<rparr>)
          else if t = ''nil'' then Inr (ts\<lparr>nilOK := True\<rparr>)
          else if t = ''tail'' then
            (if fi + 1 \<noteq> n then Inl (TailNotLast name)
             else if \<not> is_slice typ then Inl (TailNotSlice name)
             else Inr (ts\<lparr>tail := True\<rparr>))
          else Inl (UnknownTag t name)))"

fun parse_words :: "gofield \<Rightarrow> nat \<Rightarrow> nat \<Rightarrow> string list \<Rightarrow> tags \<Rightarrow> type_error + tags" where
  "parse_words f fi n [] ts = Inr ts"
| "parse_words f fi n (w # ws) ts =
     (case parse_word f fi n w ts of Inl e \<Rightarrow> Inl e | Inr ts' \<Rightarrow> parse_words f fi n ws ts')"

definition parseStructTag :: "gofield \<Rightarrow> nat \<Rightarrow> nat \<Rightarrow> type_error + tags" where
  "parseStructTag f fi n =
     (case f of (name, tag, exported, typ) \<Rightarrow> parse_words f fi n (split_on (CHR '','') tag) no_tags)"

text \<open>The loop of \<open>structFields\<close> from field \<open>i\<close> of \<open>n\<close> on: unexported and
  ignored fields are skipped; each other field is its index, type and tags, and its type
  information, asked for through \<open>ti\<close>, must exist.\<close>

fun structFields_from :: "(gotype \<Rightarrow> tags \<Rightarrow> type_error option) \<Rightarrow> nat \<Rightarrow> nat \<Rightarrow> gofield list
    \<Rightarrow> type_error + (nat \<times> gotype \<times> tags) list" where
  "structFields_from ti n i [] = Inr []"
| "structFields_from ti n i ((name, tag, exported, ty) # fs) =
     (if exported then
        (case parseStructTag (name, tag, exported, ty) i n of
           Inl e \<Rightarrow> Inl e
         | Inr ts \<Rightarrow>
             (if ignored ts then structFields_from ti n (i + 1) fs
              else case ti ty ts of
                     Some e \<Rightarrow> Inl e
                   | None \<Rightarrow> map_sum id ((#) (i, ty, ts)) (structFields_from ti n (i + 1) fs)))
      else structFields_from ti n (i + 1) fs)"

definition structFields :: "(gotype \<Rightarrow> tags \<Rightarrow> type_error option) \<Rightarrow> gofield list
    \<Rightarrow> type_error + (nat \<times> gotype \<times> tags) list" where
  "structFields ti fs = structFields_from ti (length fs) 0 fs"

definition field_types :: "gofield list \<Rightarrow> gotype set" where
  "field_types fs = (snd \<circ> snd \<circ> snd) ` set fs"

lemma field_types_simps [simp]:
  "field_types [] = {}" "field_types ((name, tag, ex, t) # fs) = insert t (field_types fs)"
  by (simp_all add: field_types_def)

lemma structFields_from_cong:
  "(\<And>t ts. t \<in> field_types fs \<Longrightarrow> ti t ts = ti' t ts) \<Longrightarrow>
     structFields_from ti n i fs = structFields_from ti' n i fs"
  by (induction ti n i fs rule: structFields_from.induct)
    (auto split: sum.splits option.splits)

lemma map_sum_eq_Inr_iff: "map_sum f g x = Inr y \<longleftrightarrow> (\<exists>z. x = Inr z \<and> y = g z)"
  by (cases x) auto

lemma structFields_from_mem:
  "structFields_from ti n i fs = Inr xs \<Longrightarrow> (j, t, ts) \<in> set xs \<Longrightarrow> t \<in> field_types fs"
  by (induction ti n i fs arbitrary: xs rule: structFields_from.induct)
    (fastforce simp: map_sum_eq_Inr_iff split: if_splits sum.splits option.splits)+

lemma field_types_size: "t \<in> field_types fs \<Longrightarrow> size t < size (TStruct fs)"
proof (induction fs)
  case (Cons f fs)
  then show ?case by (cases f) (auto simp: less_Suc_eq_le)
qed simp

section \<open>Type information\<close>

text \<open>Whether a decoder and a writer exist for a type; \<open>ti\<close> stands for the recursive call
  through \<^verbatim>\<open>cachedTypeInfo1\<close>. The order of the tests is that of the two switches.\<close>

definition makeDecoder_err :: "(gotype \<Rightarrow> tags \<Rightarrow> type_error option) \<Rightarrow> gotype \<Rightarrow> type_error option"
  where
  "makeDecoder_err ti t =
     (if t = TRawValue \<or> t = TPtr TBigInt \<or> t = TBigInt \<or> t = TPtr TNumber \<or> t = TNumber then None
      else if isUint t \<or> isInt t \<or> t = TBool \<or> t = TString then None
      else case t of
             TSlice e \<Rightarrow> if isByte e then None else ti e no_tags
           | TArray n e \<Rightarrow> if isByte e then None else ti e no_tags
           | TStruct fs \<Rightarrow> (case structFields ti fs of Inl e \<Rightarrow> Some e | Inr _ \<Rightarrow> None)
           | TPtr e \<Rightarrow> ti e no_tags
           | TInterface \<Rightarrow> None
           | _ \<Rightarrow> Some (NotSerializable t))"

definition makeWriter_err :: "(gotype \<Rightarrow> tags \<Rightarrow> type_error option) \<Rightarrow> gotype \<Rightarrow> type_error option"
  where
  "makeWriter_err ti t =
     (if t = TRawValue \<or> t = TInterface \<or> t = TPtr TBigInt \<or> t = TBigInt \<or> t = TPtr TNumber
         \<or> t = TNumber then None
      else if isUint t \<or> isInt t \<or> t = TBool \<or> t = TString then None
      else case t of
             TSlice e \<Rightarrow> if isByte e then None else ti e no_tags
           | TArray n e \<Rightarrow> if isByte e then None else ti e no_tags
           | TStruct fs \<Rightarrow> (case structFields ti fs of Inl e \<Rightarrow> Some e | Inr _ \<Rightarrow> None)
           | TPtr e \<Rightarrow> ti e no_tags
           | _ \<Rightarrow> Some (NotSerializable t))"

lemma structFields_cong [fundef_cong]:
  "fs = fs' \<Longrightarrow> (\<And>t ts. t \<in> field_types fs' \<Longrightarrow> ti t ts = ti' t ts) \<Longrightarrow>
     structFields ti fs = structFields ti' fs'"
  by (auto simp: structFields_def intro: structFields_from_cong)

lemma structFields_size_cong:
  "(\<And>u ts. size u < size (TStruct fs) \<Longrightarrow> ti u ts = ti' u ts) \<Longrightarrow>
     structFields ti fs = structFields ti' fs"
  by (rule structFields_cong) (simp_all only: field_types_size)

lemma makeDecoder_err_cong [fundef_cong]:
  "t = t' \<Longrightarrow> (\<And>u ts. size u < size t' \<Longrightarrow> ti u ts = ti' u ts) \<Longrightarrow>
     makeDecoder_err ti t = makeDecoder_err ti' t'"
  using structFields_size_cong [of _ ti ti']
  by (cases t; hypsubst) (simp_all add: makeDecoder_err_def)

lemma makeWriter_err_cong [fundef_cong]:
  "t = t' \<Longrightarrow> (\<And>u ts. size u < size t' \<Longrightarrow> ti u ts = ti' u ts) \<Longrightarrow>
     makeWriter_err ti t = makeWriter_err ti' t'"
  using structFields_size_cong [of _ ti ti']
  by (cases t; hypsubst) (simp_all add: makeWriter_err_def)

function genTypeInfo :: "gotype \<Rightarrow> tags \<Rightarrow> type_error option" where
  "genTypeInfo t ts =
     (case makeDecoder_err genTypeInfo t of
        Some e \<Rightarrow> Some e
      | None \<Rightarrow> makeWriter_err genTypeInfo t)"
  by pat_completeness auto

termination genTypeInfo
  by (relation "measure (\<lambda>(t, ts). size t)") auto

declare genTypeInfo.simps [simp del]

section \<open>Zero values\<close>

fun zero_val :: "gotype \<Rightarrow> goval" where
  "zero_val (TUint _) = VUint 0"
| "zero_val (TInt _) = VInt 0"
| "zero_val TBool = VBool False"
| "zero_val TString = VString []"
| "zero_val TBigInt = VBig 0"
| "zero_val TNumber = VNum None"
| "zero_val TRawValue = VRaw []"
| "zero_val (TSlice t) = (if isByte t then VBytes [] else VSeq [])"
| "zero_val (TArray n t) = (if isByte t then VBytes (replicate n 0) else VSeq (replicate n (zero_val t)))"
| "zero_val (TStruct fs) = VStruct (map (\<lambda>(name, tag, exported, t). zero_val t) fs)"
| "zero_val (TPtr t) = VPtr None"
| "zero_val TInterface = VIface None"
| "zero_val TOther = VIface None"

end
