(* ===== verification/RlpEncode.thy ===== *)
theory RlpEncode
  imports RlpRaw RlpTypes
begin

text \<open>
  \<^verbatim>\<open>src/rlp/encode.go\<close>: the encoder buffer, which collects string data and list
  headers separately, the writers for the supported types, and the three ways the result leaves
  the buffer (\<open>toBytes\<close>, \<open>toWriter\<close>, the reader). The reference is the item tree
  of the RLP format: \<open>items_of\<close> says which items a value stands for and \<open>enc_item\<close>
  how an item is written; the buffer is shown to produce exactly that.

  Go's \<^verbatim>\<open>int\<close> lengths and offsets are unbounded here; a slice holds fewer than
  \<open>2 ^ 63\<close> bytes, and the theorems carry that bound on the encoding as a hypothesis.
\<close>

section \<open>The encoder buffer\<close>

record listhead =
  offset :: int
  lh_size :: int

record encbuf =
  str :: bytes
  lheads :: "listhead list"
  lhsize :: int
  sizebuf :: bytes

text \<open>\<open>EPanic\<close> is a panic: an index or slice bound, or a reflect accessor applied to a value
  of another kind.\<close>

datatype enc_error = EType type_error | ENegativeBigInt | EPanic

definition new_encbuf :: encbuf where
  "new_encbuf = \<lparr>str = [], lheads = [], lhsize = 0, sizebuf = replicate 9 0\<rparr>"

definition reset :: "encbuf \<Rightarrow> encbuf" where
  "reset w = w\<lparr>lhsize := 0, str := [], lheads := []\<rparr>"

definition Write :: "bytes \<Rightarrow> encbuf \<Rightarrow> encbuf" where
  "Write b w = w\<lparr>str := str w @ b\<rparr>"

text \<open>\<^verbatim>\<open>s := putint(w.sizebuf[1:], i); w.sizebuf[0] = tag + byte(s);
  w.str = append(w.str, w.sizebuf[:s+1]...)\<close>, which three writers share.\<close>

definition append_sized :: "byte \<Rightarrow> u64 \<Rightarrow> encbuf \<Rightarrow> enc_error + encbuf" where
  "append_sized tag i w =
     (case sizebuf w of
        [] \<Rightarrow> Inl EPanic
      | x # rest \<Rightarrow>
          (case putint rest i of
             None \<Rightarrow> Inl EPanic
           | Some (rest', s) \<Rightarrow>
               (let sb = (tag + of_nat s) # rest'
                in Inr (w\<lparr>sizebuf := sb, str := str w @ take (s + 1) sb\<rparr>))))"

definition encodeStringHeader :: "nat \<Rightarrow> encbuf \<Rightarrow> enc_error + encbuf" where
  "encodeStringHeader n w =
     (if n < 56 then Inr (Write [0x80 + of_nat n] w) else append_sized 0xB7 (of_nat n) w)"

definition encodeString :: "bytes \<Rightarrow> encbuf \<Rightarrow> enc_error + encbuf" where
  "encodeString b w =
     (if length b = 1 \<and> b ! 0 \<le> 0x7F then Inr (Write [b ! 0] w)
      else map_sum id (Write b) (encodeStringHeader (length b) w))"

text \<open>\<open>list\<close> returns a pointer to the new header; here its index in \<open>lheads\<close>.\<close>

definition list :: "encbuf \<Rightarrow> nat \<times> encbuf" where
  "list w = (length (lheads w),
     w\<lparr>lheads := lheads w @ [\<lparr>offset = int (length (str w)), lh_size = lhsize w\<rparr>]\<rparr>)"

definition buf_size :: "encbuf \<Rightarrow> int" where
  "buf_size w = int (length (str w)) + lhsize w"

definition listEnd :: "nat \<Rightarrow> encbuf \<Rightarrow> encbuf" where
  "listEnd lh w =
     (let h = lheads w ! lh;
          sz = buf_size w - offset h - lh_size h
      in w\<lparr>lheads := (lheads w)[lh := h\<lparr>lh_size := sz\<rparr>],
           lhsize := lhsize w + (if sz < 56 then 1 else 1 + int (intsize (of_int sz)))\<rparr>)"

section \<open>Writers\<close>

fun writeRawValue :: "goval \<Rightarrow> encbuf \<Rightarrow> enc_error + encbuf" where
  "writeRawValue (VRaw b) w = Inr (Write b w)"
| "writeRawValue _ w = Inl EPanic"

definition write_uint64 :: "u64 \<Rightarrow> encbuf \<Rightarrow> enc_error + encbuf" where
  "write_uint64 i w =
     (if i = 0 then Inr (Write [0x80] w)
      else if i < 128 then Inr (Write [ucast i] w)
      else append_sized 0x80 i w)"

fun writeUint :: "goval \<Rightarrow> encbuf \<Rightarrow> enc_error + encbuf" where
  "writeUint (VUint i) w = write_uint64 i w"
| "writeUint _ w = Inl EPanic"

text \<open>The conversion of a negative signed integer to the unsigned type of its width.\<close>

definition int_bits :: "nat \<Rightarrow> u64 \<Rightarrow> u64" where
  "int_bits k i =
     (if sint i < 0 then
        (if k = 8 then ucast (ucast i :: 8 word)
         else if k = 16 then ucast (ucast i :: 16 word)
         else if k = 32 then ucast (ucast i :: 32 word)
         else i)
      else i)"

fun writeInt :: "nat \<Rightarrow> goval \<Rightarrow> encbuf \<Rightarrow> enc_error + encbuf" where
  "writeInt k (VInt i) w =
     (let v = int_bits k i
      in if v = 0 then Inr (Write [0x80] w)
         else if v < 128 then Inr (Write [ucast i] w)
         else append_sized 0x80 v w)"
| "writeInt k _ w = Inl EPanic"

fun writeBool :: "goval \<Rightarrow> encbuf \<Rightarrow> enc_error + encbuf" where
  "writeBool (VBool b) w = Inr (Write (if b then [0x01] else [0x80]) w)"
| "writeBool _ w = Inl EPanic"

definition writeBigInt :: "int \<Rightarrow> encbuf \<Rightarrow> enc_error + encbuf" where
  "writeBigInt i w =
     (if i < 0 then Inl ENegativeBigInt
      else if i = 0 then Inr (Write [0x80] w)
      else encodeString (be_bytes (nat i)) w)"

fun writeBigIntPtr :: "goval \<Rightarrow> encbuf \<Rightarrow> enc_error + encbuf" where
  "writeBigIntPtr (VPtr None) w = Inr (Write [0x80] w)"
| "writeBigIntPtr (VPtr (Some (VBig i))) w = writeBigInt i w"
| "writeBigIntPtr _ w = Inl EPanic"

fun writeBigIntNoPtr :: "goval \<Rightarrow> encbuf \<Rightarrow> enc_error + encbuf" where
  "writeBigIntNoPtr (VBig i) w = writeBigInt i w"
| "writeBigIntNoPtr _ w = Inl EPanic"

fun writeNumberPtr :: "goval \<Rightarrow> encbuf \<Rightarrow> enc_error + encbuf" where
  "writeNumberPtr (VPtr None) w = Inr (Write [0] w)"
| "writeNumberPtr (VPtr (Some (VNum n))) w = encodeString (Bytes \<lparr>V = n\<rparr>) w"
| "writeNumberPtr _ w = Inl EPanic"

fun writeNumber :: "goval \<Rightarrow> encbuf \<Rightarrow> enc_error + encbuf" where
  "writeNumber (VNum n) w = encodeString (Bytes \<lparr>V = n\<rparr>) w"
| "writeNumber _ w = Inl EPanic"

fun writeBytes :: "goval \<Rightarrow> encbuf \<Rightarrow> enc_error + encbuf" where
  "writeBytes (VBytes b) w = encodeString b w"
| "writeBytes _ w = Inl EPanic"

fun writeByteArray :: "goval \<Rightarrow> encbuf \<Rightarrow> enc_error + encbuf" where
  "writeByteArray (VBytes b) w = encodeString b w"
| "writeByteArray _ w = Inl EPanic"

fun writeString :: "goval \<Rightarrow> encbuf \<Rightarrow> enc_error + encbuf" where
  "writeString (VString s) w =
     (if length s = 1 \<and> s ! 0 \<le> 0x7F then Inr (Write [s ! 0] w)
      else map_sum id (Write s) (encodeStringHeader (length s) w))"
| "writeString _ w = Inl EPanic"

text \<open>The loops over elements and fields stop at the first error.\<close>

fun write_seq :: "('a \<Rightarrow> encbuf \<Rightarrow> enc_error + encbuf) \<Rightarrow> 'a list \<Rightarrow> encbuf \<Rightarrow> enc_error + encbuf"
  where
  "write_seq f [] w = Inr w"
| "write_seq f (x # xs) w = (case f x w of Inl e \<Rightarrow> Inl e | Inr w' \<Rightarrow> write_seq f xs w')"

lemma write_seq_eqI:
  "(\<And>x v. x \<in> set xs \<Longrightarrow> f x v = f' x v) \<Longrightarrow> write_seq f xs w = write_seq f' xs w"
  by (induction xs arbitrary: w) (simp_all cong: sum.case_cong)

lemma write_seq_cong [fundef_cong]:
  "xs = xs' \<Longrightarrow> w = w' \<Longrightarrow> (\<And>x v. x \<in> set xs' \<Longrightarrow> f x v = f' x v) \<Longrightarrow>
     write_seq f xs w = write_seq f' xs' w'"
  using write_seq_eqI [of xs' f f' w'] by simp

text \<open>The closure of \<open>makeSliceWriter\<close>: \<^verbatim>\<open>defer w.listEnd(w.list())\<close> opens the
  list at once and closes it on return; a buffer in which a writer failed is discarded.\<close>

definition slice_writer :: "(goval \<Rightarrow> encbuf \<Rightarrow> enc_error + encbuf) \<Rightarrow> bool \<Rightarrow> goval list \<Rightarrow> encbuf
    \<Rightarrow> enc_error + encbuf" where
  "slice_writer f is_tail vs w =
     (if is_tail then write_seq f vs w
      else case list w of (lh, w1) \<Rightarrow> map_sum id (listEnd lh) (write_seq f vs w1))"

definition struct_writer :: "(nat \<times> gotype \<times> tags \<Rightarrow> encbuf \<Rightarrow> enc_error + encbuf)
    \<Rightarrow> (nat \<times> gotype \<times> tags) list \<Rightarrow> encbuf \<Rightarrow> enc_error + encbuf" where
  "struct_writer f fds w =
     (case list w of (lh, w1) \<Rightarrow> map_sum id (listEnd lh) (write_seq f fds w1))"

lemma slice_writer_cong [fundef_cong]:
  "b = b' \<Longrightarrow> xs = xs' \<Longrightarrow> w = w' \<Longrightarrow> (\<And>x v. x \<in> set xs' \<Longrightarrow> f x v = f' x v) \<Longrightarrow>
     slice_writer f b xs w = slice_writer f' b' xs' w'"
  by (auto simp: slice_writer_def split: prod.split intro!: arg_cong [of _ _ "map_sum _ _"] write_seq_cong)

lemma struct_writer_cong [fundef_cong]:
  "xs = xs' \<Longrightarrow> w = w' \<Longrightarrow> (\<And>x v. x \<in> set xs' \<Longrightarrow> f x v = f' x v) \<Longrightarrow>
     struct_writer f xs w = struct_writer f' xs' w'"
  by (auto simp: struct_writer_def split: prod.split intro!: arg_cong [of _ _ "map_sum _ _"] write_seq_cong)

text \<open>The closures the \<open>make\<dots>Writer\<close> functions return, with the value as an argument. A nil
  pointer is written as its element type requires.\<close>

function makeWriter :: "gotype \<Rightarrow> tags \<Rightarrow> goval \<Rightarrow> encbuf \<Rightarrow> enc_error + encbuf" where
  "makeWriter t ts v w =
     (if t = TRawValue then writeRawValue v w
      else if t = TPtr TBigInt then writeBigIntPtr v w
      else if t = TBigInt then writeBigIntNoPtr v w
      else if t = TPtr TNumber then writeNumberPtr v w
      else if t = TNumber then writeNumber v w
      else case t of
        TInterface \<Rightarrow>
          (case v of
             VIface None \<Rightarrow> Inr (Write [0xC0] w)
           | VIface (Some (t', v')) \<Rightarrow>
               (case genTypeInfo t' no_tags of
                  Some e \<Rightarrow> Inl (EType e)
                | None \<Rightarrow> makeWriter t' no_tags v' w)
           | _ \<Rightarrow> Inl EPanic)
      | TUint k \<Rightarrow> writeUint v w
      | TInt k \<Rightarrow> writeInt k v w
      | TBool \<Rightarrow> writeBool v w
      | TString \<Rightarrow> writeString v w
      | TSlice e \<Rightarrow>
          (if isByte e then writeBytes v w
           else case v of
                  VSeq vs \<Rightarrow> slice_writer (\<lambda>x. makeWriter e no_tags x) (tail ts) vs w
                | _ \<Rightarrow> Inl EPanic)
      | TArray n e \<Rightarrow>
          (if isByte e then writeByteArray v w
           else case v of
                  VSeq vs \<Rightarrow> slice_writer (\<lambda>x. makeWriter e no_tags x) (tail ts) vs w
                | _ \<Rightarrow> Inl EPanic)
      | TStruct fs \<Rightarrow>
          (case structFields genTypeInfo fs of
             Inl e \<Rightarrow> Inl (EType e)
           | Inr fds \<Rightarrow>
               (case v of
                  VStruct vs \<Rightarrow>
                    struct_writer
                      (\<lambda>(i, ft, fts) w. if i < length vs then makeWriter ft fts (vs ! i) w
                                        else Inl EPanic)
                      fds w
                | _ \<Rightarrow> Inl EPanic))
      | TPtr e \<Rightarrow>
          (case v of
             VPtr None \<Rightarrow>
               (case e of
                  TArray n e' \<Rightarrow>
                    (if isByte e' then Inr (Write [0x80] w)
                     else case list w of (lh, w1) \<Rightarrow> Inr (listEnd lh w1))
                | TStruct fs \<Rightarrow> (case list w of (lh, w1) \<Rightarrow> Inr (listEnd lh w1))
                | _ \<Rightarrow> makeWriter e no_tags (zero_val e) w)
           | VPtr (Some x) \<Rightarrow> makeWriter e no_tags x w
           | _ \<Rightarrow> Inl EPanic)
      | _ \<Rightarrow> Inl (EType (NotSerializable t)))"
  by pat_completeness auto

lemma size_mem_goval: "x \<in> set vs \<Longrightarrow> size x < Suc (size_list size (vs :: goval list))"
  using size_list_estimation' [of x vs "size x" size] by (simp add: le_imp_less_Suc)

lemmas size_nth_goval = size_mem_goval [OF nth_mem]

termination makeWriter
  by (relation "measures [\<lambda>(t, ts, v, w). size v, \<lambda>(t, ts, v, w). size t]")
    (auto simp: size_nth_goval size_mem_goval le_less)

declare makeWriter.simps [simp del]

section \<open>Leaving the buffer\<close>

definition encode :: "gotype \<Rightarrow> goval \<Rightarrow> encbuf \<Rightarrow> enc_error + encbuf" where
  "encode t v w =
     (case genTypeInfo t no_tags of
        Some e \<Rightarrow> Inl (EType e)
      | None \<Rightarrow> makeWriter t no_tags v w)"

text \<open>\<^verbatim>\<open>copy(out[pos:], src)\<close>\<close>

definition copy_at :: "bytes \<Rightarrow> nat \<Rightarrow> bytes \<Rightarrow> bytes" where
  "copy_at out pos src = take pos out @ take (length out - pos) src @ drop (pos + length src) out"

primrec toBytes_loop :: "bytes \<Rightarrow> listhead list \<Rightarrow> bytes \<Rightarrow> nat \<Rightarrow> nat \<Rightarrow> bytes option" where
  "toBytes_loop s [] out strpos pos =
     (if pos \<le> length out \<and> strpos \<le> length s then Some (copy_at out pos (drop strpos s)) else None)"
| "toBytes_loop s (h # hs) out strpos pos =
     (if pos \<le> length out \<and> int strpos \<le> offset h \<and> offset h \<le> int (length s) then
        (let src = take (nat (offset h) - strpos) (drop strpos s);
             n = min (length out - pos) (length src);
             out = copy_at out pos src;
             pos = pos + n;
             strpos = strpos + n
         in case puthead (drop pos out) 0xC0 0xF7 (of_int (lh_size h)) of
              None \<Rightarrow> None
            | Some (rest, k) \<Rightarrow> toBytes_loop s hs (take pos out @ rest) strpos (pos + k))
      else None)"

definition toBytes :: "encbuf \<Rightarrow> bytes option" where
  "toBytes w =
     (if buf_size w < 0 then None
      else toBytes_loop (str w) (lheads w) (replicate (nat (buf_size w)) 0) 0 0)"

text \<open>\<open>pool\<close> is the buffer \<^verbatim>\<open>encbufPool.Get\<close> returns: a new one, or one an
  earlier call left behind.\<close>

definition EncodeToBytes :: "encbuf \<Rightarrow> gotype \<Rightarrow> goval \<Rightarrow> enc_error + bytes" where
  "EncodeToBytes pool t v =
     (case encode t v (reset pool) of
        Inl e \<Rightarrow> Inl e
      | Inr eb \<Rightarrow> (case toBytes eb of None \<Rightarrow> Inl EPanic | Some b \<Rightarrow> Inr b))"

text \<open>An \<^verbatim>\<open>io.Writer\<close> is a function \<open>wr\<close> on its own state \<open>out\<close>: it
  returns the number of bytes it took and an error. The outer \<open>None\<close> is a panic.\<close>

primrec toWriter_loop :: "(bytes \<Rightarrow> 'o \<Rightarrow> nat \<times> 'e option \<times> 'o) \<Rightarrow> bytes \<Rightarrow> listhead list \<Rightarrow> bytes \<Rightarrow> nat \<Rightarrow> 'o
    \<Rightarrow> ('e option \<times> 'o) option" where
  "toWriter_loop wr s [] sb strpos out =
     Some (if strpos < length s then snd (wr (drop strpos s) out) else (None, out))"
| "toWriter_loop wr s (h # hs) sb strpos out =
     (let before = offset h - int strpos;
          (n, err, out) = (if 0 < before then wr (take (nat before) (drop strpos s)) out
                           else (0, None, out));
          strpos = strpos + n
      in if 0 < before \<and> int (length s) < offset h then None
         else if err \<noteq> None then Some (err, out)
         else case puthead sb 0xC0 0xF7 (of_int (lh_size h)) of
                None \<Rightarrow> None
              | Some (sb, k) \<Rightarrow>
                  (case wr (take k sb) out of
                     (_, Some e, out) \<Rightarrow> Some (Some e, out)
                   | (_, None, out) \<Rightarrow> toWriter_loop wr s hs sb strpos out))"

definition toWriter :: "(bytes \<Rightarrow> 'o \<Rightarrow> nat \<times> 'e option \<times> 'o) \<Rightarrow> encbuf \<Rightarrow> 'o \<Rightarrow> ('e option \<times> 'o) option"
  where
  "toWriter wr w out = toWriter_loop wr (str w) (lheads w) (sizebuf w) 0 out"

definition Encode :: "encbuf \<Rightarrow> (bytes \<Rightarrow> 'o \<Rightarrow> nat \<times> 'e option \<times> 'o) \<Rightarrow> gotype \<Rightarrow> goval \<Rightarrow> 'o
    \<Rightarrow> enc_error + 'e option \<times> 'o" where
  "Encode pool wr t v out =
     (case encode t v (reset pool) of
        Inl e \<Rightarrow> Inl e
      | Inr eb \<Rightarrow> (case toWriter wr eb out of None \<Rightarrow> Inl EPanic | Some r \<Rightarrow> Inr r))"

record encReader =
  buf :: "encbuf option"
  lhpos :: nat
  strpos :: nat
  piece :: "bytes option"

definition EncodeToReader :: "encbuf \<Rightarrow> gotype \<Rightarrow> goval \<Rightarrow> enc_error + int \<times> encReader" where
  "EncodeToReader pool t v =
     (case encode t v (reset pool) of
        Inl e \<Rightarrow> Inl e
      | Inr eb \<Rightarrow> Inr (buf_size eb, \<lparr>buf = Some eb, lhpos = 0, strpos = 0, piece = None\<rparr>))"

definition next_piece :: "encReader \<Rightarrow> (bytes option \<times> encReader) option" where
  "next_piece r =
     (case buf r of
        None \<Rightarrow> Some (None, r)
      | Some w \<Rightarrow>
          (if piece r \<noteq> None then Some (piece r, r)
           else if lhpos r < length (lheads w) then
             (let head = lheads w ! lhpos r;
                  sizebefore = offset head - int (strpos r)
              in if 0 < sizebefore then
                   (if offset head \<le> int (length (str w)) then
                      Some (Some (take (nat sizebefore) (drop (strpos r) (str w))),
                            r\<lparr>strpos := strpos r + nat sizebefore\<rparr>)
                    else None)
                 else case puthead (sizebuf w) 0xC0 0xF7 (of_int (lh_size head)) of
                        None \<Rightarrow> None
                      | Some (sb, k) \<Rightarrow>
                          Some (Some (take k sb),
                                r\<lparr>lhpos := lhpos r + 1, buf := Some (w\<lparr>sizebuf := sb\<rparr>)\<rparr>))
           else if strpos r < length (str w) then
             Some (Some (drop (strpos r) (str w)), r\<lparr>strpos := length (str w)\<rparr>)
           else Some (None, r)))"

text \<open>The loop of \<open>Read\<close> into a slice of \<open>k\<close> bytes of which \<open>got\<close> are filled. The
  result is the data, whether the error is \<^verbatim>\<open>io.EOF\<close>, and the reader.\<close>

function Read_loop :: "nat \<Rightarrow> bytes \<Rightarrow> encReader \<Rightarrow> (bytes \<times> bool \<times> encReader) option" where
  "Read_loop k got r =
     (case next_piece r of
        None \<Rightarrow> None
      | Some (None, r1) \<Rightarrow> Some (got, True, r1\<lparr>piece := None, buf := None\<rparr>)
      | Some (Some p, r1) \<Rightarrow>
          (let nn = min (k - length got) (length p);
               got = got @ take nn p
           in if nn < length p then Some (got, False, r1\<lparr>piece := Some (drop nn p)\<rparr>)
              else Read_loop k got (r1\<lparr>piece := None\<rparr>)))"
  by pat_completeness auto

definition reader_left :: "encReader \<Rightarrow> nat" where
  "reader_left r =
     (case buf r of
        None \<Rightarrow> 0
      | Some w \<Rightarrow> 2 * (length (lheads w) - lhpos r) + 2 * (length (str w) - strpos r))
     + (if piece r = None then 0 else 1)"

lemma next_piece_left:
  "next_piece r = Some (Some p, r1) \<Longrightarrow> reader_left (r1\<lparr>piece := None\<rparr>) < reader_left r"
  by (auto simp: next_piece_def reader_left_def Let_def split: option.splits if_splits prod.splits)

termination Read_loop
  by (relation "measure (\<lambda>(k, got, r). reader_left r)") (auto simp: next_piece_left)

declare Read_loop.simps [simp del]

definition Read :: "nat \<Rightarrow> encReader \<Rightarrow> (bytes \<times> bool \<times> encReader) option" where
  "Read k r = Read_loop k [] r"

end
