(* ===== verification/RlpEncodeSpec.thy ===== *)
theory RlpEncodeSpec
  imports RlpEncode
begin

text \<open>
  The encoder against the RLP format. A value stands for a list of items (a tree of strings and
  lists, \<open>items_of\<close>) and an item has one encoding (\<open>enc_item\<close>). The relation
  \<open>emits\<close> says what a writer has added to the buffer; it is closed under sequencing and
  under opening and closing a list, so every writer is shown to emit the encoding of its items,
  and the three ways out of the buffer deliver it.
\<close>

section \<open>Items\<close>

datatype item = Str bytes | Lst "item list" | Raw bytes

fun enc_item :: "item \<Rightarrow> bytes" where
  "enc_item (Str b) = enc_str b"
| "enc_item (Lst xs) = enc_list (concat (map enc_item xs))"
| "enc_item (Raw b) = b"

definition enc_items :: "item list \<Rightarrow> bytes" where
  "enc_items xs = concat (map enc_item xs)"

lemma enc_items_simps [simp]:
  "enc_items [] = []" "enc_items (x # xs) = enc_item x @ enc_items xs"
  "enc_items (xs @ ys) = enc_items xs @ enc_items ys"
  by (simp_all add: enc_items_def)

lemma enc_item_Lst: "enc_item (Lst xs) = enc_list (enc_items xs)"
  by (simp add: enc_items_def)

declare enc_item.simps(2) [simp del]
declare enc_item_Lst [simp]

primrec seq_items :: "('a \<Rightarrow> enc_error + item list) \<Rightarrow> 'a list \<Rightarrow> enc_error + item list" where
  "seq_items f [] = Inr []"
| "seq_items f (x # xs) =
     (case f x of Inl e \<Rightarrow> Inl e | Inr its \<Rightarrow> map_sum id ((@) its) (seq_items f xs))"

lemma seq_items_eqI: "(\<And>x. x \<in> set xs \<Longrightarrow> f x = f' x) \<Longrightarrow> seq_items f xs = seq_items f' xs"
  by (induction xs) (simp_all cong: sum.case_cong)

lemma seq_items_cong [fundef_cong]:
  "xs = xs' \<Longrightarrow> (\<And>x. x \<in> set xs' \<Longrightarrow> f x = f' x) \<Longrightarrow> seq_items f xs = seq_items f' xs'"
  using seq_items_eqI [of xs' f f'] by simp

definition lst :: "enc_error + item list \<Rightarrow> enc_error + item list" where
  "lst r = map_sum id (\<lambda>its. [Lst its]) r"

definition big_items :: "int \<Rightarrow> enc_error + item list" where
  "big_items i = (if i < 0 then Inl ENegativeBigInt else Inr [Str (be_bytes (nat i))])"

text \<open>The items of a value: unsigned integers are minimal big-endian strings, signed ones are
  taken at their width, structs, slices and arrays are lists, a \<open>tail\<close> slice is spliced into
  the list around it, a nil pointer stands for the empty value of its element type.\<close>

function items_of :: "gotype \<Rightarrow> tags \<Rightarrow> goval \<Rightarrow> enc_error + item list" where
  "items_of t ts v =
     (case (t, v) of
        (TRawValue, VRaw b) \<Rightarrow> Inr [Raw b]
      | (TBigInt, VBig i) \<Rightarrow> big_items i
      | (TNumber, VNum n) \<Rightarrow> Inr [Str (Bytes \<lparr>V = n\<rparr>)]
      | (TInterface, VIface None) \<Rightarrow> Inr [Lst []]
      | (TInterface, VIface (Some (t', v'))) \<Rightarrow>
          (case genTypeInfo t' no_tags of Some e \<Rightarrow> Inl (EType e) | None \<Rightarrow> items_of t' no_tags v')
      | (TUint k, VUint i) \<Rightarrow> Inr [Str (be_bytes (unat i))]
      | (TInt k, VInt i) \<Rightarrow> Inr [Str (be_bytes (unat (int_bits k i)))]
      | (TBool, VBool b) \<Rightarrow> Inr [Str (if b then [1] else [])]
      | (TString, VString s) \<Rightarrow> Inr [Str s]
      | (TSlice e, VBytes b) \<Rightarrow> if isByte e then Inr [Str b] else Inl EPanic
      | (TSlice e, VSeq vs) \<Rightarrow>
          (if isByte e then Inl EPanic
           else if tail ts then seq_items (items_of e no_tags) vs
           else lst (seq_items (items_of e no_tags) vs))
      | (TArray n e, VBytes b) \<Rightarrow> if isByte e then Inr [Str b] else Inl EPanic
      | (TArray n e, VSeq vs) \<Rightarrow>
          (if isByte e then Inl EPanic
           else if tail ts then seq_items (items_of e no_tags) vs
           else lst (seq_items (items_of e no_tags) vs))
      | (TStruct fs, VStruct vs) \<Rightarrow>
          (case structFields genTypeInfo fs of
             Inl e \<Rightarrow> Inl (EType e)
           | Inr fds \<Rightarrow>
               lst (seq_items (\<lambda>(i, ft, fts). if i < length vs then items_of ft fts (vs ! i)
                                              else Inl EPanic) fds))
      | (TStruct fs, _) \<Rightarrow>
          (case structFields genTypeInfo fs of Inl e \<Rightarrow> Inl (EType e) | Inr _ \<Rightarrow> Inl EPanic)
      | (TPtr e, VPtr None) \<Rightarrow>
          (case e of
             TBigInt \<Rightarrow> Inr [Str []]
           | TNumber \<Rightarrow> Inr [Str [0]]
           | TArray n e' \<Rightarrow> Inr [if isByte e' then Str [] else Lst []]
           | TStruct fs \<Rightarrow> Inr [Lst []]
           | _ \<Rightarrow> items_of e no_tags (zero_val e))
      | (TPtr e, VPtr (Some x)) \<Rightarrow> items_of e no_tags x
      | (TOther, _) \<Rightarrow> Inl (EType (NotSerializable TOther))
      | _ \<Rightarrow> Inl EPanic)"
  by pat_completeness auto

termination items_of
  by (relation "measures [\<lambda>(t, ts, v). size v, \<lambda>(t, ts, v). size t]")
    (auto simp: size_nth_goval size_mem_goval le_less)

declare items_of.simps [simp del]

section \<open>What a writer adds to the buffer\<close>

definition head_bytes :: "listhead \<Rightarrow> bytes" where
  "head_bytes h = enc_head 0xC0 0xF7 (nat (lh_size h))"

text \<open>\<open>render b s hs\<close>: the string data \<open>s\<close>, which starts at offset \<open>b\<close>, with the
  headers \<open>hs\<close> put in at their offsets.\<close>

fun render :: "nat \<Rightarrow> bytes \<Rightarrow> listhead list \<Rightarrow> bytes" where
  "render b s [] = s"
| "render b s (h # hs) =
     take (nat (offset h) - b) s @ head_bytes h
       @ render (nat (offset h)) (drop (nat (offset h) - b) s) hs"

fun heads_ok :: "nat \<Rightarrow> nat \<Rightarrow> listhead list \<Rightarrow> bool" where
  "heads_ok b e [] \<longleftrightarrow> b \<le> e"
| "heads_ok b e (h # hs) \<longleftrightarrow>
     int b \<le> offset h \<and> 0 \<le> lh_size h \<and> lh_size h < 2 ^ 63 \<and> heads_ok (nat (offset h)) e hs"

lemma heads_ok_le: "heads_ok b e hs \<Longrightarrow> b \<le> e"
  by (induction b e hs rule: heads_ok.induct) auto

lemma heads_ok_mono: "heads_ok b e hs \<Longrightarrow> e \<le> e' \<Longrightarrow> heads_ok b e' hs"
  by (induction b e hs rule: heads_ok.induct) auto

lemma heads_ok_append: "heads_ok b m hs \<Longrightarrow> heads_ok m e hs' \<Longrightarrow> heads_ok b e (hs @ hs')"
proof (induction b m hs rule: heads_ok.induct)
  case (1 b m)
  then show ?case by (cases hs') auto
qed auto

lemma render_append:
  "heads_ok b (b + length s) hs \<Longrightarrow> heads_ok (b + length s) e hs' \<Longrightarrow>
     render b (s @ s') (hs @ hs') = render b s hs @ render (b + length s) s' hs'"
proof (induction b s hs rule: render.induct)
  case (1 b s)
  then show ?case
    by (cases hs') (auto simp: nat_le_iff take_append drop_append le_nat_iff)
next
  case (2 b s h hs)
  from 2(2) have h: "b \<le> nat (offset h)" "nat (offset h) \<le> b + length s"
    by (auto simp: le_nat_iff dest: heads_ok_le)
  then have e: "nat (offset h) + length (drop (nat (offset h) - b) s) = b + length s" by simp
  have "render (nat (offset h)) (drop (nat (offset h) - b) s @ s') (hs @ hs') =
      render (nat (offset h)) (drop (nat (offset h) - b) s) hs @ render (b + length s) s' hs'"
    using 2 by (simp only: e heads_ok.simps)
  with h show ?case by simp
qed

definition emits :: "encbuf \<Rightarrow> encbuf \<Rightarrow> bytes \<Rightarrow> bool" where
  "emits w w' p \<longleftrightarrow>
     length (sizebuf w') = 9 \<and>
     (\<exists>s hs. str w' = str w @ s \<and> lheads w' = lheads w @ hs
       \<and> heads_ok (length (str w)) (length (str w')) hs \<and> p = render (length (str w)) s hs
       \<and> lhsize w' = lhsize w + int (length p) - int (length s))"

lemma emits_refl: "length (sizebuf w) = 9 \<Longrightarrow> emits w w []"
  by (simp add: emits_def)

lemma emits_append:
  "length sb = 9 \<Longrightarrow> emits w (w\<lparr>sizebuf := sb, str := str w @ b\<rparr>) b"
  by (simp add: emits_def)

lemma emits_Write: "length (sizebuf w) = 9 \<Longrightarrow> emits w (Write b w) b"
  by (simp add: emits_def Write_def)

lemma emits_trans:
  assumes "emits w w1 p" and "emits w1 w2 q"
  shows "emits w w2 (p @ q)"
proof -
  obtain s hs where 1: "str w1 = str w @ s" "lheads w1 = lheads w @ hs"
      "heads_ok (length (str w)) (length (str w) + length s) hs"
      "p = render (length (str w)) s hs" "lhsize w1 = lhsize w + int (length p) - int (length s)"
    using assms(1) by (auto simp: emits_def)
  obtain s' hs' where 2: "str w2 = str w1 @ s'" "lheads w2 = lheads w1 @ hs'"
      "heads_ok (length (str w1)) (length (str w2)) hs'" "q = render (length (str w1)) s' hs'"
      "lhsize w2 = lhsize w1 + int (length q) - int (length s')" "length (sizebuf w2) = 9"
    using assms(2) by (auto simp: emits_def)
  have "p @ q = render (length (str w)) (s @ s') (hs @ hs')"
    using 1 2 by (simp add: render_append)
  moreover have "heads_ok (length (str w)) (length (str w2)) (hs @ hs')"
    using 1 2 by (auto intro: heads_ok_append)
  moreover have "lhsize w2 = lhsize w + int (length (p @ q)) - int (length (s @ s'))"
    using 1 2 by simp
  moreover have "str w2 = str w @ s @ s'" "lheads w2 = lheads w @ hs @ hs'"
    using 1 2 by simp_all
  ultimately show ?thesis
    using 2(6) unfolding emits_def by blast
qed

lemma int_intsize_head:
  assumes "n < 2 ^ 64"
  shows "(if n < 56 then 1 else 1 + int (intsize (of_nat n))) = int (length (enc_head s l n))"
  using headsize_of_nat [OF assms, of s l] assms
  by (simp add: headsize_def of_nat_less_56 split: if_splits)

lemma emits_list:
  assumes "list w = (lh, w1)" and "emits w1 w2 p" and "length p < 2 ^ 63"
  shows "emits w (listEnd lh w2) (enc_list p)"
proof -
  obtain s hs where 2: "str w2 = str w @ s"
      "lheads w2 = lheads w @ \<lparr>offset = int (length (str w)), lh_size = lhsize w\<rparr> # hs"
      "heads_ok (length (str w)) (length (str w2)) hs" "p = render (length (str w)) s hs"
      "lhsize w2 = lhsize w + int (length p) - int (length s)" "length (sizebuf w2) = 9"
    using assms by (auto simp: emits_def list_def)
  define h where "h = \<lparr>offset = int (length (str w)), lh_size = int (length p)\<rparr>"
  have lh: "lh = length (lheads w)" using assms(1) by (simp add: list_def)
  have sz: "buf_size w2 - int (length (str w)) - lhsize w = int (length p)"
    using 2 by (simp add: buf_size_def)
  have ls: "(if length p < 56 then 1 else 1 + int (intsize (of_nat (length p))))
      = int (length (enc_list p)) - int (length p)"
    using int_intsize_head [of "length p" "0xC0" "0xF7"] assms(3) by (simp add: enc_list_def)
  have "lheads (listEnd lh w2) = lheads w @ h # hs"
    using sz by (simp add: listEnd_def Let_def 2(2) lh h_def)
  moreover have "lhsize (listEnd lh w2) = lhsize w + int (length (enc_list p)) - int (length s)"
    using ls 2(5) by (simp add: listEnd_def Let_def 2(2) lh sz split: if_splits)
  moreover have "enc_list p = render (length (str w)) s (h # hs)"
    using 2(4) by (simp add: h_def head_bytes_def enc_list_def)
  moreover have "heads_ok (length (str w)) (length (str w2)) (h # hs)"
    using 2 assms(3) by (simp add: h_def)
  moreover have "str (listEnd lh w2) = str w2" "sizebuf (listEnd lh w2) = sizebuf w2"
    by (simp_all add: listEnd_def Let_def)
  ultimately show ?thesis
    using 2(1,6) unfolding emits_def by (intro conjI exI [of _ s] exI [of _ "h # hs"]) simp_all
qed

section \<open>Every writer emits its items\<close>

definition wrote :: "encbuf \<Rightarrow> enc_error + encbuf \<Rightarrow> bytes \<Rightarrow> bool" where
  "wrote w r p \<longleftrightarrow> (\<exists>w'. r = Inr w' \<and> length (sizebuf w') = 9 \<and> (length p < 2 ^ 63 \<longrightarrow> emits w w' p))"

definition writes :: "encbuf \<Rightarrow> enc_error + encbuf \<Rightarrow> enc_error + item list \<Rightarrow> bool" where
  "writes w r ris \<longleftrightarrow> (case ris of Inl e \<Rightarrow> r = Inl e | Inr its \<Rightarrow> wrote w r (enc_items its))"

lemma writes_simps [simp]:
  "writes w r (Inl e) \<longleftrightarrow> r = Inl e"
  "writes w r (Inr its) \<longleftrightarrow> wrote w r (enc_items its)"
  by (simp_all add: writes_def)

lemma wrote_Write: "length (sizebuf w) = 9 \<Longrightarrow> p = b \<Longrightarrow> wrote w (Inr (Write b w)) p"
  by (auto simp: wrote_def emits_Write) (simp add: Write_def)

lemma append_sized_eq:
  assumes "length (sizebuf w) = 9"
  shows "\<exists>sb. length sb = 9 \<and> append_sized tag i w =
    Inr (w\<lparr>sizebuf := sb, str := str w @ (tag + of_nat (length (size_bytes i))) # size_bytes i\<rparr>)"
proof -
  obtain x xs where sb: "sizebuf w = x # xs" "length xs = 8"
    using assms by (cases "sizebuf w") auto
  let ?n = "length (size_bytes i)"
  have "putint xs i = Some (size_bytes i @ drop ?n xs, ?n)"
    using length_size_bytes(2) [of i] sb(2) by (simp add: putint_eq put_bytes_def)
  then show ?thesis
    using length_size_bytes(2) [of i] sb
    by (intro exI [of _ "(tag + of_nat ?n) # size_bytes i @ drop ?n xs"])
      (simp add: append_sized_def Let_def)
qed

lemma append_sized_emits:
  assumes "length (sizebuf w) = 9"
  shows "\<exists>w'. append_sized tag i w = Inr w' \<and> length (sizebuf w') = 9
    \<and> emits w w' ((tag + of_nat (length (size_bytes i))) # size_bytes i)"
proof -
  obtain sb where "length sb = 9" "append_sized tag i w =
      Inr (w\<lparr>sizebuf := sb, str := str w @ (tag + of_nat (length (size_bytes i))) # size_bytes i\<rparr>)"
    using append_sized_eq [OF assms] by blast
  then show ?thesis by (simp add: emits_append)
qed

lemma encodeStringHeader_emits:
  assumes "length (sizebuf w) = 9"
  shows "\<exists>w'. encodeStringHeader n w = Inr w' \<and> length (sizebuf w') = 9
    \<and> (n < 2 ^ 63 \<longrightarrow> emits w w' (enc_head 0x80 0xB7 n))"
proof (cases "n < 56")
  case True
  with assms show ?thesis
    using emits_Write [of w "[0x80 + of_nat n]"]
    by (simp add: encodeStringHeader_def enc_head_def Write_def)
next
  case False
  then have "n < 2 ^ 63 \<Longrightarrow>
      enc_head 0x80 0xB7 n = (0xB7 + of_nat (length (size_bytes (of_nat n)))) # size_bytes (of_nat n)"
    by (simp add: enc_head_def size_bytes_of_nat)
  with False show ?thesis
    using append_sized_emits [OF assms, of "0xB7" "of_nat n"] by (simp add: encodeStringHeader_def) metis
qed

lemma emits_string:
  assumes "length (sizebuf w) = 9" and "\<not> single b" and "p = enc_str b"
  shows "wrote w (map_sum id (Write b) (encodeStringHeader (length b) w)) p"
proof -
  obtain w' where w': "encodeStringHeader (length b) w = Inr w'" "length (sizebuf w') = 9"
      "length b < 2 ^ 63 \<longrightarrow> emits w w' (enc_head 0x80 0xB7 (length b))"
    using encodeStringHeader_emits [OF assms(1)] by blast
  have p: "p = enc_head 0x80 0xB7 (length b) @ b" using assms by (simp add: enc_str_def)
  have "emits w (Write b w') p" if "length p < 2 ^ 63"
    unfolding p using w' that p by (intro emits_trans [of w w'] emits_Write) simp_all
  moreover have "length (sizebuf (Write b w')) = 9" using w' by (simp add: Write_def)
  ultimately show ?thesis using w' by (simp add: wrote_def)
qed

lemma single_le: "single b \<longleftrightarrow> length b = 1 \<and> b ! 0 \<le> 0x7F"
proof -
  have "x < 0x80 \<longleftrightarrow> x \<le> 0x7F" for x :: byte
    by (simp add: word_less_nat_alt word_le_nat_alt) presburger
  then show ?thesis by (simp add: single_def)
qed

lemma wrote_single: "length (sizebuf w) = 9 \<Longrightarrow> single b \<Longrightarrow> wrote w (Inr (Write [b ! 0] w)) (enc_str b)"
  by (rule wrote_Write, assumption) (cases b; simp add: enc_str_def single_def)

lemma wrote_encodeString: "length (sizebuf w) = 9 \<Longrightarrow> wrote w (encodeString b w) (enc_str b)"
  unfolding encodeString_def single_le [symmetric] by (simp add: wrote_single emits_string)

lemma wrote_writeString:
  "length (sizebuf w) = 9 \<Longrightarrow> wrote w (writeString (VString s) w) (enc_str s)"
  unfolding writeString.simps single_le [symmetric] by (simp add: wrote_single emits_string)

text \<open>Integers: a minimal big-endian string of at most eight bytes.\<close>

lemma enc_str_u64:
  assumes "\<not> i < (128 :: u64)"
  shows "enc_str (be_bytes (unat i)) = (0x80 + of_nat (length (size_bytes i))) # size_bytes i"
proof -
  have i: "128 \<le> unat i" using assms by (simp add: word_less_nat_alt)
  then have sb: "size_bytes i = be_bytes (unat i)" by (auto simp: size_bytes_def)
  have "length (be_bytes (unat i)) < 56" using length_size_bytes(2) [of i] by (simp add: sb)
  then show ?thesis using i by (simp add: enc_str_def single_be_bytes enc_head_def sb)
qed

lemma enc_str_small:
  "0 < n \<Longrightarrow> n < 128 \<Longrightarrow> enc_str (be_bytes n) = [of_nat n]"
  by (simp add: enc_str_def single_be_bytes) (simp add: be_bytes_small)

lemma wrote_append_sized:
  "length (sizebuf w) = 9 \<Longrightarrow> \<not> i < 128 \<Longrightarrow> wrote w (append_sized 0x80 i w) (enc_str (be_bytes (unat i)))"
  using append_sized_emits [of w "0x80" i] by (auto simp: wrote_def enc_str_u64)

lemma ucast_small: "i \<noteq> 0 \<Longrightarrow> i < 128 \<Longrightarrow> enc_str (be_bytes (unat i)) = [ucast (i :: u64)]"
  by (simp add: enc_str_small word_less_nat_alt unat_gt_0)

lemma wrote_write_uint64:
  "length (sizebuf w) = 9 \<Longrightarrow> wrote w (write_uint64 i w) (enc_str (be_bytes (unat i)))"
  by (auto simp: write_uint64_def wrote_append_sized ucast_small intro!: wrote_Write)

lemma wrote_writeBigInt:
  "length (sizebuf w) = 9 \<Longrightarrow> writes w (writeBigInt i w) (big_items i)"
  by (auto simp: writeBigInt_def big_items_def intro!: wrote_Write wrote_encodeString)

lemma int_bits_low: "ucast (int_bits k i) = (ucast i :: byte)"
  by (rule bit_word_eqI) (auto simp: int_bits_def bit_simps)

lemma wrote_writeInt:
  "length (sizebuf w) = 9 \<Longrightarrow> wrote w (writeInt k (VInt i) w) (enc_str (be_bytes (unat (int_bits k i))))"
  by (auto simp: Let_def wrote_append_sized ucast_small int_bits_low intro!: wrote_Write)

text \<open>Sequences, lists and the induction over values.\<close>

lemma writes_seq:
  "(\<And>x w. x \<in> set xs \<Longrightarrow> length (sizebuf w) = 9 \<Longrightarrow> writes w (f x w) (g x)) \<Longrightarrow>
     length (sizebuf w) = 9 \<Longrightarrow> writes w (write_seq f xs w) (seq_items g xs)"
proof (induction xs arbitrary: w)
  case Nil
  then show ?case by (simp add: wrote_def emits_refl)
next
  case (Cons x xs)
  from Cons.prems have x: "writes w (f x w) (g x)" by simp
  show ?case
  proof (cases "g x")
    case (Inl e)
    with x show ?thesis by simp
  next
    case (Inr its)
    with x obtain w1 where w1: "f x w = Inr w1" "length (sizebuf w1) = 9"
        "length (enc_items its) < 2 ^ 63 \<longrightarrow> emits w w1 (enc_items its)"
      by (auto simp: wrote_def)
    have IH: "writes w1 (write_seq f xs w1) (seq_items g xs)" using Cons w1 by simp
    show ?thesis
    proof (cases "seq_items g xs")
      case (Inl e)
      with IH Inr w1 show ?thesis by simp
    next
      case (Inr its')
      with IH obtain w2 where w2: "write_seq f xs w1 = Inr w2" "length (sizebuf w2) = 9"
          "length (enc_items its') < 2 ^ 63 \<longrightarrow> emits w1 w2 (enc_items its')"
        by (auto simp: wrote_def)
      with w1 have "length (enc_items its @ enc_items its') < 2 ^ 63 \<Longrightarrow>
          emits w w2 (enc_items its @ enc_items its')"
        by (intro emits_trans [of w w1]) simp_all
      with \<open>g x = Inr its\<close> Inr w1 w2 show ?thesis by (simp add: wrote_def)
    qed
  qed
qed

lemma writes_list:
  assumes "list w = (lh, w1)" and "length (sizebuf w) = 9"
    and "length (sizebuf w1) = 9 \<Longrightarrow> writes w1 r ris"
  shows "writes w (map_sum id (listEnd lh) r) (lst ris)"
proof (cases ris)
  case (Inl e)
  with assms show ?thesis by (auto simp: lst_def list_def)
next
  case (Inr its)
  have "length (sizebuf w1) = 9" using assms(1,2) by (auto simp: list_def)
  with assms(3) Inr obtain w2 where w2: "r = Inr w2" "length (sizebuf w2) = 9"
      "length (enc_items its) < 2 ^ 63 \<longrightarrow> emits w1 w2 (enc_items its)"
    by (auto simp: wrote_def)
  have "length (enc_items its) < 2 ^ 63" if "length (enc_list (enc_items its)) < 2 ^ 63"
    using that by (simp add: enc_list_def)
  with w2 assms(1) have "length (enc_list (enc_items its)) < 2 ^ 63 \<Longrightarrow>
      emits w (listEnd lh w2) (enc_list (enc_items its))"
    by (intro emits_list) simp_all
  moreover have "length (sizebuf (listEnd lh w2)) = 9"
    using w2 by (simp add: listEnd_def Let_def)
  ultimately show ?thesis using w2 by (simp add: Inr lst_def wrote_def)
qed

lemma writes_slice:
  "(\<And>x w. x \<in> set xs \<Longrightarrow> length (sizebuf w) = 9 \<Longrightarrow> writes w (f x w) (g x)) \<Longrightarrow>
     length (sizebuf w) = 9 \<Longrightarrow>
     writes w (slice_writer f b xs w) (if b then seq_items g xs else lst (seq_items g xs))"
  by (auto simp: slice_writer_def split: prod.split intro!: writes_list writes_seq)

lemma writes_struct:
  "(\<And>x w. x \<in> set xs \<Longrightarrow> length (sizebuf w) = 9 \<Longrightarrow> writes w (f x w) (g x)) \<Longrightarrow>
     length (sizebuf w) = 9 \<Longrightarrow> writes w (struct_writer f xs w) (lst (seq_items g xs))"
  by (auto simp: struct_writer_def split: prod.split intro!: writes_list writes_seq)

lemma writes_empty_list:
  assumes "length (sizebuf w) = 9" and "list w = (lh, w1)"
  shows "wrote w (Inr (listEnd lh w1)) [0xC0]"
proof -
  have "writes w1 (Inr w1) (Inr [])" if "length (sizebuf w1) = 9"
    using that by (simp add: wrote_def emits_refl)
  from writes_list [OF assms(2,1) this] show ?thesis by (simp add: lst_def)
qed

text \<open>Induction over a value and its type: the value shrinks, or it does not grow and the type
  shrinks.\<close>

lemma val_type_induct [case_names step]:
  assumes "\<And>t v. (\<And>t' v'. size v' < size v \<or> size v' \<le> size v \<and> size t' < size t \<Longrightarrow> P t' v') \<Longrightarrow> P t v"
  shows "P (t :: gotype) (v :: goval)"
proof (induction "(t, v)" arbitrary: t v
    rule: wf_induct_rule [OF wf_measures [of "[\<lambda>(t, v). size v, \<lambda>(t, v). size t]"]])
  case (1 t v)
  show ?case by (rule assms, rule 1) (auto simp: le_less)
qed

lemma makeWriter_ptr:
  "makeWriter TBigInt ts v w = writeBigIntPtr (VPtr (Some v)) w"
  "makeWriter TNumber ts v w = writeNumberPtr (VPtr (Some v)) w"
  by (subst makeWriter.simps, cases v; simp)+

lemma writes_makeWriter:
  "length (sizebuf w) = 9 \<Longrightarrow> writes w (makeWriter t ts v w) (items_of t ts v)"
proof (induction t v arbitrary: ts w rule: val_type_induct)
  case (step t v)
  note IH = step.IH and sb = step.prems
  note base = wrote_Write wrote_encodeString wrote_write_uint64 wrote_writeInt wrote_writeString
    wrote_writeBigInt writes_empty_list
  show ?case
  proof (cases t)
    case (TStruct fs)
    show ?thesis
    proof (cases "structFields genTypeInfo fs")
      case (Inl e)
      with TStruct show ?thesis by (subst makeWriter.simps, subst items_of.simps) (cases v; simp)
    next
      case (Inr fds)
      have "writes w (struct_writer f fds w) (lst (seq_items g fds))"
        if f: "f = (\<lambda>(i, ft, fts) w. if i < length vs then makeWriter ft fts (vs ! i) w else Inl EPanic)"
        and g: "g = (\<lambda>(i, ft, fts). if i < length vs then items_of ft fts (vs ! i) else Inl EPanic)"
        and v: "v = VStruct vs" for f g vs
        unfolding f g using sb by (intro writes_struct) (auto simp: v size_nth_goval intro!: IH)
      with Inr TStruct show ?thesis by (subst makeWriter.simps, subst items_of.simps) (cases v; simp)
    qed
  next
    case (TPtr e)
    show ?thesis
    proof (cases v)
      case (VPtr x)
      have "writes w (makeWriter e no_tags y w) (items_of e no_tags y)"
        if "x = Some y \<or> (x = None \<and> size (zero_val e) \<le> size v \<and> y = zero_val e)" for y
        using that sb by (intro IH) (auto simp: TPtr VPtr)
      then show ?thesis
        unfolding TPtr VPtr using sb
        by (subst makeWriter.simps, subst items_of.simps)
          (cases x; cases e; auto simp: makeWriter_ptr intro!: base split: prod.split)
    qed (use TPtr in \<open>subst makeWriter.simps, subst items_of.simps, cases e; simp\<close>)+
  next
    case (TSlice e)
    have "writes w (slice_writer (\<lambda>x. makeWriter e no_tags x) (tail ts) vs w)
        (if tail ts then seq_items (items_of e no_tags) vs else lst (seq_items (items_of e no_tags) vs))"
      if v: "v = VSeq vs" for vs
      using sb by (intro writes_slice) (auto simp: v size_mem_goval intro!: IH)
    then show ?thesis
      unfolding TSlice using sb
      by (subst makeWriter.simps, subst items_of.simps) (cases v; auto intro!: base)
  next
    case (TArray n e)
    have "writes w (slice_writer (\<lambda>x. makeWriter e no_tags x) (tail ts) vs w)
        (if tail ts then seq_items (items_of e no_tags) vs else lst (seq_items (items_of e no_tags) vs))"
      if v: "v = VSeq vs" for vs
      using sb by (intro writes_slice) (auto simp: v size_mem_goval intro!: IH)
    then show ?thesis
      unfolding TArray using sb
      by (subst makeWriter.simps, subst items_of.simps) (cases v; auto intro!: base)
  next
    case TInterface
    show ?thesis
      unfolding TInterface using sb
      by (subst makeWriter.simps, subst items_of.simps)
        (cases v; auto intro!: base IH split: option.split)
  qed (subst makeWriter.simps, subst items_of.simps, cases v; use sb in \<open>auto simp del: writeInt.simps(1) writeString.simps(1) intro!: base\<close>)+
qed

section \<open>The ways out of the buffer\<close>

lemma head_bytes_ne: "head_bytes h \<noteq> []"
  by (simp add: head_bytes_def enc_head_def)

lemma head_ok_puthead:
  assumes "0 \<le> lh_size h" and "lh_size h < 2 ^ 63" and "length (head_bytes h) \<le> length b"
  shows "puthead b 0xC0 0xF7 (of_int (lh_size h)) =
    Some (head_bytes h @ drop (length (head_bytes h)) b, length (head_bytes h))"
proof -
  have e: "(of_int (lh_size h) :: u64) = of_nat (nat (lh_size h))" using assms(1) by simp
  show ?thesis
    using assms unfolding e head_bytes_def by (intro puthead_of_nat) simp_all
qed

lemma copy_at_append: "length src \<le> length z \<Longrightarrow> copy_at (d @ z) (length d) src = d @ src @ drop (length src) z"
  by (simp add: copy_at_def)

lemma toBytes_loop_render:
  "heads_ok p (length s) hs \<Longrightarrow> length z = length (render p (drop p s) hs) \<Longrightarrow>
     toBytes_loop s hs (d @ z) p (length d) = Some (d @ render p (drop p s) hs)"
proof (induction hs arbitrary: p d z)
  case Nil
  then show ?case by (simp add: copy_at_append)
next
  case (Cons h hs)
  define src where "src = take (nat (offset h) - p) (drop p s)"
  define b where "b = head_bytes h"
  define rest where "rest = render (nat (offset h)) (drop (nat (offset h)) s) hs"
  have h: "int p \<le> offset h" "nat (offset h) \<le> length s" "heads_ok (nat (offset h)) (length s) hs"
      "0 \<le> lh_size h" "lh_size h < 2 ^ 63"
    using Cons.prems(1) by (auto dest: heads_ok_le)
  from h have d: "drop (nat (offset h) - p) (drop p s) = drop (nat (offset h)) s"
    "p + length src = nat (offset h)" by (simp_all add: src_def)
  have r: "render p (drop p s) (h # hs) = src @ b @ rest"
    unfolding render.simps d(1) by (simp add: src_def b_def rest_def)
  have z: "length z = length src + length b + length rest" using Cons.prems(2) unfolding r by simp
  have ph: "puthead (drop (length src) z) 0xC0 0xF7 (of_int (lh_size h)) =
      Some (b @ drop (length b) (drop (length src) z), length b)"
    unfolding b_def by (intro head_ok_puthead h) (simp add: z flip: b_def)
  have "toBytes_loop s (h # hs) (d @ z) p (length d) =
      toBytes_loop s hs ((d @ src @ b) @ drop (length b) (drop (length src) z)) (nat (offset h))
        (length (d @ src @ b))"
    using h(1) nat_le_iff [THEN iffD1, OF h(2)] d(2) z ph
    by (simp add: copy_at_append min_absorb2 flip: src_def) (simp add: add.assoc Let_def)
  also have "\<dots> = Some ((d @ src @ b) @ rest)"
    unfolding rest_def by (rule Cons.IH) (use h z in \<open>simp_all flip: rest_def\<close>)
  finally show ?case unfolding r by simp
qed

lemma emits_reset:
  assumes "emits (reset w) w' p"
  shows "heads_ok 0 (length (str w')) (lheads w')" "render 0 (str w') (lheads w') = p"
    "buf_size w' = int (length p)" "length (sizebuf w') = 9"
  using assms by (auto simp: emits_def reset_def buf_size_def)

lemma toBytes_emits: "emits (reset w) w' p \<Longrightarrow> toBytes w' = Some p"
  using toBytes_loop_render [of 0 "str w'" "lheads w'" "replicate (length p) 0" "[]"]
  by (simp add: toBytes_def emits_reset)

text \<open>A writer that takes everything it is given and collects it.\<close>

definition appending :: "(bytes \<Rightarrow> 'o \<Rightarrow> nat \<times> 'e option \<times> 'o) \<Rightarrow> ('o \<Rightarrow> bytes) \<Rightarrow> bool" where
  "appending wr written \<longleftrightarrow>
     (\<forall>b out. \<exists>out'. wr b out = (length b, None, out') \<and> written out' = written out @ b)"

lemma toWriter_loop_render:
  assumes wr: "appending wr written"
  shows "heads_ok p (length s) hs \<Longrightarrow> length sb = 9 \<Longrightarrow>
    \<exists>out'. toWriter_loop wr s hs sb p out = Some (None, out')
      \<and> written out' = written out @ render p (drop p s) hs"
proof (induction hs arbitrary: p sb out)
  case Nil
  obtain out' where "wr (drop p s) out = (length (drop p s), None, out')"
      "written out' = written out @ drop p s"
    using wr unfolding appending_def by blast
  with Nil show ?case by auto
next
  case (Cons h hs)
  define src where "src = take (nat (offset h) - p) (drop p s)"
  have h: "int p \<le> offset h" "nat (offset h) \<le> length s" "heads_ok (nat (offset h)) (length s) hs"
      "0 \<le> lh_size h" "lh_size h < 2 ^ 63"
    using Cons.prems(1) by (auto dest: heads_ok_le)
  from h have d: "drop (nat (offset h) - p) (drop p s) = drop (nat (offset h)) s"
    "p + length src = nat (offset h)" by (simp_all add: src_def)
  have n9: "length (head_bytes h) \<le> length sb"
    unfolding head_bytes_def Cons.prems(2) by (rule length_enc_head_le) (use h in simp)
  define sb' where "sb' = head_bytes h @ drop (length (head_bytes h)) sb"
  have ph: "puthead sb 0xC0 0xF7 (of_int (lh_size h)) = Some (sb', length (head_bytes h))"
    unfolding sb'_def by (rule head_ok_puthead [OF h(4,5) n9])
  have sb': "length sb' = 9" "take (length (head_bytes h)) sb' = head_bytes h"
    using n9 Cons.prems(2) by (simp_all add: sb'_def)
  obtain out1 where out1: "(if int p < offset h then wr src out else (0, None, out)) =
      (length src, None, out1)" "written out1 = written out @ src"
  proof (cases "offset h = int p")
    case True
    then show ?thesis by (intro that [of out]) (simp_all add: src_def)
  next
    case False
    obtain out1 where "wr src out = (length src, None, out1)" "written out1 = written out @ src"
      using wr unfolding appending_def by blast
    with False h(1) show ?thesis by (intro that [of out1]) simp_all
  qed
  obtain out2 where out2: "wr (head_bytes h) out1 = (length (head_bytes h), None, out2)"
      "written out2 = written out1 @ head_bytes h"
    using wr unfolding appending_def by blast
  have src': "take (nat (offset h - int p)) (drop p s) = src"
    using h(1) by (simp add: src_def nat_diff_distrib)
  have "toWriter_loop wr s (h # hs) sb p out = toWriter_loop wr s hs sb' (nat (offset h)) out2"
    using nat_le_iff [THEN iffD1, OF h(2)] out1(1) out2(1) d(2)
    by (cases "int p < offset h") (simp_all add: Let_def src' ph sb')
  with Cons.IH [OF h(3) sb'(1), of out2] show ?case
    unfolding render.simps d(1) by (simp add: out1 out2 flip: src_def)
qed

text \<open>What a reader has still to deliver.\<close>

definition pending :: "encReader \<Rightarrow> bytes" where
  "pending r =
     (case buf r of
        None \<Rightarrow> []
      | Some w \<Rightarrow>
          (case piece r of None \<Rightarrow> [] | Some p \<Rightarrow> p)
          @ render (strpos r) (drop (strpos r) (str w)) (drop (lhpos r) (lheads w)))"

definition reader_ok :: "encReader \<Rightarrow> bool" where
  "reader_ok r \<longleftrightarrow>
     (case buf r of
        None \<Rightarrow> True
      | Some w \<Rightarrow> length (sizebuf w) = 9 \<and> piece r \<noteq> Some []
                  \<and> heads_ok (strpos r) (length (str w)) (drop (lhpos r) (lheads w)))"

lemma next_piece_head:
  assumes "reader_ok r" and "buf r = Some w" and "piece r = None" and "lhpos r < length (lheads w)"
  shows "\<exists>p r1. next_piece r = Some (Some p, r1) \<and> p \<noteq> [] \<and> reader_ok (r1\<lparr>piece := None\<rparr>)
    \<and> buf r1 \<noteq> None \<and> pending r = p @ pending (r1\<lparr>piece := None\<rparr>)"
proof -
  define h where "h = lheads w ! lhpos r"
  define hs where "hs = drop (Suc (lhpos r)) (lheads w)"
  have hs: "drop (lhpos r) (lheads w) = h # hs"
    using assms(4) by (simp add: h_def hs_def Cons_nth_drop_Suc)
  have ok: "length (sizebuf w) = 9" "int (strpos r) \<le> offset h" "0 \<le> lh_size h" "lh_size h < 2 ^ 63"
      "heads_ok (nat (offset h)) (length (str w)) hs"
    using assms(1,2) by (simp_all add: reader_ok_def hs)
  then have le: "offset h \<le> int (length (str w))" by (auto dest: heads_ok_le)
  show ?thesis
  proof (cases "offset h = int (strpos r)")
    case True
    have n9: "length (head_bytes h) \<le> length (sizebuf w)"
      unfolding head_bytes_def ok(1) by (rule length_enc_head_le) (use ok in simp)
    from head_ok_puthead [OF ok(3,4) n9] n9 True assms ok show ?thesis
      by (simp add: next_piece_def Let_def pending_def hs reader_ok_def hs_def head_bytes_ne flip: h_def)
  next
    case False
    define k where "k = nat (offset h) - strpos r"
    have k: "0 < k" "k \<le> length (str w) - strpos r" "nat (offset h) = strpos r + k"
      "nat (offset h - int (strpos r)) = k"
      using False ok(2) le by (simp_all add: k_def nat_diff_distrib)
    have "next_piece r = Some (Some (take k (drop (strpos r) (str w))), r\<lparr>strpos := strpos r + k\<rparr>)"
      using False ok(2) le assms k by (simp add: next_piece_def Let_def flip: h_def)
    moreover have "heads_ok (strpos r + k) (length (str w)) (h # hs)"
      using ok k by simp
    moreover have "take k (drop (strpos r) (str w)) \<noteq> []" using k by auto
    ultimately show ?thesis
      using assms k ok(1) by (simp add: pending_def reader_ok_def hs add.commute)
  qed
qed

lemma next_piece_pending:
  assumes "reader_ok r"
  shows "(pending r = [] \<and> next_piece r = Some (None, r)) \<or>
    (\<exists>p r1. next_piece r = Some (Some p, r1) \<and> p \<noteq> [] \<and> reader_ok (r1\<lparr>piece := None\<rparr>)
      \<and> buf r1 \<noteq> None \<and> pending r = p @ pending (r1\<lparr>piece := None\<rparr>))"
proof (cases "\<exists>w. buf r = Some w \<and> piece r = None \<and> lhpos r < length (lheads w)")
  case True
  with next_piece_head [OF assms] show ?thesis by blast
next
  case False
  with assms show ?thesis
    by (cases "buf r"; cases "piece r") (auto simp: next_piece_def pending_def reader_ok_def)
qed

lemma Read_loop_pending:
  assumes "reader_ok r" and "length got \<le> k"
  shows "\<exists>r'. Read_loop k got r =
      Some (got @ take (k - length got) (pending r), length (pending r) \<le> k - length got, r')
    \<and> reader_ok r' \<and> pending r' = drop (k - length got) (pending r)"
  using assms
proof (induction k got r rule: Read_loop.induct)
  case (1 k got r)
  show ?case
  proof (cases "pending r = [] \<and> next_piece r = Some (None, r)")
    case True
    then show ?thesis
      by (subst Read_loop.simps) (simp add: reader_ok_def pending_def)
  next
    case False
    with next_piece_pending [OF "1.prems"(1)] obtain p r1 where p: "next_piece r = Some (Some p, r1)"
      "p \<noteq> []" "reader_ok (r1\<lparr>piece := None\<rparr>)" "buf r1 \<noteq> None" "pending r = p @ pending (r1\<lparr>piece := None\<rparr>)"
      by blast
    show ?thesis
    proof (cases "k - length got < length p")
      case True
      then have "Read_loop k got r =
          Some (got @ take (k - length got) p, False, r1\<lparr>piece := Some (drop (k - length got) p)\<rparr>)"
        using p(1) by (subst Read_loop.simps) (simp add: Let_def)
      moreover have "reader_ok (r1\<lparr>piece := Some (drop (k - length got) p)\<rparr>)"
        using p(3) True by (auto simp: reader_ok_def split: option.splits)
      moreover have "pending (r1\<lparr>piece := Some (drop (k - length got) p)\<rparr>)
          = drop (k - length got) p @ pending (r1\<lparr>piece := None\<rparr>)"
        using p(4) by (auto simp: pending_def)
      ultimately show ?thesis using True p(5) by simp
    next
      case False
      then have e: "Read_loop k got r = Read_loop k (got @ p) (r1\<lparr>piece := None\<rparr>)"
        using p(1) by (subst Read_loop.simps) (simp add: Let_def)
      have le: "length p + m \<le> k - length got \<longleftrightarrow> m \<le> k - (length got + length p)" for m
        using False by auto
      from "1.IH" [OF p(1) refl refl refl refl] False p(3) "1.prems"(2) show ?thesis
        unfolding e p(5) by (auto simp: diff_diff_eq le)
    qed
  qed
qed

section \<open>Properties of the encoder\<close>

text \<open>The reference encoding of a typed value.\<close>

definition enc_val :: "gotype \<Rightarrow> goval \<Rightarrow> enc_error + bytes" where
  "enc_val t v =
     (case genTypeInfo t no_tags of
        Some e \<Rightarrow> Inl (EType e)
      | None \<Rightarrow> map_sum id enc_items (items_of t no_tags v))"

text \<open>A buffer of the pool: whatever an earlier call left in it, its scratch slice is nine bytes
  long.\<close>

definition pool_ok :: "encbuf \<Rightarrow> bool" where
  "pool_ok w \<longleftrightarrow> length (sizebuf w) = 9"

lemma encode_cases:
  assumes "pool_ok pool"
  shows "(\<exists>e. enc_val t v = Inl e \<and> encode t v (reset pool) = Inl e) \<or>
    (\<exists>p w. enc_val t v = Inr p \<and> encode t v (reset pool) = Inr w \<and> length (sizebuf w) = 9
      \<and> (length p < 2 ^ 63 \<longrightarrow> emits (reset pool) w p))"
proof (cases "genTypeInfo t no_tags")
  case None
  have "writes (reset pool) (makeWriter t no_tags v (reset pool)) (items_of t no_tags v)"
    using assms by (intro writes_makeWriter) (simp add: pool_ok_def reset_def)
  with None show ?thesis
    by (cases "items_of t no_tags v") (auto simp: enc_val_def encode_def wrote_def)
qed (simp add: enc_val_def encode_def)

text \<open>A sample value: a struct with a number, a byte string, and a \<open>tail\<close> slice of strings.\<close>

definition sample_type :: gotype where
  "sample_type = TStruct
     [(''A'', [], True, TUint 64), (''B'', [], True, TSlice (TUint 8)),
      (''C'', ''tail'', True, TSlice TString)]"

definition sample_val :: goval where
  "sample_val = VStruct [VUint 1024, VBytes [7], VSeq [VString [], VString [0x80, 1]]]"

lemma sample_enc: "enc_val sample_type sample_val = Inr [0xC8, 0x82, 4, 0, 7, 0x80, 0x82, 0x80, 1]"
  by code_simp

lemma pool_ok_new: "pool_ok new_encbuf"
  by (simp add: pool_ok_def new_encbuf_def)

text \<open>C3. \<open>EncodeToBytes\<close> refines the RLP format: for every type and value of the model and
  every buffer the pool can return, it gives the encoding of the value's item tree, or the error
  the format level prescribes (an unserialisable type, a negative big integer); nothing an earlier
  call left in the pooled buffer shows in the output.\<close>

theorem EncodeToBytes_refines:
  assumes "pool_ok pool" and "\<And>p. enc_val t v = Inr p \<Longrightarrow> length p < 2 ^ 63"
  shows "EncodeToBytes pool t v = enc_val t v"
  using encode_cases [OF assms(1), of t v] assms(2) toBytes_emits
  by (auto simp: EncodeToBytes_def)

theorem EncodeToBytes_refines_witness:
  "EncodeToBytes new_encbuf sample_type sample_val = Inr [0xC8, 0x82, 4, 0, 7, 0x80, 0x82, 0x80, 1]"
  using EncodeToBytes_refines [OF pool_ok_new, of sample_type sample_val] by (simp add: sample_enc)

text \<open>C23. \<open>Encode\<close> into a writer that accepts everything writes exactly the bytes
  \<open>EncodeToBytes\<close> returns.\<close>

theorem Encode_writes_encoding:
  assumes "pool_ok pool" and "appending wr written" and "enc_val t v = Inr p" and "length p < 2 ^ 63"
  shows "\<exists>out'. Encode pool wr t v out = Inr (None, out') \<and> written out' = written out @ p"
proof -
  obtain w where w: "encode t v (reset pool) = Inr w" "emits (reset pool) w p"
    using encode_cases [OF assms(1), of t v] assms(3,4) by auto
  obtain out' where "toWriter wr w out = Some (None, out')" "written out' = written out @ p"
    using toWriter_loop_render [OF assms(2), of 0 "str w" "lheads w" "sizebuf w" out]
      emits_reset [OF w(2)]
    by (auto simp: toWriter_def)
  with w show ?thesis by (simp add: Encode_def)
qed

theorem Encode_writes_encoding_witness:
  "\<exists>out'. Encode new_encbuf (\<lambda>b out. (length b, None :: unit option, out @ b)) sample_type sample_val [1] =
     Inr (None, out') \<and> id out' = id [1] @ [0xC8, 0x82, 4, 0, 7, 0x80, 0x82, 0x80, 1]"
  by (rule Encode_writes_encoding [OF pool_ok_new _ sample_enc]) (simp_all add: appending_def)

text \<open>The bytes a sequence of \<open>Read\<close> calls with slices of the given lengths delivers, and
  whether the last one reported the end.\<close>

primrec read_all :: "nat list \<Rightarrow> encReader \<Rightarrow> (bytes \<times> bool) option" where
  "read_all [] r = Some ([], False)"
| "read_all (k # ks) r =
     (case Read k r of
        None \<Rightarrow> None
      | Some (b, eof, r') \<Rightarrow>
          (if eof then Some (b, True) else map_option (map_prod ((@) b) id) (read_all ks r')))"

lemma read_all_pending:
  "reader_ok r \<Longrightarrow> \<exists>eof. read_all ks r = Some (take (sum_list ks) (pending r), eof)
     \<and> (ks \<noteq> [] \<longrightarrow> (eof \<longleftrightarrow> length (pending r) \<le> sum_list ks))"
proof (induction ks arbitrary: r)
  case (Cons k ks)
  obtain r' where r': "Read k r = Some (take k (pending r), length (pending r) \<le> k, r')"
      "reader_ok r'" "pending r' = drop k (pending r)"
    using Read_loop_pending [OF Cons.prems, of "[]" k] by (auto simp: Read_def)
  with Cons.IH [OF r'(2)] show ?case
    by (cases ks) (auto simp: take_add le_diff_conv2 not_le)
qed auto

text \<open>C22. The reader of \<open>EncodeToReader\<close> delivers the encoding whatever slices it is read
  with: the reads together give a prefix of it, all of it once the slices are large enough, and
  the end is reported exactly then; the reported size is its length.\<close>

theorem EncodeToReader_delivers:
  assumes "pool_ok pool" and "enc_val t v = Inr p" and "length p < 2 ^ 63" and "ks \<noteq> []"
  shows "\<exists>r. EncodeToReader pool t v = Inr (int (length p), r)
    \<and> read_all ks r = Some (take (sum_list ks) p, length p \<le> sum_list ks)"
proof -
  obtain w where w: "encode t v (reset pool) = Inr w" "emits (reset pool) w p"
    using encode_cases [OF assms(1), of t v] assms(2,3) by auto
  define r where "r = \<lparr>buf = Some w, lhpos = 0, strpos = 0, piece = None\<rparr>"
  have "reader_ok r" "pending r = p"
    using emits_reset [OF w(2)] by (simp_all add: r_def reader_ok_def pending_def)
  with read_all_pending [of r ks] assms(4) w emits_reset(3) [OF w(2)] show ?thesis
    by (simp add: EncodeToReader_def r_def)
qed

theorem EncodeToReader_delivers_witness:
  "\<exists>r. EncodeToReader new_encbuf sample_type sample_val = Inr (9, r)
    \<and> read_all [2, 0, 3, 100] r = Some ([0xC8, 0x82, 4, 0, 7, 0x80, 0x82, 0x80, 1], True)"
  using EncodeToReader_delivers [OF pool_ok_new sample_enc, of "[2, 0, 3, 100]"] by simp

end
