(* ===== verification/RlpStream.thy ===== *)
theory RlpStream
  imports RlpRaw
begin

text \<open>
  The \<open>Stream\<close> of \<^verbatim>\<open>src/rlp/decode.go\<close>: a piecemeal reader of RLP values with an
  input limit and a stack of the lists being read. Every operation takes the stream and returns
  the stream it leaves behind together with its result, on the error branches too. The reader is
  a \<^verbatim>\<open>bytes.Reader\<close>, given by the bytes it has still to deliver; the methods of
  \<open>Stream\<close> carry the prefix \<open>s_\<close>.
\<close>

section \<open>State\<close>

record listpos =
  pos :: u64
  lsize :: u64

text \<open>\<open>kind = None\<close> is the value \<open>-1\<close>; the top of the stack of lists is the head of
  \<open>stack\<close>.\<close>

record stream =
  rdr :: bytes
  remaining :: u64
  limited :: bool
  uintbuf :: bytes
  kind :: "rlp_kind option"
  ssize :: u64
  byteval :: byte
  kinderr :: "rlp_error option"
  stack :: "listpos list"

type_synonym 'a sres = "(rlp_error + 'a) \<times> stream"

definition new_stream :: stream where
  "new_stream = \<lparr>rdr = [], remaining = 0, limited = False, uintbuf = [], kind = Some Byte, ssize = 0,
     byteval = 0, kinderr = None, stack = []\<rparr>"

text \<open>\<open>known\<close> says whether the reader is one whose length \<open>Reset\<close> can ask for
  (\<^verbatim>\<open>*bytes.Reader\<close>, \<^verbatim>\<open>*strings.Reader\<close>).\<close>

definition Reset :: "bytes \<Rightarrow> bool \<Rightarrow> u64 \<Rightarrow> stream \<Rightarrow> stream" where
  "Reset r known inputLimit s =
     (let s = (if 0 < inputLimit then s\<lparr>remaining := inputLimit, limited := True\<rparr>
               else if known then s\<lparr>remaining := of_nat (length r), limited := True\<rparr>
               else s\<lparr>limited := False\<rparr>)
      in s\<lparr>rdr := r, stack := [], ssize := 0, kind := None, kinderr := None,
           uintbuf := (if uintbuf s = [] then replicate 8 0 else uintbuf s)\<rparr>)"

definition NewStream :: "bytes \<Rightarrow> bool \<Rightarrow> u64 \<Rightarrow> stream" where
  "NewStream r known inputLimit = Reset r known inputLimit new_stream"

definition NewListStream :: "bytes \<Rightarrow> bool \<Rightarrow> u64 \<Rightarrow> stream" where
  "NewListStream r known len = (Reset r known len new_stream)\<lparr>kind := Some List, ssize := len\<rparr>"

section \<open>Reading from the input\<close>

definition willRead :: "u64 \<Rightarrow> stream \<Rightarrow> rlp_error option \<times> stream" where
  "willRead n s =
     (let s = s\<lparr>kind := None\<rparr>;
          limit = (\<lambda>s. if limited s then
                         (if remaining s < n then (Some ErrValueTooLarge, s)
                          else (None, s\<lparr>remaining := remaining s - n\<rparr>))
                       else (None, s))
      in case stack s of
           [] \<Rightarrow> limit s
         | tos # st \<Rightarrow>
             (if lsize tos - pos tos < n then (Some ErrElemTooLarge, s)
              else limit (s\<lparr>stack := tos\<lparr>pos := pos tos + n\<rparr> # st\<rparr>)))"

definition readByte :: "stream \<Rightarrow> byte sres" where
  "readByte s =
     (case willRead 1 s of
        (Some e, s) \<Rightarrow> (Inl e, s)
      | (None, s) \<Rightarrow>
          (case rdr s of
             [] \<Rightarrow> (Inl ErrUnexpectedEOF, s)
           | b # r \<Rightarrow> (Inr b, s\<lparr>rdr := r\<rparr>)))"

text \<open>\<^verbatim>\<open>bytes.Reader.Read\<close> into a slice of \<open>n\<close> bytes, and the loop that fills
  a slice of \<open>n\<close> bytes with it: the error, the bytes read, the reader.\<close>

definition Reader_Read :: "nat \<Rightarrow> bytes \<Rightarrow> rlp_error option \<times> bytes \<times> bytes" where
  "Reader_Read n r = (if r = [] then (Some EOF, [], []) else (None, take n r, drop n r))"

function fill_loop :: "nat \<Rightarrow> bytes \<Rightarrow> rlp_error option \<times> bytes \<times> bytes" where
  "fill_loop n r =
     (if n = 0 then (None, [], r)
      else case Reader_Read n r of
             (Some e, d, r) \<Rightarrow> (Some e, d, r)
           | (None, d, r) \<Rightarrow> (case fill_loop (n - length d) r of (e, d', r) \<Rightarrow> (e, d @ d', r)))"
  by pat_completeness auto

termination fill_loop
  by (relation "measure fst") (auto simp: Reader_Read_def split: if_splits)

declare fill_loop.simps [simp del]

definition readFull :: "nat \<Rightarrow> stream \<Rightarrow> rlp_error option \<times> bytes \<times> stream" where
  "readFull n s =
     (case willRead (of_nat n) s of
        (Some e, s) \<Rightarrow> (Some e, [], s)
      | (None, s) \<Rightarrow>
          (case fill_loop n (rdr s) of
             (err, d, r) \<Rightarrow>
               ((if err = Some EOF then Some ErrUnexpectedEOF else err), d, s\<lparr>rdr := r\<rparr>)))"

text \<open>\<open>uintbuf[start:]\<close> panics when \<open>start\<close> is out of range.\<close>

definition readUint :: "byte \<Rightarrow> stream \<Rightarrow> u64 sres" where
  "readUint sz s =
     (if sz = 0 then (Inr 0, s\<lparr>kind := None\<rparr>)
      else if sz = 1 then (case readByte s of (Inl e, s) \<Rightarrow> (Inl e, s) | (Inr b, s) \<Rightarrow> (Inr (ucast b), s))
      else let start = unat (8 - sz)
           in if length (uintbuf s) \<le> start then (Inl GoPanic, s)
              else case readFull (length (uintbuf s) - start) s of
                (err, d, s) \<Rightarrow>
                  (let s = s\<lparr>uintbuf := replicate start 0 @ d @ drop (start + length d) (uintbuf s)\<rparr>
                   in case err of
                        Some e \<Rightarrow> (Inl e, s)
                      | None \<Rightarrow>
                          if uintbuf s ! start = 0 then (Inl ErrCanonSize, s)
                          else (Inr (of_nat (be_val (take 8 (uintbuf s)))), s)))"

section \<open>The value ahead\<close>

text \<open>The kind, the size and the error of the value whose header starts here; all three are kept
  by \<open>s_Kind\<close>, also when the error is set.\<close>

definition s_readKind :: "stream \<Rightarrow> (rlp_kind \<times> u64 \<times> rlp_error option) \<times> stream" where
  "s_readKind s =
     (let long = (\<lambda>k sz s. case readUint sz s of
                      (Inl e, s) \<Rightarrow> ((k, 0, Some e), s)
                    | (Inr n, s) \<Rightarrow> ((k, n, if n < 56 then Some ErrCanonSize else None), s))
      in case readByte s of
           (Inl e, s) \<Rightarrow>
             ((Byte, 0,
               Some (if stack s = [] \<and> (e = ErrUnexpectedEOF \<or> e = ErrValueTooLarge) then EOF else e)), s)
         | (Inr b, s) \<Rightarrow>
             (let s = s\<lparr>byteval := 0\<rparr>
              in if b < 0x80 then ((Byte, 0, None), s\<lparr>byteval := b\<rparr>)
                 else if b < 0xB8 then ((String, ucast (b - 0x80), None), s)
                 else if b < 0xC0 then long String (b - 0xB7) s
                 else if b < 0xF8 then ((List, ucast (b - 0xC0), None), s)
                 else long List (b - 0xF7) s))"

definition kind_result :: "stream \<Rightarrow> (rlp_kind \<times> u64) sres" where
  "kind_result s =
     (case kinderr s of
        Some e \<Rightarrow> Inl e
      | None \<Rightarrow> Inr (case kind s of Some k \<Rightarrow> k | None \<Rightarrow> Byte, ssize s), s)"

definition s_Kind :: "stream \<Rightarrow> (rlp_kind \<times> u64) sres" where
  "s_Kind s =
     (if kind s \<noteq> None then kind_result s
      else let s = s\<lparr>kinderr := None\<rparr>
           in if stack s \<noteq> [] \<and> pos (hd (stack s)) = lsize (hd (stack s)) then (Inl EOL, s)
              else case s_readKind s of
                ((k, n, err), s) \<Rightarrow>
                  (let err' = (if err \<noteq> None then err
                               else if stack s = [] then
                                 (if limited s \<and> remaining s < n then Some ErrValueTooLarge else None)
                               else if lsize (hd (stack s)) - pos (hd (stack s)) < n
                               then Some ErrElemTooLarge else None)
                   in kind_result (s\<lparr>kind := Some k, ssize := n, kinderr := err'\<rparr>)))"

section \<open>Operations\<close>

definition s_Bytes :: "stream \<Rightarrow> bytes sres" where
  "s_Bytes s =
     (case s_Kind s of
        (Inl e, s) \<Rightarrow> (Inl e, s)
      | (Inr (Byte, n), s) \<Rightarrow> (Inr [byteval s], s\<lparr>kind := None\<rparr>)
      | (Inr (String, n), s) \<Rightarrow>
          (case readFull (unat n) s of
             (Some e, _, s) \<Rightarrow> (Inl e, s)
           | (None, b, s) \<Rightarrow> (if n = 1 \<and> b ! 0 < 128 then Inl ErrCanonSize else Inr b, s))
      | (Inr (List, n), s) \<Rightarrow> (Inl ErrExpectedString, s))"

definition s_Raw :: "stream \<Rightarrow> bytes sres" where
  "s_Raw s =
     (case s_Kind s of
        (Inl e, s) \<Rightarrow> (Inl e, s)
      | (Inr (k, n), s) \<Rightarrow>
          (if k = Byte then (Inr [byteval s], s\<lparr>kind := None\<rparr>)
           else let start = headsize n
                in case readFull (unat n) s of
                     (Some e, _, s) \<Rightarrow> (Inl e, s)
                   | (None, b, s) \<Rightarrow>
                       (case (if k = String then puthead (replicate start 0 @ b) 0x80 0xB7 n
                              else puthead (replicate start 0 @ b) 0xC0 0xF7 n) of
                          None \<Rightarrow> (Inl GoPanic, s)
                        | Some (buf, _) \<Rightarrow> (Inr buf, s))))"

definition s_uint :: "nat \<Rightarrow> stream \<Rightarrow> u64 sres" where
  "s_uint maxbits s =
     (case s_Kind s of
        (Inl e, s) \<Rightarrow> (Inl e, s)
      | (Inr (Byte, n), s) \<Rightarrow>
          (if byteval s = 0 then (Inl ErrCanonInt, s)
           else (Inr (ucast (byteval s)), s\<lparr>kind := None\<rparr>))
      | (Inr (String, n), s) \<Rightarrow>
          (if of_nat (maxbits div 8) < n then (Inl ErrUintOverflow, s)
           else case readUint (ucast n) s of
                  (Inl e, s) \<Rightarrow> (Inl (if e = ErrCanonSize then ErrCanonInt else e), s)
                | (Inr v, s) \<Rightarrow> (if 0 < n \<and> v < 128 then Inl ErrCanonSize else Inr v, s))
      | (Inr (List, n), s) \<Rightarrow> (Inl ErrExpectedString, s))"

definition s_Uint :: "stream \<Rightarrow> u64 sres" where
  "s_Uint s = s_uint 64 s"

definition s_Bool :: "stream \<Rightarrow> bool sres" where
  "s_Bool s =
     (case s_uint 8 s of
        (Inl e, s) \<Rightarrow> (Inl e, s)
      | (Inr num, s) \<Rightarrow>
          (if num = 0 then Inr False else if num = 1 then Inr True else Inl (ErrInvalidBool num), s))"

definition s_List :: "stream \<Rightarrow> u64 sres" where
  "s_List s =
     (case s_Kind s of
        (Inl e, s) \<Rightarrow> (Inl e, s)
      | (Inr (k, n), s) \<Rightarrow>
          (if k \<noteq> List then (Inl ErrExpectedList, s)
           else (Inr n, s\<lparr>stack := \<lparr>pos = 0, lsize = n\<rparr> # stack s, kind := None, ssize := 0\<rparr>)))"

definition s_ListEnd :: "stream \<Rightarrow> unit sres" where
  "s_ListEnd s =
     (case stack s of
        [] \<Rightarrow> (Inl ErrNotInList, s)
      | tos # st \<Rightarrow>
          (if pos tos \<noteq> lsize tos then (Inl ErrNotAtEOL, s)
           else (Inr (), s\<lparr>stack := (case st of [] \<Rightarrow> []
                                             | t # st' \<Rightarrow> t\<lparr>pos := pos t + lsize tos\<rparr> # st'),
                           kind := None, ssize := 0\<rparr>)))"

end
