(* ===== verification/RlpStreamLaws.thy ===== *)
theory RlpStreamLaws
  imports RlpStream
begin

text \<open>
  Laws of the stream operations on well-formed input. \<open>ahead s p r\<close>: the stream is between two
  values, the next bytes are \<open>p\<close> followed by \<open>r\<close>, and the limits allow \<open>p\<close> to be
  read. \<open>consumed s n s'\<close>: \<open>s'\<close> is \<open>s\<close> with \<open>n\<close> bytes read, up to the
  scratch fields. Each operation reads exactly the canonical encoding it is for.
\<close>

section \<open>Room and consumption\<close>

primrec bump :: "nat \<Rightarrow> listpos list \<Rightarrow> listpos list" where
  "bump n [] = []"
| "bump n (t # st) = t\<lparr>pos := pos t + of_nat n\<rparr> # st"

definition fits :: "nat \<Rightarrow> stream \<Rightarrow> bool" where
  "fits n s \<longleftrightarrow> n < 2 ^ 63 \<and> (limited s \<longrightarrow> n \<le> unat (remaining s))
     \<and> (case stack s of [] \<Rightarrow> True | t # _ \<Rightarrow> unat (pos t) + n \<le> unat (lsize t))"

definition took :: "nat \<Rightarrow> stream \<Rightarrow> stream" where
  "took n s = s\<lparr>kind := None, stack := bump n (stack s),
     remaining := (if limited s then remaining s - of_nat n else remaining s)\<rparr>"

definition consumed :: "stream \<Rightarrow> nat \<Rightarrow> stream \<Rightarrow> bool" where
  "consumed s n s' \<longleftrightarrow>
     kind s' = None \<and> length (uintbuf s') = 8 \<and> rdr s' = drop n (rdr s)
     \<and> limited s' = limited s \<and> remaining s' = remaining (took n s) \<and> stack s' = bump n (stack s)"

definition ahead :: "stream \<Rightarrow> bytes \<Rightarrow> bytes \<Rightarrow> bool" where
  "ahead s p r \<longleftrightarrow>
     kind s = None \<and> length (uintbuf s) = 8 \<and> rdr s = p @ r \<and> fits (length p) s"

lemma unat_of_nat64 [simp]: "n < 2 ^ 64 \<Longrightarrow> unat (of_nat n :: u64) = n"
  by (simp add: unat_of_nat take_bit_eq_mod)

lemma unat_add64: "unat a + n \<le> unat (b :: u64) \<Longrightarrow> unat (a + of_nat n :: u64) = unat a + n"
proof -
  assume a: "unat a + n \<le> unat b"
  have b: "unat b < 2 ^ 64" using unsigned_less [of b, where 'a = nat] by simp
  with a have "n < 2 ^ 64" "unat a + n < 2 ^ 64" by linarith+
  then show ?thesis by (simp add: unat_word_ariths)
qed

lemma unat_sub64: "n \<le> unat a \<Longrightarrow> unat (a - of_nat n :: u64) = unat a - n"
proof -
  assume a: "n \<le> unat a"
  have "unat a < 2 ^ 64" using unsigned_less [of a, where 'a = nat] by simp
  with a have n: "unat (of_nat n :: u64) = n" by simp
  with a have "(of_nat n :: u64) \<le> a" by (simp add: word_le_nat_alt)
  then show ?thesis using n by (simp add: unat_sub)
qed

lemma less_of_nat64: "n < 2 ^ 64 \<Longrightarrow> a < (of_nat n :: u64) \<longleftrightarrow> unat a < n"
  by (simp add: word_less_nat_alt)

lemma unat_sub_word: "b \<le> a \<Longrightarrow> unat (a - b :: u64) = unat a - unat b"
  by (simp add: unat_sub)

lemma willRead_fits: "fits n s \<Longrightarrow> willRead (of_nat n) s = (None, took n s)"
proof -
  assume f: "fits n s"
  have n: "n < 2 ^ 64" using f by (simp add: fits_def)
  have room: "\<not> lsize t - pos t < of_nat n" if "stack s = t # st" for t st
  proof -
    have "pos t \<le> lsize t" "n \<le> unat (lsize t) - unat (pos t)"
      using f that by (auto simp: fits_def word_le_nat_alt)
    then show ?thesis using n by (simp add: less_of_nat64 unat_sub_word)
  qed
  show ?thesis
    using f n room
    by (cases "stack s") (auto simp: willRead_def took_def Let_def fits_def less_of_nat64)
qed

lemma willRead_kind [simp]: "willRead n (s\<lparr>kind := k\<rparr>) = willRead n s"
  by (simp add: willRead_def)

lemma read_kind [simp]:
  "readByte (s\<lparr>kind := k\<rparr>) = readByte s" "readFull n (s\<lparr>kind := k\<rparr>) = readFull n s"
  by (simp_all add: readByte_def readFull_def)

lemma took_simps [simp]:
  "rdr (took n s) = rdr s" "uintbuf (took n s) = uintbuf s" "limited (took n s) = limited s"
  "stack (took n s) = bump n (stack s)" "kind (took n s) = None" "byteval (took n s) = byteval s"
  by (simp_all add: took_def)

lemma bump_bump [simp]: "bump m (bump n st) = bump (n + m) st"
  by (cases st) simp_all

lemma bump_0 [simp]: "bump 0 st = st"
  by (cases st) simp_all

lemma fits_took:
  assumes "fits (m + n) s"
  shows "fits n (took m s)"
proof -
  have "unat (pos t + of_nat m) + n \<le> unat (lsize t)" if "stack s = t # st" for t st
    using assms that unat_add64 [of "pos t" m "lsize t"] by (simp add: fits_def)
  with assms show ?thesis
    unfolding fits_def by (cases "stack s") (auto simp: took_def unat_sub64)
qed

lemma fits_mono: "fits n s \<Longrightarrow> m \<le> n \<Longrightarrow> fits m s"
  unfolding fits_def by (cases "stack s") auto

lemma consumed_trans:
  "consumed s m s1 \<Longrightarrow> consumed s1 n s2 \<Longrightarrow> consumed s (m + n) s2"
  by (auto simp: consumed_def took_def add.commute)

lemma ahead_consumed:
  assumes "ahead s (p @ q) r" and "consumed s (length p) s'"
  shows "ahead s' q r"
proof -
  have "fits (length q) (took (length p) s)" using assms(1) by (intro fits_took) (simp add: ahead_def)
  then have "fits (length q) s'"
    using assms(2) unfolding fits_def consumed_def took_def by simp
  with assms show ?thesis by (simp add: ahead_def consumed_def)
qed

lemma ahead_kind: "ahead s p r \<Longrightarrow> ahead (s\<lparr>kind := None\<rparr>) p r"
  by (simp add: ahead_def fits_def)

lemma ahead_append: "ahead s (p @ q) r \<Longrightarrow> ahead s p (q @ r)"
  using fits_mono [of "length (p @ q)" s "length p"] by (auto simp: ahead_def)

section \<open>Raw reads\<close>

lemma readByte_ahead:
  "fits 1 s \<Longrightarrow> rdr s = b # r \<Longrightarrow> readByte s = (Inr b, (took 1 s)\<lparr>rdr := r\<rparr>)"
  using willRead_fits [of 1 s] by (simp add: readByte_def)

lemma fill_loop_all: "length d = n \<Longrightarrow> fill_loop n (d @ r) = (None, d, r)"
  by (subst fill_loop.simps) (auto simp: Reader_Read_def fill_loop.simps)

lemma readFull_ahead:
  "fits (length d) s \<Longrightarrow> rdr s = d @ r \<Longrightarrow> n = length d \<Longrightarrow>
     readFull n s = (None, d, (took n s)\<lparr>rdr := r\<rparr>)"
  using willRead_fits [of "length d" s] by (simp add: readFull_def fill_loop_all)

lemma be_val_zeros: "be_val (replicate k 0 @ d) = be_val d"
  by (simp add: be_val_def le_val_append)

lemma readUint_ahead:
  assumes "n < 2 ^ 64" and "0 < n" and "ahead (s\<lparr>kind := None\<rparr>) (be_bytes n) r"
  shows "\<exists>s'. readUint (of_nat (length (be_bytes n))) s = (Inr (of_nat n), s')
    \<and> consumed s (length (be_bytes n)) s' \<and> byteval s' = byteval s"
proof -
  let ?d = "be_bytes n" and ?m = "length (be_bytes n)"
  have m: "1 \<le> ?m" "?m \<le> 8"
    using assms(1,2) by (simp_all add: length_be_bytes_le_iff Suc_le_eq)
  have s: "fits ?m s" "rdr s = ?d @ r" "length (uintbuf s) = 8"
    using assms(3) by (simp_all add: ahead_def fits_def)
  have u: "unat (of_nat ?m :: byte) = ?m" using m(2) by (simp add: unat_of_nat take_bit_eq_mod)
  show ?thesis
  proof (cases "?m = 1")
    case True
    then obtain b where b: "?d = [b]" by (auto simp: length_Suc_conv)
    have "(ucast b :: u64) = of_nat (be_val ?d)" by (simp add: b be_val_def)
    then have "(ucast b :: u64) = of_nat n" by simp
    with s b True show ?thesis
      by (simp add: readUint_def readByte_ahead consumed_def)
  next
    case False
    with m have ne: "(of_nat ?m :: byte) \<noteq> 0" "(of_nat ?m :: byte) \<noteq> 1"
      using u assms(2) by (auto simp: word_unat_eq_iff)
    have start: "unat (8 - of_nat ?m :: byte) = 8 - ?m"
      using m(2) u by (simp add: unat_sub word_le_nat_alt)
    have rf: "readFull ?m s = (None, ?d, (took ?m s)\<lparr>rdr := r\<rparr>)"
      using s by (intro readFull_ahead) simp_all
    have nz: "(replicate (8 - ?m) 0 @ ?d) ! (8 - ?m) \<noteq> 0"
      using hd_be_bytes [of n] assms(2) m by (simp add: nth_append hd_conv_nth)
    have v: "of_nat (be_val (replicate (8 - ?m) 0 @ ?d)) = (of_nat n :: u64)"
      by (simp add: be_val_zeros)
    show ?thesis
      using ne start rf nz v m s(2,3)
      by (simp add: readUint_def Let_def consumed_def del: be_val_be_bytes)
  qed
qed

section \<open>Headers\<close>

definition tags_of :: "rlp_kind \<Rightarrow> byte \<times> byte" where
  "tags_of k = (if k = List then (0xC0, 0xF7) else (0x80, 0xB7))"

lemma s_readKind_small:
  assumes "k \<noteq> Byte" and "tags_of k = (small, large)" and "n < 56" and "ahead s [small + of_nat n] r"
  shows "\<exists>s'. s_readKind s = ((k, of_nat n, None), s') \<and> consumed s 1 s'"
proof -
  have rb: "readByte s = (Inr (small + of_nat n), (took 1 s)\<lparr>rdr := r\<rparr>)"
    using assms(4) by (intro readByte_ahead) (simp_all add: ahead_def)
  have c: "consumed s 1 ((took 1 s)\<lparr>rdr := r, byteval := 0\<rparr>)"
    using assms(4) by (simp add: consumed_def ahead_def)
  have s: "unat (0x80 + of_nat n :: byte) = 128 + n" "unat (0xC0 + of_nat n :: byte) = 192 + n"
    using unat_tag [of 128 n] unat_tag [of 192 n] assms(3) by simp_all
  have u: "(ucast (of_nat n :: byte) :: u64) = of_nat n"
    using byte_diff(2) [of "0x80 + of_nat n" 128 n] s(1) assms(3) by simp
  show ?thesis
    using assms(1,2,3) rb c
    by (cases k) (auto simp: s_readKind_def tags_of_def Let_def word_less_nat_alt s u)
qed

lemma s_readKind_large:
  assumes "k \<noteq> Byte" and "tags_of k = (small, large)" and "56 \<le> n" and "n < 2 ^ 63"
    and "ahead s ((large + of_nat (length (be_bytes n))) # be_bytes n) r"
  shows "\<exists>s'. s_readKind s = ((k, of_nat n, None), s') \<and> consumed s (Suc (length (be_bytes n))) s'"
proof -
  let ?m = "length (be_bytes n)" and ?b = "large + of_nat (length (be_bytes n)) :: byte"
  let ?s1 = "(took 1 s)\<lparr>rdr := be_bytes n @ r, byteval := 0\<rparr>"
  have m: "1 \<le> ?m" "?m \<le> 8"
    using assms(3,4) by (simp_all add: length_be_bytes_le_iff Suc_le_eq)
  have rb: "readByte s = (Inr ?b, (took 1 s)\<lparr>rdr := be_bytes n @ r\<rparr>)"
    using assms(5) fits_mono [of "Suc ?m" s 1] by (intro readByte_ahead) (simp_all add: ahead_def)
  have c1: "consumed s 1 ?s1"
    using assms(5) by (simp add: consumed_def ahead_def)
  have "ahead s ([?b] @ be_bytes n) r" using assms(5) by simp
  then have "ahead ?s1 (be_bytes n) r" by (rule ahead_consumed) (use c1 in simp)
  with assms obtain s' where s': "readUint (of_nat ?m) ?s1 = (Inr (of_nat n), s')"
      "consumed ?s1 ?m s'"
    using readUint_ahead [of n ?s1 r, OF _ _ ahead_kind] by auto
  have c: "consumed s (Suc ?m) s'" using consumed_trans [OF c1 s'(2)] by simp
  have u: "unat (0xB7 + of_nat ?m :: byte) = 183 + ?m" "unat (0xF7 + of_nat ?m :: byte) = 247 + ?m"
    using unat_tag [of 183 ?m] unat_tag [of 247 ?m] m by simp_all
  have "\<not> (of_nat n :: u64) < 56" using assms(3,4) of_nat_less_56 [of n] by simp
  then show ?thesis
    using assms(1-3) rb s'(1) c m
    by (cases k) (auto simp: s_readKind_def tags_of_def Let_def word_less_nat_alt u)
qed

lemma s_readKind_head:
  assumes "k \<noteq> Byte" and "tags_of k = (small, large)" and "n < 2 ^ 63"
    and "ahead s (enc_head small large n) r"
  shows "\<exists>s'. s_readKind s = ((k, of_nat n, None), s') \<and> consumed s (length (enc_head small large n)) s'"
  using s_readKind_small [OF assms(1,2), of n s r] s_readKind_large [OF assms(1,2) _ assms(3), of s r]
    assms(4)
  by (cases "n < 56") (simp_all add: enc_head_def)

lemma not_EOL: "ahead s p r \<Longrightarrow> p \<noteq> [] \<Longrightarrow> \<not> (stack s \<noteq> [] \<and> pos (hd (stack s)) = lsize (hd (stack s)))"
  by (cases "stack s") (auto simp: ahead_def fits_def)

lemma enc_kind_header:
  "k \<noteq> Byte \<Longrightarrow> kind_ok k c \<Longrightarrow> enc_kind k c = enc_head (fst (tags_of k)) (snd (tags_of k)) (length c) @ c"
  by (cases k) (simp_all add: kind_ok_def enc_kind_def enc_str_def enc_list_def tags_of_def)

lemma s_Kind_header:
  assumes "k \<noteq> Byte" and "kind_ok k c" and "ahead s (enc_kind k c) r"
  shows "\<exists>s1. s_Kind s = (Inr (k, of_nat (length c)), s1) \<and> kind s1 = Some k
    \<and> kinderr s1 = None \<and> ahead (s1\<lparr>kind := None\<rparr>) c r
    \<and> consumed s (length (enc_kind k c) - length c) (s1\<lparr>kind := None\<rparr>)"
proof -
  let ?h = "enc_head (fst (tags_of k)) (snd (tags_of k)) (length c)"
  have e: "enc_kind k c = ?h @ c" using assms(1,2) by (rule enc_kind_header)
  have a: "ahead s (?h @ c) r" using assms(3) unfolding e .
  have n: "length c < 2 ^ 63" using a by (simp add: ahead_def fits_def)
  let ?s0 = "s\<lparr>kinderr := None\<rparr>"
  have a0: "ahead ?s0 (?h @ c) r" using a by (simp add: ahead_def fits_def)
  obtain s' where s': "s_readKind ?s0 = ((k, of_nat (length c), None), s')" "consumed ?s0 (length ?h) s'"
    using s_readKind_head [OF assms(1) _ n ahead_append [OF a0]] by auto
  have a': "ahead s' c r" by (rule ahead_consumed [OF a0 s'(2)])
  have room: "\<not> (limited s' \<and> remaining s' < of_nat (length c))"
      "stack s' = t # st \<Longrightarrow> \<not> lsize t - pos t < of_nat (length c)" for t st
    using a' n by (auto simp: ahead_def fits_def less_of_nat64 unat_sub_word word_le_nat_alt)
  let ?s1 = "s'\<lparr>kind := Some k, ssize := of_nat (length c), kinderr := None\<rparr>"
  have "?h @ c \<noteq> []" by (simp add: enc_head_def)
  from not_EOL [OF a0 this] have "s_Kind s = (Inr (k, of_nat (length c)), ?s1)"
    using a room s'(1) by (cases "stack s'") (auto simp: s_Kind_def kind_result_def Let_def ahead_def)
  moreover have "ahead (?s1\<lparr>kind := None\<rparr>) c r" using a' by (simp add: ahead_def fits_def)
  moreover have "consumed s (length ?h) (?s1\<lparr>kind := None\<rparr>)"
    using s'(2) by (simp add: consumed_def took_def)
  ultimately show ?thesis unfolding e by (intro exI [of _ ?s1]) simp
qed

lemma s_Kind_byte:
  assumes "single c" and "ahead s c r"
  shows "\<exists>s1. s_Kind s = (Inr (Byte, 0), s1) \<and> kind s1 = Some Byte \<and> kinderr s1 = None
    \<and> [byteval s1] = c \<and> consumed s 1 (s1\<lparr>kind := None\<rparr>)"
proof -
  obtain b where b: "c = [b]" "b < 0x80" using assms(1) by (auto simp: single_def length_Suc_conv)
  let ?s0 = "s\<lparr>kinderr := None\<rparr>"
  have a0: "ahead ?s0 [b] r" using assms(2) b by (simp add: ahead_def fits_def)
  have rb: "readByte ?s0 = (Inr b, (took 1 ?s0)\<lparr>rdr := r\<rparr>)"
    using a0 by (intro readByte_ahead) (simp_all add: ahead_def)
  let ?s1 = "(took 1 ?s0)\<lparr>rdr := r, byteval := b, kind := Some Byte, ssize := 0, kinderr := None\<rparr>"
  have "s_Kind s = (Inr (Byte, 0), ?s1)"
    using not_EOL [OF a0] rb b(2) a0 by (auto simp: s_Kind_def kind_result_def s_readKind_def Let_def ahead_def)
  moreover have "consumed s 1 (?s1\<lparr>kind := None\<rparr>)"
    using a0 by (simp add: consumed_def took_def ahead_def)
  ultimately show ?thesis using b by (intro exI [of _ ?s1]) simp
qed

section \<open>Operations on canonical input\<close>

lemma took_kind: "took n (s\<lparr>kind := k\<rparr>) = took n s"
  by (simp add: took_def)

lemma consumed_took:
  assumes "ahead (s1\<lparr>kind := None\<rparr>) c r"
  shows "consumed (s1\<lparr>kind := None\<rparr>) (length c) ((took (length c) s1)\<lparr>rdr := r\<rparr>)"
  using assms by (simp add: consumed_def ahead_def took_def)

lemma readFull_after_Kind:
  assumes "ahead (s1\<lparr>kind := None\<rparr>) c r"
  shows "readFull (unat (of_nat (length c) :: u64)) s1 = (None, c, (took (length c) s1)\<lparr>rdr := r\<rparr>)"
proof -
  have "fits (length c) s1" "rdr s1 = c @ r" using assms by (simp_all add: ahead_def fits_def)
  then show ?thesis by (simp add: readFull_ahead fits_def)
qed

lemma of_nat_eq_1: "n < 2 ^ 63 \<Longrightarrow> (of_nat n :: u64) = 1 \<longleftrightarrow> n = 1"
  by (simp add: word_unat_eq_iff unat_of_nat take_bit_eq_mod)

lemma s_Bytes_ahead:
  assumes "ahead s (enc_str b) r"
  shows "\<exists>s'. s_Bytes s = (Inr b, s') \<and> consumed s (length (enc_str b)) s'"
proof (cases "single b")
  case True
  with assms have "ahead s b r" by (simp add: enc_str_def)
  from s_Kind_byte [OF True this] obtain s1 where s1: "s_Kind s = (Inr (Byte, 0), s1)"
    "[byteval s1] = b" "consumed s 1 (s1\<lparr>kind := None\<rparr>)" by auto
  have "length (enc_str b) = 1" using True by (simp add: enc_str_def single_def)
  with s1 show ?thesis by (simp add: s_Bytes_def)
next
  case False
  then have k: "kind_ok String b" "enc_kind String b = enc_str b"
    by (simp_all add: kind_ok_def enc_kind_def)
  then obtain s1 where s1: "s_Kind s = (Inr (String, of_nat (length b)), s1)"
      "ahead (s1\<lparr>kind := None\<rparr>) b r" "consumed s (length (enc_str b) - length b) (s1\<lparr>kind := None\<rparr>)"
    using s_Kind_header [of String b s r] assms by auto
  have len: "length b < 2 ^ 63" "length b \<le> length (enc_str b)"
    using s1(2) False by (simp_all add: ahead_def fits_def enc_str_def)
  have "consumed s (length (enc_str b)) ((took (length b) s1)\<lparr>rdr := r\<rparr>)"
    using consumed_trans [OF s1(3) consumed_took [OF s1(2)]] len by simp
  moreover have "\<not> (of_nat (length b) = (1 :: u64) \<and> b ! 0 < 128)"
    using False len(1) by (simp add: of_nat_eq_1 single_def)
  ultimately show ?thesis
    using s1(1) readFull_after_Kind [OF s1(2)] by (auto simp: s_Bytes_def)
qed

lemma s_Raw_ahead:
  assumes "kind_ok k c" and "ahead s (enc_kind k c) r"
  shows "\<exists>s'. s_Raw s = (Inr (enc_kind k c), s') \<and> consumed s (length (enc_kind k c)) s'"
proof (cases "k = Byte")
  case True
  with assms have c: "single c" "enc_kind k c = c"
    by (simp_all add: kind_ok_def enc_kind_def enc_str_def)
  with assms obtain s1 where s1: "s_Kind s = (Inr (Byte, 0), s1)"
    "[byteval s1] = c" "consumed s 1 (s1\<lparr>kind := None\<rparr>)"
    using s_Kind_byte [of c s r] by auto
  have "length c = 1" using c by (simp add: single_def)
  with s1 c show ?thesis by (simp add: s_Raw_def)
next
  case False
  obtain s1 where s1: "s_Kind s = (Inr (k, of_nat (length c)), s1)"
      "ahead (s1\<lparr>kind := None\<rparr>) c r" "consumed s (length (enc_kind k c) - length c) (s1\<lparr>kind := None\<rparr>)"
    using s_Kind_header [OF False assms] by auto
  have len: "length c < 2 ^ 63" using s1(2) by (simp add: ahead_def fits_def)
  let ?h = "enc_head (fst (tags_of k)) (snd (tags_of k)) (length c)"
  have e: "enc_kind k c = ?h @ c" using False assms(1) by (rule enc_kind_header)
  have "headsize (of_nat (length c)) = length ?h" using len by (intro headsize_of_nat) simp
  moreover have "puthead (replicate (length ?h) 0 @ c) (fst (tags_of k)) (snd (tags_of k)) (of_nat (length c)) =
      Some (?h @ c, length ?h)"
    using len by (subst puthead_of_nat) simp_all
  moreover have "consumed s (length (enc_kind k c)) ((took (length c) s1)\<lparr>rdr := r\<rparr>)"
    using consumed_trans [OF s1(3) consumed_took [OF s1(2)]] e by simp
  ultimately show ?thesis
    using s1(1) readFull_after_Kind [OF s1(2)] False unfolding e
    by (cases k) (auto simp: s_Raw_def tags_of_def Let_def)
qed

lemma s_uint_ahead:
  assumes "n < 2 ^ 64" and "length (be_bytes n) \<le> maxbits div 8" and "maxbits \<le> 64"
    and "ahead s (enc_str (be_bytes n)) r"
  shows "\<exists>s'. s_uint maxbits s = (Inr (of_nat n), s') \<and> consumed s (length (enc_str (be_bytes n))) s'"
proof (cases "single (be_bytes n)")
  case True
  with assms have "ahead s (be_bytes n) r" by (simp add: enc_str_def)
  from s_Kind_byte [OF True this] obtain s1 where s1: "s_Kind s = (Inr (Byte, 0), s1)"
    "[byteval s1] = be_bytes n" "consumed s 1 (s1\<lparr>kind := None\<rparr>)" by auto
  have "length (enc_str (be_bytes n)) = 1" using True by (simp add: enc_str_def single_def)
  moreover have "n = unat (byteval s1)"
    using be_val_be_bytes [of n] unfolding s1(2) [symmetric] by (simp add: be_val_def)
  moreover have "byteval s1 \<noteq> 0"
    using True [unfolded single_be_bytes] hd_be_bytes [of n] s1(2) [symmetric] by simp
  ultimately show ?thesis using s1 by (simp add: s_uint_def)
next
  case False
  let ?d = "be_bytes n"
  have "kind_ok String ?d" "enc_kind String ?d = enc_str ?d"
    using False by (simp_all add: kind_ok_def enc_kind_def)
  then obtain s1 where s1: "s_Kind s = (Inr (String, of_nat (length ?d)), s1)"
      "ahead (s1\<lparr>kind := None\<rparr>) ?d r" "consumed s (length (enc_str ?d) - length ?d) (s1\<lparr>kind := None\<rparr>)"
    using s_Kind_header [of String ?d s r] assms by auto
  have m: "length ?d \<le> 8" using assms(1) by (simp add: length_be_bytes_le_iff)
  have ov: "\<not> of_nat (maxbits div 8) < (of_nat (length ?d) :: u64)"
    using assms(2,3) m by (simp add: less_of_nat64 unat_of_nat take_bit_eq_mod)
  have uc: "(ucast (of_nat (length ?d) :: u64) :: byte) = of_nat (length ?d)"
    by (rule ucast_of_nat_byte)
  have tot: "length (enc_str ?d) - length ?d + length ?d = length (enc_str ?d)"
    using False by (simp add: enc_str_def)
  show ?thesis
  proof (cases "n = 0")
    case True
    with s1 ov show ?thesis by (simp add: s_uint_def readUint_def)
  next
    case False
    obtain s' where s': "readUint (of_nat (length ?d)) s1 = (Inr (of_nat n), s')"
        "consumed s1 (length ?d) s'"
      using readUint_ahead [OF assms(1) _ s1(2)] False by auto
    have "128 \<le> n" using \<open>\<not> single ?d\<close> False by (simp add: single_be_bytes)
    then have "\<not> (of_nat n :: u64) < 128" using assms(1) by (simp add: word_less_nat_alt)
    moreover have "consumed (s1\<lparr>kind := None\<rparr>) (length ?d) s'"
      using s'(2) by (simp add: consumed_def took_def)
    from consumed_trans [OF s1(3) this] have "consumed s (length (enc_str ?d)) s'"
      by (simp add: tot)
    ultimately show ?thesis
      using s1(1) ov s'(1) by (simp add: s_uint_def uc)
  qed
qed

lemma s_Bool_ahead:
  assumes "ahead s (enc_str (if b then [1] else [])) r"
  shows "\<exists>s'. s_Bool s = (Inr b, s') \<and> consumed s (length (enc_str (if b then [1] else []))) s'"
proof -
  have e: "be_bytes (of_bool b) = (if b then [1] else [])" by (simp add: be_bytes_small)
  show ?thesis
    using s_uint_ahead [of "of_bool b" 8 s r] assms unfolding e by (cases b) (auto simp: s_Bool_def)
qed

section \<open>Lists\<close>

text \<open>The stream just inside a list with content \<open>c\<close> that started where \<open>s\<close> is.\<close>

definition inside :: "stream \<Rightarrow> bytes \<Rightarrow> bytes \<Rightarrow> stream \<Rightarrow> bool" where
  "inside s c r s' \<longleftrightarrow> ahead s' c r \<and>
     (\<exists>s1. consumed s (length (enc_list c) - length c) s1 \<and> rdr s' = rdr s1 \<and> limited s' = limited s1
       \<and> remaining s' = remaining s1 \<and> stack s' = \<lparr>pos = 0, lsize = of_nat (length c)\<rparr> # stack s1)"

lemma s_List_ahead:
  assumes "ahead s (enc_list c) r"
  shows "\<exists>s'. s_List s = (Inr (of_nat (length c)), s') \<and> inside s c r s'"
proof -
  obtain s1 where s1: "s_Kind s = (Inr (List, of_nat (length c)), s1)"
      "ahead (s1\<lparr>kind := None\<rparr>) c r" "consumed s (length (enc_list c) - length c) (s1\<lparr>kind := None\<rparr>)"
    using s_Kind_header [of List c s r] assms by (auto simp: kind_ok_def enc_kind_def)
  let ?s' = "s1\<lparr>stack := \<lparr>pos = 0, lsize = of_nat (length c)\<rparr> # stack s1, kind := None, ssize := 0\<rparr>"
  have "ahead ?s' c r" using s1(2) by (simp add: ahead_def fits_def)
  with s1 show ?thesis by (auto simp: s_List_def inside_def intro!: exI [of _ "s1\<lparr>kind := None\<rparr>"])
qed

lemma s_ListEnd_inside:
  assumes "inside s c r s'" and "consumed s' (length c) s''"
  shows "\<exists>s3. s_ListEnd s'' = (Inr (), s3) \<and> consumed s (length (enc_list c)) s3"
proof -
  obtain s1 where s1: "consumed s (length (enc_list c) - length c) s1" "rdr s' = rdr s1"
      "limited s' = limited s1" "remaining s' = remaining s1"
      "stack s' = \<lparr>pos = 0, lsize = of_nat (length c)\<rparr> # stack s1"
    using assms(1) unfolding inside_def by blast
  let ?s3 = "s''\<lparr>stack := bump (length c) (stack s1), kind := None, ssize := 0\<rparr>"
  have st: "stack s'' = \<lparr>pos = of_nat (length c), lsize = of_nat (length c)\<rparr> # stack s1"
    using assms(2) unfolding consumed_def s1(5) by simp
  have "s_ListEnd s'' = (Inr (), ?s3)"
    unfolding s_ListEnd_def st by (cases "stack s1") simp_all
  moreover have "consumed s1 (length c) ?s3"
    using assms(2) unfolding consumed_def took_def by (simp add: s1(2-4))
  from consumed_trans [OF s1(1) this] have "consumed s (length (enc_list c)) ?s3"
    by (simp add: enc_list_def)
  ultimately show ?thesis by blast
qed

text \<open>At the end of a list \<open>s_Kind\<close> reports \<open>EOL\<close> and nothing moves.\<close>

lemma s_Kind_EOL:
  assumes "inside s c r s'" and "consumed s' (length c) s''"
  shows "s_Kind s'' = (Inl EOL, s''\<lparr>kinderr := None\<rparr>)"
proof -
  obtain s1 :: stream where "stack s' = \<lparr>pos = 0, lsize = of_nat (length c)\<rparr> # stack s1"
    using assms(1) unfolding inside_def by blast
  then have "stack s'' = \<lparr>pos = of_nat (length c), lsize = of_nat (length c)\<rparr> # stack s1"
      "kind s'' = None"
    using assms(2) unfolding consumed_def by simp_all
  then show ?thesis by (simp add: s_Kind_def kind_result_def Let_def)
qed

end
