(* ===== verification/RlpDecode.thy ===== *)
theory RlpDecode
  imports RlpStream RlpTypes
begin

text \<open>
  The typed decoders of \<^verbatim>\<open>src/rlp/decode.go\<close>. A decoder reads a value of its type from
  a stream into a fresh (zero) target and returns it; errors carry the context the code adds on
  the way out. The two loops whose length the type does not bound, over the elements of a slice and
  through nested \<^verbatim>\<open>interface{}\<close> values, count down from a bound just above the number
  of bytes left; \<open>NoFuel\<close> marks a loop that did not end within it.
\<close>

section \<open>Errors\<close>

datatype ctx = CtxIndex nat | CtxField string | CtxType gotype

datatype dec_error = Plain rlp_error | DecodeError string gotype "ctx list" | DType type_error | NoFuel

type_synonym decoder = "stream \<Rightarrow> (dec_error + goval) \<times> stream"

definition wrapStreamError :: "rlp_error \<Rightarrow> gotype \<Rightarrow> dec_error" where
  "wrapStreamError err t =
     (case err of
        ErrCanonInt \<Rightarrow> DecodeError ''non-canonical integer (leading zero bytes)'' t []
      | ErrCanonSize \<Rightarrow> DecodeError ''non-canonical size information'' t []
      | ErrExpectedList \<Rightarrow> DecodeError ''expected input list'' t []
      | ErrExpectedString \<Rightarrow> DecodeError ''expected input string or byte'' t []
      | ErrUintOverflow \<Rightarrow> DecodeError ''input string too long'' t []
      | ErrNotAtEOL \<Rightarrow> DecodeError ''input list has too many elements'' t []
      | _ \<Rightarrow> Plain err)"

fun addErrorContext :: "dec_error \<Rightarrow> ctx \<Rightarrow> dec_error" where
  "addErrorContext (DecodeError msg t cs) c = DecodeError msg t (cs @ [c])"
| "addErrorContext e c = e"

text \<open>\<open>val.Set\<dots>(f x)\<close> after a stream operation, its error wrapped for type \<open>t\<close>.\<close>

definition set_from :: "gotype \<Rightarrow> ('a \<Rightarrow> goval) \<Rightarrow> 'a sres \<Rightarrow> (dec_error + goval) \<times> stream" where
  "set_from t f r = (case r of (Inl e, s) \<Rightarrow> (Inl (wrapStreamError e t), s) | (Inr x, s) \<Rightarrow> (Inr (f x), s))"

section \<open>Decoders of atomic types\<close>

definition decodeRawValue :: decoder where
  "decodeRawValue s = (case s_Raw s of (Inl e, s) \<Rightarrow> (Inl (Plain e), s) | (Inr b, s) \<Rightarrow> (Inr (VRaw b), s))"

definition decodeUint :: "nat \<Rightarrow> decoder" where
  "decodeUint bits s = set_from (TUint bits) VUint (s_uint bits s)"

text \<open>\<^verbatim>\<open>SetInt(int64(num))\<close> keeps the low bits of the field's width, sign-extended.\<close>

definition int_of_bits :: "nat \<Rightarrow> u64 \<Rightarrow> u64" where
  "int_of_bits k v =
     (if k = 8 then scast (ucast v :: 8 word)
      else if k = 16 then scast (ucast v :: 16 word)
      else if k = 32 then scast (ucast v :: 32 word)
      else v)"

definition decodeInt :: "nat \<Rightarrow> decoder" where
  "decodeInt bits s = set_from (TInt bits) (\<lambda>v. VInt (int_of_bits bits v)) (s_uint bits s)"

definition decodeBool :: decoder where
  "decodeBool s = set_from TBool VBool (s_Bool s)"

definition decodeString :: decoder where
  "decodeString s = set_from TString VString (s_Bytes s)"

definition decodeNumberPtr :: decoder where
  "decodeNumberPtr s =
     set_from (TPtr TNumber) (\<lambda>b. VPtr (Some (VNum (V (SetBytes \<lparr>V = None\<rparr> b))))) (s_Bytes s)"

definition deref :: "(dec_error + goval) \<times> stream \<Rightarrow> (dec_error + goval) \<times> stream" where
  "deref r = (case r of (Inr (VPtr (Some v)), s) \<Rightarrow> (Inr v, s) | _ \<Rightarrow> r)"

definition decodeNumber :: decoder where
  "decodeNumber s = deref (decodeNumberPtr s)"

definition decodeBigInt :: decoder where
  "decodeBigInt s =
     (case s_Bytes s of
        (Inl e, s) \<Rightarrow> (Inl (wrapStreamError e (TPtr TBigInt)), s)
      | (Inr b, s) \<Rightarrow>
          (if b \<noteq> [] \<and> b ! 0 = 0 then (Inl (wrapStreamError ErrCanonInt (TPtr TBigInt)), s)
           else (Inr (VPtr (Some (VBig (int (be_val b))))), s)))"

definition decodeBigIntNoPtr :: decoder where
  "decodeBigIntNoPtr s = deref (decodeBigInt s)"

definition decodeByteSlice :: "gotype \<Rightarrow> decoder" where
  "decodeByteSlice t s = set_from t VBytes (s_Bytes s)"

text \<open>\<open>bv, _ := s.Uint()\<close> drops the error, and with it a zero byte stays the value ahead.\<close>

definition decodeByteArray :: "nat \<Rightarrow> decoder" where
  "decodeByteArray vlen s =
     (let t = TArray vlen (TUint 8)
      in case s_Kind s of
           (Inl e, s) \<Rightarrow> (Inl (Plain e), s)
         | (Inr (Byte, n), s) \<Rightarrow>
             (if vlen = 0 then (Inl (DecodeError ''input string too long'' t []), s)
              else if vlen > 1 then (Inl (DecodeError ''input string too short'' t []), s)
              else case s_Uint s of
                     (Inl _, s) \<Rightarrow> (Inr (VBytes [0]), s)
                   | (Inr bv, s) \<Rightarrow> (Inr (VBytes [ucast bv]), s))
         | (Inr (String, n), s) \<Rightarrow>
             (if of_nat vlen < n then (Inl (DecodeError ''input string too long'' t []), s)
              else if n < of_nat vlen then (Inl (DecodeError ''input string too short'' t []), s)
              else case readFull vlen s of
                     (Some e, _, s) \<Rightarrow> (Inl (Plain e), s)
                   | (None, b, s) \<Rightarrow>
                       (if n = 1 \<and> b ! 0 < 128 then (Inl (wrapStreamError ErrCanonSize t), s)
                        else (Inr (VBytes b), s)))
         | (Inr (List, n), s) \<Rightarrow> (Inl (wrapStreamError ErrExpectedString t), s))"

section \<open>Decoders of composite types\<close>

text \<open>The growth of the slice's capacity does not show in the value.\<close>

primrec decodeSliceElems :: "nat \<Rightarrow> decoder \<Rightarrow> nat \<Rightarrow> stream \<Rightarrow> (dec_error + goval list) \<times> stream" where
  "decodeSliceElems 0 elemdec i s = (Inl NoFuel, s)"
| "decodeSliceElems (Suc m) elemdec i s =
     (case elemdec s of
        (Inl e, s) \<Rightarrow> (if e = Plain EOL then (Inr [], s) else (Inl (addErrorContext e (CtxIndex i)), s))
      | (Inr v, s) \<Rightarrow>
          (case decodeSliceElems m elemdec (i + 1) s of
             (Inl e, s) \<Rightarrow> (Inl e, s)
           | (Inr vs, s) \<Rightarrow> (Inr (v # vs), s)))"

definition slice_bound :: "stream \<Rightarrow> nat" where
  "slice_bound s = length (rdr s) + 2"

text \<open>The errors of \<open>ListEnd\<close> are passed on as they are here.\<close>

definition decodeListSlice :: "gotype \<Rightarrow> decoder \<Rightarrow> decoder" where
  "decodeListSlice t elemdec s =
     (case s_List s of
        (Inl e, s) \<Rightarrow> (Inl (wrapStreamError e t), s)
      | (Inr n, s) \<Rightarrow>
          (case (if n = 0 then (Inr [], s) else decodeSliceElems (slice_bound s) elemdec 0 s) of
             (Inl e, s) \<Rightarrow> (Inl e, s)
           | (Inr vs, s) \<Rightarrow>
               (case s_ListEnd s of
                  (Inl e, s) \<Rightarrow> (Inl (Plain e), s)
                | (Inr _, s) \<Rightarrow> (Inr (VSeq vs), s))))"

text \<open>The loop of \<open>decodeListArray\<close> from element \<open>i\<close> on, \<open>k\<close> elements to go.\<close>

primrec decode_array_elems :: "gotype \<Rightarrow> nat \<Rightarrow> decoder \<Rightarrow> nat \<Rightarrow> stream \<Rightarrow> (dec_error + goval list) \<times> stream"
  where
  "decode_array_elems t 0 elemdec i s = (Inr [], s)"
| "decode_array_elems t (Suc k) elemdec i s =
     (case elemdec s of
        (Inl e, s) \<Rightarrow>
          (if e = Plain EOL then (Inl (DecodeError ''input list has too few elements'' t []), s)
           else (Inl (addErrorContext e (CtxIndex i)), s))
      | (Inr v, s) \<Rightarrow>
          (case decode_array_elems t k elemdec (i + 1) s of
             (Inl e, s) \<Rightarrow> (Inl e, s)
           | (Inr vs, s) \<Rightarrow> (Inr (v # vs), s)))"

definition decodeListArray :: "gotype \<Rightarrow> nat \<Rightarrow> decoder \<Rightarrow> decoder" where
  "decodeListArray t vlen elemdec s =
     (case s_List s of
        (Inl e, s) \<Rightarrow> (Inl (wrapStreamError e t), s)
      | (Inr n, s) \<Rightarrow>
          (case decode_array_elems t vlen elemdec 0 s of
             (Inl e, s) \<Rightarrow> (Inl e, s)
           | (Inr vs, s) \<Rightarrow>
               (case s_ListEnd s of
                  (Inl e, s) \<Rightarrow> (Inl (wrapStreamError e t), s)
                | (Inr _, s) \<Rightarrow> (Inr (VSeq vs), s))))"

text \<open>The loop over the fields of a struct: each decoder fills the field of its index.\<close>

primrec decode_fields :: "gofield list \<Rightarrow> (nat \<times> decoder) list \<Rightarrow> goval list \<Rightarrow> stream
    \<Rightarrow> (dec_error + goval list) \<times> stream" where
  "decode_fields fs [] vs s = (Inr vs, s)"
| "decode_fields fs (d # ds) vs s =
     (case d of (i, dec) \<Rightarrow>
       (case dec s of
          (Inl e, s) \<Rightarrow>
            (if e = Plain EOL then (Inl (DecodeError ''too few elements'' (TStruct fs) []), s)
             else (Inl (addErrorContext e (CtxField (fst (fs ! i)))), s))
        | (Inr v, s) \<Rightarrow> decode_fields fs ds (vs[i := v]) s))"

definition struct_decoder :: "gofield list \<Rightarrow> (nat \<times> decoder) list \<Rightarrow> decoder" where
  "struct_decoder fs ds s =
     (case s_List s of
        (Inl e, s) \<Rightarrow> (Inl (wrapStreamError e (TStruct fs)), s)
      | (Inr _, s) \<Rightarrow>
          (case decode_fields fs ds (map (\<lambda>(name, tag, exported, t). zero_val t) fs) s of
             (Inl e, s) \<Rightarrow> (Inl e, s)
           | (Inr vs, s) \<Rightarrow>
               (case s_ListEnd s of
                  (Inl e, s) \<Rightarrow> (Inl (wrapStreamError e (TStruct fs)), s)
                | (Inr _, s) \<Rightarrow> (Inr (VStruct vs), s))))"

definition ptr_decoder :: "decoder \<Rightarrow> decoder" where
  "ptr_decoder elemdec s = (case elemdec s of (Inl e, s) \<Rightarrow> (Inl e, s) | (Inr v, s) \<Rightarrow> (Inr (VPtr (Some v)), s))"

definition optional_ptr_decoder :: "decoder \<Rightarrow> decoder" where
  "optional_ptr_decoder elemdec s =
     (case s_Kind s of
        (Inl e, s) \<Rightarrow> (Inl (Plain e), s\<lparr>kind := None\<rparr>)
      | (Inr (k, n), s) \<Rightarrow>
          (if n = 0 \<and> k \<noteq> Byte then (Inr (VPtr None), s\<lparr>kind := None\<rparr>) else ptr_decoder elemdec s))"

primrec decodeInterface :: "nat \<Rightarrow> decoder" where
  "decodeInterface 0 s = (Inl NoFuel, s)"
| "decodeInterface (Suc m) s =
     (case s_Kind s of
        (Inl e, s) \<Rightarrow> (Inl (Plain e), s)
      | (Inr (k, n), s) \<Rightarrow>
          (if k = List then
             (case decodeListSlice (TSlice TInterface) (decodeInterface m) s of
                (Inl e, s) \<Rightarrow> (Inl e, s)
              | (Inr v, s) \<Rightarrow> (Inr (VIface (Some (TSlice TInterface, v))), s))
           else (case s_Bytes s of
                   (Inl e, s) \<Rightarrow> (Inl (Plain e), s)
                 | (Inr b, s) \<Rightarrow> (Inr (VIface (Some (TSlice (TUint 8), VBytes b))), s))))"

text \<open>The dispatch of \<open>makeDecoder\<close>, with the stream as an argument.\<close>

function makeDecoder :: "gotype \<Rightarrow> tags \<Rightarrow> decoder" where
  "makeDecoder t ts s =
     (if t = TRawValue then decodeRawValue s
      else if t = TPtr TBigInt then decodeBigInt s
      else if t = TBigInt then decodeBigIntNoPtr s
      else if t = TPtr TNumber then decodeNumberPtr s
      else if t = TNumber then decodeNumber s
      else case t of
        TUint k \<Rightarrow> decodeUint k s
      | TInt k \<Rightarrow> decodeInt k s
      | TBool \<Rightarrow> decodeBool s
      | TString \<Rightarrow> decodeString s
      | TArray n e \<Rightarrow>
          (if isByte e then decodeByteArray n s
           else decodeListArray t n (\<lambda>s. makeDecoder e no_tags s) s)
      | TSlice e \<Rightarrow>
          (if isByte e then decodeByteSlice t s
           else if tail ts then
             (case decodeSliceElems (slice_bound s) (\<lambda>s. makeDecoder e no_tags s) 0 s of
                (Inl err, s) \<Rightarrow> (Inl err, s)
              | (Inr vs, s) \<Rightarrow> (Inr (VSeq vs), s))
           else decodeListSlice t (\<lambda>s. makeDecoder e no_tags s) s)
      | TStruct fs \<Rightarrow>
          (case structFields genTypeInfo fs of
             Inl e \<Rightarrow> (Inl (DType e), s)
           | Inr fds \<Rightarrow> struct_decoder fs (map (\<lambda>(i, ft, fts). (i, \<lambda>s. makeDecoder ft fts s)) fds) s)
      | TPtr e \<Rightarrow>
          (if nilOK ts then optional_ptr_decoder (\<lambda>s. makeDecoder e no_tags s) s
           else ptr_decoder (\<lambda>s. makeDecoder e no_tags s) s)
      | TInterface \<Rightarrow> decodeInterface (slice_bound s) s
      | _ \<Rightarrow> (Inl (DType (NotSerializable t)), s))"
  by pat_completeness auto

lemma structFields_size: "structFields ti fs = Inr xs \<Longrightarrow> (j, t, ts) \<in> set xs \<Longrightarrow> size t < size (TStruct fs)"
  unfolding structFields_def by (rule field_types_size, rule structFields_from_mem)

termination makeDecoder
  by (relation "measure (\<lambda>(t, ts, s). size t)") (auto dest: structFields_size)

declare makeDecoder.simps [simp del]

section \<open>Entry points\<close>

definition s_Decode :: "gotype \<Rightarrow> stream \<Rightarrow> (dec_error + goval) \<times> stream" where
  "s_Decode t s =
     (case genTypeInfo t no_tags of
        Some e \<Rightarrow> (Inl (DType e), s)
      | None \<Rightarrow>
          (case makeDecoder t no_tags s of
             (Inl (DecodeError msg ty cs), s) \<Rightarrow>
               (Inl (if cs = [] then DecodeError msg ty cs else DecodeError msg ty (cs @ [CtxType t])), s)
           | r \<Rightarrow> r))"

definition Decode :: "bytes \<Rightarrow> gotype \<Rightarrow> (dec_error + goval) \<times> stream" where
  "Decode r t = s_Decode t (NewStream r True 0)"

definition DecodeBytes :: "bytes \<Rightarrow> gotype \<Rightarrow> dec_error + goval" where
  "DecodeBytes b t =
     (case s_Decode t (NewStream b True (of_nat (length b))) of
        (Inl e, s) \<Rightarrow> Inl e
      | (Inr v, s) \<Rightarrow> (if rdr s \<noteq> [] then Inl (Plain ErrMoreThanOneValue) else Inr v))"

end
