(* ===== verification/RlpRoundtrip.thy ===== *)
theory RlpRoundtrip
  imports RlpEncodeSpec RlpStreamLaws RlpDecode
begin

text \<open>
  Decoding what was encoded. \<open>rt\<close> says which values of a type survive the round trip; for
  them the decoder of the type, run on the encoding, returns the value and reads exactly the
  encoding. The properties at the end state this for \<open>DecodeBytes\<close> and
  \<open>EncodeToBytes\<close>, together with the one-byte array, which does not survive it.
\<close>

section \<open>Values that survive the round trip\<close>

definition width_ok :: "nat \<Rightarrow> bool" where
  "width_ok k \<longleftrightarrow> k = 8 \<or> k = 16 \<or> k = 32 \<or> k = 64"

text \<open>Whether a pointer's encoding reads as nil under the \<open>nil\<close> tag.\<close>

definition empty_enc :: "enc_error + item list \<Rightarrow> bool" where
  "empty_enc r = (case r of Inl _ \<Rightarrow> False | Inr its \<Rightarrow> enc_items its = [0x80] \<or> enc_items its = [0xC0])"

definition is_canonical :: "bytes \<Rightarrow> bool" where
  "is_canonical b = (case Split b of Inr (k, c, []) \<Rightarrow> True | _ \<Rightarrow> False)"

text \<open>Integers fit their width, numbers have a value, unexported and ignored fields are zero, raw
  values are one canonical value, interfaces hold what \<open>decodeInterface\<close> builds, pointers are
  non-nil unless tagged \<open>nil\<close> (and then not to an empty value), and the one-byte array holding
  zero is left out.\<close>

function rt :: "gotype \<Rightarrow> tags \<Rightarrow> goval \<Rightarrow> bool" where
  "rt t ts v =
     (case (t, v) of
        (TRawValue, VRaw b) \<Rightarrow> is_canonical b
      | (TBigInt, VBig i) \<Rightarrow> 0 \<le> i
      | (TNumber, VNum n) \<Rightarrow> n \<noteq> None
      | (TUint k, VUint i) \<Rightarrow> width_ok k \<and> unat i < 2 ^ k
      | (TInt k, VInt i) \<Rightarrow> width_ok k \<and> int_of_bits k i = i
      | (TBool, VBool b) \<Rightarrow> True
      | (TString, VString s) \<Rightarrow> True
      | (TSlice e, VBytes b) \<Rightarrow> isByte e
      | (TSlice e, VSeq vs) \<Rightarrow> \<not> isByte e \<and> list_all (\<lambda>x. rt e no_tags x) vs
      | (TArray n e, VBytes b) \<Rightarrow> isByte e \<and> length b = n \<and> b \<noteq> [0]
      | (TArray n e, VSeq vs) \<Rightarrow>
          \<not> isByte e \<and> length vs = n \<and> \<not> tail ts \<and> list_all (\<lambda>x. rt e no_tags x) vs
      | (TStruct fs, VStruct vs) \<Rightarrow>
          length vs = length fs \<and>
          (case structFields genTypeInfo fs of
             Inl _ \<Rightarrow> False
           | Inr fds \<Rightarrow>
               list_all (\<lambda>(i, ft, fts). if i < length vs then rt ft fts (vs ! i) else False) fds \<and>
               list_all (\<lambda>j. j \<in> fst ` set fds \<or> vs ! j = zero_val (snd (snd (snd (fs ! j)))))
                 [0 ..< length fs])
      | (TPtr e, VPtr None) \<Rightarrow>
          nilOK ts \<and> e \<noteq> TBigInt \<and> e \<noteq> TNumber \<and> empty_enc (items_of (TPtr e) ts (VPtr None))
      | (TPtr e, VPtr (Some x)) \<Rightarrow>
          rt e no_tags x \<and> (nilOK ts \<longrightarrow> e = TBigInt \<or> e = TNumber \<or> \<not> empty_enc (items_of e no_tags x))
      | (TInterface, VIface (Some (t', x))) \<Rightarrow>
          (case (t', x) of
             (TSlice TInterface, VSeq vs) \<Rightarrow> list_all (\<lambda>y. rt TInterface no_tags y) vs
           | (TSlice (TUint k), VBytes b) \<Rightarrow> k = 8
           | _ \<Rightarrow> False)
      | _ \<Rightarrow> False)"
  by pat_completeness auto

termination rt
  by (relation "measures [\<lambda>(t, ts, v). size v, \<lambda>(t, ts, v). size t]")
    (auto simp: size_nth_goval size_mem_goval le_less less_SucI)

declare rt.simps [simp del]

section \<open>Looking ahead\<close>

text \<open>Every operation starts with \<open>s_Kind\<close>, so it does not matter whether the header was
  read before.\<close>

definition peeked :: "stream \<Rightarrow> stream \<Rightarrow> bool" where
  "peeked s0 s \<longleftrightarrow> s = s0 \<or> (\<exists>x. s_Kind s0 = (Inr x, s))"

lemma kind_result_snd: "kind_result s = (r, s') \<Longrightarrow> s' = s"
  by (simp add: kind_result_def)

lemma s_Kind_cases:
  assumes "s_Kind s0 = (Inr x, s)"
  shows "kind s \<noteq> None \<and> kind_result s = (Inr x, s)"
proof (cases "kind s0 = None")
  case True
  obtain k n err s1 where r: "s_readKind (s0\<lparr>kinderr := None\<rparr>) = ((k, n, err), s1)"
    by (metis prod.exhaust)
  obtain err' where "kind_result (s1\<lparr>kind := Some k, ssize := n, kinderr := err'\<rparr>) = (Inr x, s)"
    using assms True r unfolding s_Kind_def Let_def by (simp split: if_splits)
  then show ?thesis using kind_result_snd by fastforce
next
  case False
  with assms have "kind_result s0 = (Inr x, s)" by (simp add: s_Kind_def)
  with False show ?thesis using kind_result_snd by blast
qed

lemma s_Kind_again: "s_Kind s0 = (Inr x, s) \<Longrightarrow> s_Kind s = (Inr x, s)"
  using s_Kind_cases [of s0 x s] by (simp add: s_Kind_def)

lemma peeked_Kind: "peeked s0 s \<Longrightarrow> s_Kind s = s_Kind s0"
  by (auto simp: peeked_def s_Kind_again)

lemma peeked_ops:
  assumes "peeked s0 s"
  shows "s_Bytes s = s_Bytes s0" "s_Raw s = s_Raw s0" "s_uint k s = s_uint k s0"
    "s_Bool s = s_Bool s0" "s_List s = s_List s0"
  by (simp_all add: s_Bytes_def s_Raw_def s_uint_def s_Bool_def s_List_def peeked_Kind [OF assms])

lemma peeked_refl [simp]: "peeked s s"
  by (simp add: peeked_def)

section \<open>The end of a list\<close>

definition at_EOL :: "stream \<Rightarrow> bool" where
  "at_EOL s \<longleftrightarrow> s_Kind s = (Inl EOL, s\<lparr>kinderr := None\<rparr>)"

lemma wrap_EOL [simp]: "wrapStreamError EOL t = Plain EOL"
  by (simp add: wrapStreamError_def)

lemma genTypeInfo_cases:
  "genTypeInfo t ts = None \<longleftrightarrow> makeDecoder_err genTypeInfo t = None \<and> makeWriter_err genTypeInfo t = None"
  by (subst genTypeInfo.simps) (simp split: option.split)

lemma genTypeInfo_elem:
  "genTypeInfo (TSlice e) ts = None \<Longrightarrow> \<not> isByte e \<Longrightarrow> genTypeInfo e no_tags = None"
  "genTypeInfo (TArray n e) ts = None \<Longrightarrow> \<not> isByte e \<Longrightarrow> genTypeInfo e no_tags = None"
  "genTypeInfo (TPtr e) ts = None \<Longrightarrow> e \<noteq> TBigInt \<Longrightarrow> e \<noteq> TNumber \<Longrightarrow> genTypeInfo e no_tags = None"
  by (simp_all add: genTypeInfo_cases [of "TSlice e"] genTypeInfo_cases [of "TArray n e"]
      genTypeInfo_cases [of "TPtr e"] makeDecoder_err_def)

lemma genTypeInfo_TStruct:
  "genTypeInfo (TStruct fs) ts = None \<Longrightarrow> \<exists>fds. structFields genTypeInfo fs = Inr fds"
  by (simp add: genTypeInfo_cases [of "TStruct fs"] makeDecoder_err_def split: sum.splits)

lemma genTypeInfo_TOther: "genTypeInfo TOther ts \<noteq> None"
  by (subst genTypeInfo.simps) (simp add: makeDecoder_err_def)

lemma ops_EOL:
  assumes "at_EOL s"
  shows "s_Bytes s = (Inl EOL, s\<lparr>kinderr := None\<rparr>)" "s_Raw s = (Inl EOL, s\<lparr>kinderr := None\<rparr>)"
    "s_uint k s = (Inl EOL, s\<lparr>kinderr := None\<rparr>)" "s_Bool s = (Inl EOL, s\<lparr>kinderr := None\<rparr>)"
    "s_List s = (Inl EOL, s\<lparr>kinderr := None\<rparr>)"
  using assms
  by (simp_all add: at_EOL_def s_Bytes_def s_Raw_def s_uint_def s_Bool_def s_List_def)

lemmas atomic_decoders = decodeRawValue_def decodeBigIntNoPtr_def decodeBigInt_def decodeNumber_def
  decodeNumberPtr_def deref_def set_from_def decodeUint_def decodeInt_def decodeBool_def
  decodeString_def decodeByteSlice_def

lemma decodeByteArray_EOL: "at_EOL s \<Longrightarrow> decodeByteArray n s = (Inl (Plain EOL), s\<lparr>kinderr := None\<rparr>)"
  by (simp add: decodeByteArray_def at_EOL_def)

lemma makeDecoder_EOL:
  "genTypeInfo t ts = None \<Longrightarrow> \<not> nilOK ts \<Longrightarrow> \<not> tail ts \<Longrightarrow> at_EOL s \<Longrightarrow>
     makeDecoder t ts s = (Inl (Plain EOL), s\<lparr>kinderr := None\<rparr>)"
proof (induction t arbitrary: ts)
  case (TStruct fs)
  with genTypeInfo_TStruct [OF TStruct.prems(1)] show ?case
    by (subst makeDecoder.simps) (auto simp: struct_decoder_def ops_EOL)
next
  case (TPtr e)
  then have "e \<noteq> TBigInt \<Longrightarrow> e \<noteq> TNumber \<Longrightarrow>
      makeDecoder e no_tags s = (Inl (Plain EOL), s\<lparr>kinderr := None\<rparr>)"
    by (intro TPtr.IH genTypeInfo_elem(3) [of e ts]) (auto simp: no_tags_def)
  with TPtr.prems show ?case
    by (subst makeDecoder.simps)
      (auto simp: decodeBigInt_def decodeNumberPtr_def set_from_def ops_EOL ptr_decoder_def)
next
  case TInterface
  then show ?case
    by (subst makeDecoder.simps) (simp add: slice_bound_def at_EOL_def)
next
  case TOther
  then show ?case by (simp add: genTypeInfo_TOther)
qed (subst makeDecoder.simps,
    simp add: atomic_decoders decodeListSlice_def decodeListArray_def ops_EOL decodeByteArray_EOL)+

section \<open>Sequences\<close>

text \<open>A decoder reads back the values of a set: run where the encoding of such a value is ahead,
  it returns the value and consumes the encoding.\<close>

definition reads :: "decoder \<Rightarrow> goval \<Rightarrow> enc_error + item list \<Rightarrow> bool" where
  "reads dec v ris \<longleftrightarrow>
     (\<forall>its s0 s r. ris = Inr its \<longrightarrow> ahead s0 (enc_items its) r \<longrightarrow> peeked s0 s \<longrightarrow>
       (\<exists>s'. dec s = (Inr v, s') \<and> consumed s0 (length (enc_items its)) s'))"

lemma readsD:
  "reads dec v (Inr its) \<Longrightarrow> ahead s (enc_items its) r \<Longrightarrow>
     \<exists>s'. dec s = (Inr v, s') \<and> consumed s (length (enc_items its)) s'"
  unfolding reads_def using peeked_refl by blast

lemma seq_items_Cons:
  assumes "seq_items f (x # xs) = Inr its"
  obtains i1 i2 where "f x = Inr i1" "seq_items f xs = Inr i2" "its = i1 @ i2"
  using assms by (auto simp: map_sum_eq_Inr_iff split: sum.splits)

lemma consumed_kinderr: "consumed s n s' \<Longrightarrow> consumed s n (s'\<lparr>kinderr := e\<rparr>)"
  by (simp add: consumed_def)

lemma consumed_0: "ahead s p r \<Longrightarrow> consumed s 0 s"
  by (simp add: consumed_def ahead_def took_def)

lemma decodeSliceElems_reads:
  assumes "\<And>v. v \<in> set vs \<Longrightarrow> reads dec v (f v)"
    and "\<And>s. at_EOL s \<Longrightarrow> dec s = (Inl (Plain EOL), s\<lparr>kinderr := None\<rparr>)"
    and "seq_items f vs = Inr its" and "ahead s (enc_items its) r" and "length vs < m"
    and "\<And>s'. consumed s (length (enc_items its)) s' \<Longrightarrow> at_EOL s'"
  shows "\<exists>s'. decodeSliceElems m dec i s = (Inr vs, s') \<and> consumed s (length (enc_items its)) s'"
  using assms
proof (induction vs arbitrary: s m i its)
  case Nil
  then have "at_EOL s" using consumed_0 by simp
  with Nil show ?case
    using consumed_kinderr [OF consumed_0] by (cases m) auto
next
  case (Cons v vs)
  obtain i1 i2 where i: "f v = Inr i1" "seq_items f vs = Inr i2" "its = i1 @ i2"
    using seq_items_Cons [OF Cons.prems(3)] by blast
  have a: "ahead s (enc_items i1 @ enc_items i2) r" using Cons.prems(4) i(3) by simp
  obtain s1 where s1: "dec s = (Inr v, s1)" "consumed s (length (enc_items i1)) s1"
    using Cons.prems(1) [of v] readsD [OF _ ahead_append [OF a]] i(1) by auto
  have a1: "ahead s1 (enc_items i2) r" by (rule ahead_consumed [OF a s1(2)])
  obtain m' where m: "m = Suc m'" "length vs < m'" using Cons.prems(5) by (cases m) auto
  have eol: "at_EOL s'" if "consumed s1 (length (enc_items i2)) s'" for s'
    using Cons.prems(6) consumed_trans [OF s1(2) that] i(3) by simp
  obtain s2 where "decodeSliceElems m' dec (i + 1) s1 = (Inr vs, s2)"
      "consumed s1 (length (enc_items i2)) s2"
    using Cons.IH [of i2 s1 m' "i + 1", OF _ Cons.prems(2) i(2) a1 m(2) eol] Cons.prems(1) by auto
  with s1 m i(3) consumed_trans [OF s1(2)] show ?case by auto
qed

lemma decode_array_elems_reads:
  assumes "\<And>v. v \<in> set vs \<Longrightarrow> reads dec v (f v)"
    and "seq_items f vs = Inr its" and "ahead s (enc_items its) r"
  shows "\<exists>s'. decode_array_elems t (length vs) dec i s = (Inr vs, s') \<and> consumed s (length (enc_items its)) s'"
  using assms
proof (induction vs arbitrary: s i its)
  case Nil
  then show ?case using consumed_0 by auto
next
  case (Cons v vs)
  obtain i1 i2 where i: "f v = Inr i1" "seq_items f vs = Inr i2" "its = i1 @ i2"
    using seq_items_Cons [OF Cons.prems(2)] by blast
  have a: "ahead s (enc_items i1 @ enc_items i2) r" using Cons.prems(3) i(3) by simp
  obtain s1 where s1: "dec s = (Inr v, s1)" "consumed s (length (enc_items i1)) s1"
    using Cons.prems(1) [of v] readsD [OF _ ahead_append [OF a]] i(1) by auto
  have a1: "ahead s1 (enc_items i2) r" by (rule ahead_consumed [OF a s1(2)])
  obtain s2 where "decode_array_elems t (length vs) dec (i + 1) s1 = (Inr vs, s2)"
      "consumed s1 (length (enc_items i2)) s2"
    using Cons.IH [of i2 s1 "i + 1", OF _ i(2) a1] Cons.prems(1) by auto
  with s1 i(3) consumed_trans [OF s1(2)] show ?case by auto
qed

text \<open>The fields of a struct: all but the last are self-delimiting, the last may be a tail.\<close>

lemma decode_fields_reads:
  assumes "\<And>x. x \<in> set (butlast ds) \<Longrightarrow> reads (snd (h x)) (val x) (f x)"
    and "\<And>its s r. ds \<noteq> [] \<Longrightarrow> f (last ds) = Inr its \<Longrightarrow> ahead s (enc_items its) r \<Longrightarrow>
      (\<And>s'. consumed s (length (enc_items its)) s' \<Longrightarrow> at_EOL s') \<Longrightarrow>
      \<exists>s'. snd (h (last ds)) s = (Inr (val (last ds)), s') \<and> consumed s (length (enc_items its)) s'"
    and "seq_items f ds = Inr its" and "ahead s (enc_items its) r"
    and "\<And>s'. consumed s (length (enc_items its)) s' \<Longrightarrow> at_EOL s'"
  shows "\<exists>s'. decode_fields fs (map h ds) us s = (Inr (fold (\<lambda>x us. us[fst (h x) := val x]) ds us), s')
    \<and> consumed s (length (enc_items its)) s'"
  using assms
proof (induction ds arbitrary: s us its)
  case Nil
  then show ?case using consumed_0 by auto
next
  case (Cons x ds)
  obtain i1 i2 where i: "f x = Inr i1" "seq_items f ds = Inr i2" "its = i1 @ i2"
    using seq_items_Cons [OF Cons.prems(3)] by blast
  have a: "ahead s (enc_items i1 @ enc_items i2) r" using Cons.prems(4) i(3) by simp
  obtain s1 where s1: "snd (h x) s = (Inr (val x), s1)" "consumed s (length (enc_items i1)) s1"
  proof (cases "ds = []")
    case True
    with Cons.prems(2) [of i1 s r] Cons.prems(5) a i that show ?thesis by auto
  next
    case False
    with Cons.prems(1) [of x] readsD [OF _ ahead_append [OF a]] i(1) that show ?thesis by auto
  qed
  have a1: "ahead s1 (enc_items i2) r" by (rule ahead_consumed [OF a s1(2)])
  have eol: "at_EOL s'" if "consumed s1 (length (enc_items i2)) s'" for s'
    using Cons.prems(5) consumed_trans [OF s1(2) that] i(3) by simp
  obtain d where d: "h x = (fst (h x), d)" "d s = (Inr (val x), s1)" using s1(1) by (metis prod.collapse)
  have "\<exists>s'. decode_fields fs (map h ds) (us[fst (h x) := val x]) s1 =
      (Inr (fold (\<lambda>x us. us[fst (h x) := val x]) ds (us[fst (h x) := val x])), s')
    \<and> consumed s1 (length (enc_items i2)) s'"
    using Cons.prems(1,2) by (intro Cons.IH i(2) a1 eol; cases "ds = []") auto
  with d i(3) consumed_trans [OF s1(2)] show ?case by (auto split: prod.splits)
qed

section \<open>Lists of values\<close>

lemma length_seq_items:
  "seq_items f vs = Inr its \<Longrightarrow> (\<And>v its. v \<in> set vs \<Longrightarrow> f v = Inr its \<Longrightarrow> enc_items its \<noteq> []) \<Longrightarrow>
     length vs \<le> length (enc_items its)"
proof (induction vs arbitrary: its)
  case (Cons v vs)
  obtain i1 i2 where i: "f v = Inr i1" "seq_items f vs = Inr i2" "its = i1 @ i2"
    using seq_items_Cons [OF Cons.prems(1)] by blast
  have "enc_items i1 \<noteq> []" using Cons.prems(2) [of v i1] i(1) by simp
  then have "0 < length (enc_items i1)" by simp
  moreover have "length vs \<le> length (enc_items i2)"
    using Cons.prems(2) by (intro Cons.IH [OF i(2)]) auto
  ultimately show ?case unfolding i(3) enc_items_simps length_append list.size by linarith
qed simp

lemma inside_EOL: "inside s c r s' \<Longrightarrow> consumed s' (length c) s'' \<Longrightarrow> at_EOL s''"
  unfolding at_EOL_def by (rule s_Kind_EOL)

lemma lst_InrE:
  assumes "lst r = Inr its"
  obtains its' where "r = Inr its'" "its = [Lst its']" "enc_items its = enc_list (enc_items its')"
  using assms by (auto simp: lst_def map_sum_eq_Inr_iff)

lemma decodeListSlice_reads:
  assumes "\<And>v. v \<in> set vs \<Longrightarrow> reads dec v (f v)"
    and ne: "\<And>v its. v \<in> set vs \<Longrightarrow> f v = Inr its \<Longrightarrow> enc_items its \<noteq> []"
    and "\<And>s. at_EOL s \<Longrightarrow> dec s = (Inl (Plain EOL), s\<lparr>kinderr := None\<rparr>)"
  shows "reads (decodeListSlice t dec) (VSeq vs) (lst (seq_items f vs))"
  unfolding reads_def
proof (intro allI impI)
  fix its s s1 r
  assume its: "lst (seq_items f vs) = Inr its" and a: "ahead s (enc_items its) r" and pk: "peeked s s1"
  obtain its' where i: "seq_items f vs = Inr its'" "enc_items its = enc_list (enc_items its')"
    using lst_InrE [OF its] by blast
  define c where "c = enc_items its'"
  obtain s' where s': "s_List s = (Inr (of_nat (length c)), s')" "inside s c r s'"
    using s_List_ahead [of s c r] a i(2) by (auto simp: c_def)
  have a': "ahead s' c r" using s'(2) by (simp add: inside_def)
  then have len: "length c < 2 ^ 63" by (simp add: ahead_def fits_def)
  have lv: "length vs \<le> length c"
    unfolding c_def by (rule length_seq_items [OF i(1)]) (rule ne)
  obtain s'' where e: "(if of_nat (length c) = (0 :: u64) then (Inr [], s')
        else decodeSliceElems (slice_bound s') dec 0 s') = (Inr vs, s'')" "consumed s' (length c) s''"
  proof (cases "length c = 0")
    case True
    with lv have "vs = []" by simp
    with True that [of s'] consumed_0 [OF a'] show ?thesis by simp
  next
    case False
    then have nz: "of_nat (length c) \<noteq> (0 :: u64)"
      using len by (simp add: word_unat_eq_iff)
    have "length vs < slice_bound s'"
      using lv a' by (simp add: slice_bound_def ahead_def)
    from decodeSliceElems_reads [OF assms(1,3) i(1) _ this, of s' r 0] a' inside_EOL [OF s'(2)] nz
    show ?thesis using that by (auto simp: c_def)
  qed
  from s_ListEnd_inside [OF s'(2) e(2)] obtain s3
    where "s_ListEnd s'' = (Inr (), s3)" "consumed s (length (enc_list c)) s3" by blast
  with s'(1) e(1) i(2)
  show "\<exists>s'. decodeListSlice t dec s1 = (Inr (VSeq vs), s') \<and> consumed s (length (enc_items its)) s'"
    by (auto simp: decodeListSlice_def c_def peeked_ops [OF pk])
qed

lemma decodeListArray_reads:
  assumes "\<And>v. v \<in> set vs \<Longrightarrow> reads dec v (f v)" and "n = length vs"
  shows "reads (decodeListArray t n dec) (VSeq vs) (lst (seq_items f vs))"
  unfolding reads_def
proof (intro allI impI)
  fix its s s1 r
  assume its: "lst (seq_items f vs) = Inr its" and a: "ahead s (enc_items its) r" and pk: "peeked s s1"
  obtain its' where i: "seq_items f vs = Inr its'" "enc_items its = enc_list (enc_items its')"
    using lst_InrE [OF its] by blast
  obtain s' where s': "s_List s = (Inr (of_nat (length (enc_items its'))), s')" "inside s (enc_items its') r s'"
    using s_List_ahead [of s "enc_items its'" r] a i(2) by auto
  have a': "ahead s' (enc_items its') r" using s'(2) by (simp add: inside_def)
  obtain s'' where e: "decode_array_elems t n dec 0 s' = (Inr vs, s'')" "consumed s' (length (enc_items its')) s''"
    using decode_array_elems_reads [OF assms(1) i(1) a'] assms(2) by auto
  from s_ListEnd_inside [OF s'(2) e(2)] obtain s3
    where "s_ListEnd s'' = (Inr (), s3)" "consumed s (length (enc_items its)) s3" unfolding i(2) by blast
  with s'(1) e(1)
  show "\<exists>s'. decodeListArray t n dec s1 = (Inr (VSeq vs), s') \<and> consumed s (length (enc_items its)) s'"
    by (auto simp: decodeListArray_def peeked_ops [OF pk])
qed

section \<open>Interfaces\<close>

lemma items_of_iface:
  "items_of TInterface ts (VIface (Some (TSlice (TUint 8), VBytes b))) = Inr [Str b]"
  "items_of TInterface ts (VIface (Some (TSlice TInterface, VSeq vs))) = lst (seq_items (items_of TInterface no_tags) vs)"
proof -
  have g: "genTypeInfo (TSlice (TUint 8)) no_tags = None" "genTypeInfo TInterface no_tags = None"
    by (simp_all add: genTypeInfo_cases makeDecoder_err_def makeWriter_err_def isByte_def)
  then have g': "genTypeInfo (TSlice TInterface) no_tags = None"
    by (simp add: genTypeInfo_cases [of "TSlice TInterface"] makeDecoder_err_def makeWriter_err_def isByte_def)
  show "items_of TInterface ts (VIface (Some (TSlice (TUint 8), VBytes b))) = Inr [Str b]"
    by (subst items_of.simps, simp add: g, subst items_of.simps, simp add: isByte_def)
  show "items_of TInterface ts (VIface (Some (TSlice TInterface, VSeq vs))) =
      lst (seq_items (items_of TInterface no_tags) vs)"
    by (subst items_of.simps, simp add: g', subst items_of.simps, simp add: isByte_def no_tags_def)
qed

lemma rt_iface_cases:
  assumes "rt TInterface ts v"
  obtains b where "v = VIface (Some (TSlice (TUint 8), VBytes b))"
  | vs where "v = VIface (Some (TSlice TInterface, VSeq vs))" "\<And>y. y \<in> set vs \<Longrightarrow> rt TInterface no_tags y"
proof -
  obtain t x where v: "v = VIface (Some (t, x))"
    using assms by (subst (asm) rt.simps) (cases v; simp split: option.splits; metis prod.exhaust)
  obtain e where t: "t = TSlice e"
    using assms unfolding v by (subst (asm) rt.simps) (cases t; simp)
  show ?thesis
    using assms that unfolding v t
    by (subst (asm) rt.simps) (cases e; cases x; simp add: list_all_iff)
qed

lemma enc_str_ne [simp]: "enc_str b \<noteq> []"
  by (auto simp: enc_str_def enc_head_def single_def)

lemma enc_list_ne [simp]: "enc_list c \<noteq> []"
  by (simp add: enc_list_def enc_head_def)

lemma rt_iface_ne: "rt TInterface ts v \<Longrightarrow> items_of TInterface ts v = Inr its \<Longrightarrow> enc_items its \<noteq> []"
  by (erule rt_iface_cases) (auto simp: items_of_iface elim: lst_InrE)

lemma iface_EOL: "at_EOL s \<Longrightarrow> 0 < m \<Longrightarrow> decodeInterface m s = (Inl (Plain EOL), s\<lparr>kinderr := None\<rparr>)"
  by (cases m) (simp_all add: at_EOL_def)

lemma s_Kind_ahead:
  assumes "ahead s (enc_kind k c) r" and "kind_ok k c"
  shows "\<exists>n s1. s_Kind s = (Inr (k, n), s1) \<and> peeked s s1 \<and> c @ r = (if k = Byte then c else []) @ rdr s1
    \<and> (n = 0 \<longleftrightarrow> k = Byte \<or> c = [])"
proof (cases "k = Byte")
  case True
  with assms have c: "single c" "enc_kind k c = c" by (simp_all add: kind_ok_def enc_kind_def enc_str_def)
  with s_Kind_byte [of c s r] assms(1) obtain s1 where
    "s_Kind s = (Inr (Byte, 0), s1)" "consumed s 1 (s1\<lparr>kind := None\<rparr>)" by auto
  with True c assms show ?thesis
    by (auto simp: peeked_def consumed_def ahead_def single_def length_Suc_conv)
next
  case False
  from s_Kind_header [OF this assms(2,1)] obtain s1 where s1:
    "s_Kind s = (Inr (k, of_nat (length c)), s1)" "ahead (s1\<lparr>kind := None\<rparr>) c r" by blast
  have "of_nat (length c) = (0 :: u64) \<longleftrightarrow> c = []"
    using s1(2) by (simp add: ahead_def fits_def word_unat_eq_iff)
  with False s1 show ?thesis by (auto simp: peeked_def ahead_def)
qed

lemma iface_bytes_reads:
  "reads (decodeInterface (Suc m)) (VIface (Some (TSlice (TUint 8), VBytes b))) (Inr [Str b])"
  unfolding reads_def
proof (intro allI impI)
  fix its s0 s r
  assume i: "Inr [Str b] = (Inr its :: enc_error + item list)" and a: "ahead s0 (enc_items its) r"
    and pk: "peeked s0 s"
  have e: "enc_items its = enc_str b" using i by auto
  define k where "k = (if single b then Byte else String)"
  have k: "kind_ok k b" "enc_kind k b = enc_str b" "k \<noteq> List"
    by (simp_all add: k_def kind_ok_def enc_kind_def)
  from s_Kind_ahead [of s0 k b r] a e k obtain n s1 where s1: "s_Kind s0 = (Inr (k, n), s1)" "peeked s0 s1"
    by auto
  obtain s' where "s_Bytes s0 = (Inr b, s')" "consumed s0 (length (enc_str b)) s'"
    using s_Bytes_ahead [of s0 b r] a e by auto
  with s1 k(3) show "\<exists>s'. decodeInterface (Suc m) s = (Inr (VIface (Some (TSlice (TUint 8), VBytes b))), s')
      \<and> consumed s0 (length (enc_items its)) s'"
    by (simp add: peeked_Kind [OF pk] peeked_ops [OF s1(2)] e)
qed

lemma iface_list_reads:
  assumes "\<And>y. y \<in> set vs \<Longrightarrow> rt TInterface no_tags y" and "0 < m"
    and "\<And>y. y \<in> set vs \<Longrightarrow> reads (decodeInterface m) y (items_of TInterface no_tags y)"
  shows "reads (decodeInterface (Suc m)) (VIface (Some (TSlice TInterface, VSeq vs)))
    (lst (seq_items (items_of TInterface no_tags) vs))"
  unfolding reads_def
proof (intro allI impI)
  fix its s0 s r
  assume i: "lst (seq_items (items_of TInterface no_tags) vs) = Inr its"
    and a: "ahead s0 (enc_items its) r" and pk: "peeked s0 s"
  obtain its' where e: "enc_items its = enc_list (enc_items its')" using lst_InrE [OF i] by blast
  then have "ahead s0 (enc_kind List (enc_items its')) r" using a by (simp add: enc_kind_def)
  from s_Kind_ahead [OF this] obtain n s1 where s1: "s_Kind s0 = (Inr (List, n), s1)" "peeked s0 s1"
    by (auto simp: kind_ok_def)
  have "reads (decodeListSlice (TSlice TInterface) (decodeInterface m)) (VSeq vs)
      (lst (seq_items (items_of TInterface no_tags) vs))"
    using assms by (intro decodeListSlice_reads) (auto dest: rt_iface_ne intro: iface_EOL)
  with i a s1(2) obtain s' where "decodeListSlice (TSlice TInterface) (decodeInterface m) s1 = (Inr (VSeq vs), s')"
      "consumed s0 (length (enc_items its)) s'"
    unfolding reads_def by blast
  with s1(1) show "\<exists>s'. decodeInterface (Suc m) s = (Inr (VIface (Some (TSlice TInterface, VSeq vs))), s')
      \<and> consumed s0 (length (enc_items its)) s'"
    by (simp add: peeked_Kind [OF pk])
qed

lemma enc_list_longer: "length c < length (enc_list c)"
  by (simp add: enc_list_def enc_head_def)

lemma seq_items_elem:
  "seq_items f vs = Inr its \<Longrightarrow> v \<in> set vs \<Longrightarrow> \<exists>i. f v = Inr i \<and> length (enc_items i) \<le> length (enc_items its)"
proof (induction vs arbitrary: its)
  case (Cons x vs)
  obtain i1 i2 where i: "f x = Inr i1" "seq_items f vs = Inr i2" "its = i1 @ i2"
    using seq_items_Cons [OF Cons.prems(1)] by blast
  with Cons.IH [OF i(2)] Cons.prems(2) show ?case by fastforce
qed simp

text \<open>Fuel above the length of the encoding is enough for a value, fuel above the length of the
  content is enough for the elements of a list.\<close>

lemma iface_elems_reads:
  assumes "seq_items (items_of TInterface no_tags) vs = Inr its" and "length (enc_items its) < m"
    and "\<And>y. y \<in> set vs \<Longrightarrow> rt TInterface no_tags y"
  shows "y \<in> set vs \<Longrightarrow> reads (decodeInterface m) y (items_of TInterface no_tags y)"
  using assms
proof (induction m arbitrary: vs its y)
  case (Suc m)
  obtain i where i: "items_of TInterface no_tags y = Inr i" "length (enc_items i) \<le> length (enc_items its)"
    using seq_items_elem [OF Suc.prems(2,1)] by blast
  from Suc.prems(4) [OF Suc.prems(1)] show ?case
  proof (cases rule: rt_iface_cases)
    case (1 b)
    show ?thesis unfolding 1 items_of_iface by (rule iface_bytes_reads)
  next
    case (2 ys)
    obtain i' where i': "seq_items (items_of TInterface no_tags) ys = Inr i'" "enc_items i = enc_list (enc_items i')"
      using i(1) 2(1) by (auto simp: items_of_iface elim: lst_InrE)
    have m: "length (enc_items i') < m"
      using i(2) Suc.prems(3) enc_list_longer [of "enc_items i'"] unfolding i'(2) by linarith
    show ?thesis
      unfolding 2(1) items_of_iface
      using m by (intro iface_list_reads Suc.IH [OF _ i'(1) m] 2(2)) auto
  qed
qed simp

section \<open>Structs\<close>

lemma parse_words_tail:
  "parse_words f fi n ws ts = Inr ts' \<Longrightarrow> tail ts' \<Longrightarrow> tail ts \<or> fi + 1 = n"
proof (induction f fi n ws ts rule: parse_words.induct)
  case (2 f fi n w ws ts)
  then obtain ts1 where "parse_word f fi n w ts = Inr ts1" "tail ts1 \<or> fi + 1 = n"
    by (auto split: sum.splits)
  then show ?case
    by (cases f) (auto simp: parse_word_def Let_def split: if_splits)
qed simp

lemma parseStructTag_tail: "parseStructTag f fi n = Inr ts \<Longrightarrow> tail ts \<Longrightarrow> fi + 1 = n"
  by (cases f) (auto simp: parseStructTag_def no_tags_def dest!: parse_words_tail)

lemma structFields_from_props:
  "structFields_from ti n i fs = Inr fds \<Longrightarrow>
     sorted_wrt (<) (map fst fds) \<and>
     (\<forall>(j, t, ts) \<in> set fds. i \<le> j \<and> j < i + length fs \<and> ti t ts = None \<and> (tail ts \<longrightarrow> j + 1 = n))"
proof (induction ti n i fs arbitrary: fds rule: structFields_from.induct)
  case (2 ti n i name tag exported ty fs)
  show ?case
  proof (cases "structFields_from ti n (i + 1) fs = Inr fds")
    case True
    then have "sorted_wrt (<) (map fst fds) \<and> (\<forall>(j, t, ts) \<in> set fds. i + 1 \<le> j \<and> j < i + 1 + length fs
        \<and> ti t ts = None \<and> (tail ts \<longrightarrow> j + 1 = n))"
      using "2.prems" "2.IH" by (auto split: if_splits sum.splits option.splits simp: map_sum_eq_Inr_iff)
    then show ?thesis by fastforce
  next
    case False
    with "2.prems" obtain ts rest where p: "exported" "parseStructTag (name, tag, exported, ty) i n = Inr ts"
        "\<not> ignored ts" "ti ty ts = None" "structFields_from ti n (i + 1) fs = Inr rest"
        "fds = (i, ty, ts) # rest"
      by (auto split: if_splits sum.splits option.splits simp: map_sum_eq_Inr_iff)
    from "2.IH"(2) [OF p(1,2,3,4,5)]
    have "sorted_wrt (<) (map fst rest) \<and> (\<forall>(j, t, ts) \<in> set rest. i + 1 \<le> j \<and> j < i + 1 + length fs
        \<and> ti t ts = None \<and> (tail ts \<longrightarrow> j + 1 = n))" .
    then show ?thesis
      using p(4) parseStructTag_tail [OF p(2)] unfolding p(6) by fastforce
  qed
qed simp

lemma structFields_props:
  assumes "structFields ti fs = Inr fds"
  shows "sorted_wrt (<) (map fst fds)"
    and "(j, t, ts) \<in> set fds \<Longrightarrow> j < length fs \<and> ti t ts = None"
    and "(j, t, ts) \<in> set (butlast fds) \<Longrightarrow> \<not> tail ts"
proof -
  note p = structFields_from_props [OF assms [unfolded structFields_def]]
  show s: "sorted_wrt (<) (map fst fds)" using p by simp
  show "(j, t, ts) \<in> set fds \<Longrightarrow> j < length fs \<and> ti t ts = None" using p by fastforce
  assume b: "(j, t, ts) \<in> set (butlast fds)"
  then have ne: "fds \<noteq> []" by auto
  then have f: "fds = butlast fds @ [last fds]" "fds \<noteq> []" by simp_all
  have "sorted_wrt (<) (map fst (butlast fds @ [last fds]))" using s f(1) by simp
  with b have "j < fst (last fds)" by (fastforce simp: sorted_wrt_append)
  moreover have "fst (last fds) < length fs" using p last_in_set [OF f(2)] by fastforce
  ultimately show "\<not> tail ts" using p in_set_butlastD [OF b] by fastforce
qed

lemma fold_update_nth:
  "(\<And>x. x \<in> set ds \<Longrightarrow> fst x < length us) \<Longrightarrow>
     length (fold (\<lambda>x us. us[fst x := vs ! fst x]) ds us) = length us \<and>
     (j < length us \<longrightarrow> fold (\<lambda>x us. us[fst x := vs ! fst x]) ds us ! j =
       (if j \<in> fst ` set ds then vs ! j else us ! j))"
proof (induction ds arbitrary: us)
  case (Cons x ds)
  then show ?case by (auto simp: nth_list_update)
qed simp

section \<open>Atomic values\<close>

lemma scast_unat_less:
  fixes b :: "'a::len word"
  assumes "LENGTH('a) \<le> 64" and "0 \<le> sint (scast b :: u64)"
  shows "unat (scast b :: u64) < 2 ^ LENGTH('a)"
proof -
  have "is_up (scast :: 'a word \<Rightarrow> u64)"
    using assms(1) by (simp add: is_up_def source_size_def target_size_def word_size)
  then have s: "sint (scast b :: u64) = sint b" by (rule sint_up_scast)
  have b: "sint b < 2 ^ LENGTH('a)"
    by (rule less_le_trans [OF sint_lt]) simp
  also have "(2 :: int) ^ LENGTH('a) \<le> 2 ^ 64" using assms(1) by (intro power_increasing) simp_all
  finally have "take_bit 64 (sint b) = sint b" using assms(2) s by (simp add: take_bit_int_eq_self)
  then have "uint (scast b :: u64) = sint b" using uint_sint [of "scast b :: u64"] s by simp
  with b show ?thesis by (simp add: unat_eq_nat_uint nat_less_iff assms(2) s)
qed

lemma int_bits_roundtrip:
  assumes "width_ok k" and "int_of_bits k i = i"
  shows "unat (int_bits k i) < 2 ^ k" "int_of_bits k (int_bits k i) = i"
proof -
  have i64: "unat i < 2 ^ 64" using unsigned_less [of i, where 'a = nat] by simp
  have u: "unat (ucast b :: u64) < 2 ^ LENGTH('b)" for b :: "'b::len word"
    using le_less_trans [OF take_bit_nat_less_eq_self [of 64 "unat b"] unsigned_less] by (simp add: unsigned_ucast_eq)
  have uu: "(ucast (ucast b :: u64) :: 'b word) = b" if "LENGTH('b) \<le> 64" for b :: "'b::len word"
    using that by (intro bit_word_eqI) (simp add: bit_simps)
  consider "k = 8" | "k = 16" | "k = 32" | "k = 64" using assms(1) by (auto simp: width_ok_def)
  then show "unat (int_bits k i) < 2 ^ k"
  proof cases
    case 1
    with assms(2) have e: "i = scast (ucast i :: 8 word)" by (simp add: int_of_bits_def)
    show ?thesis
      using 1 u [of "ucast i :: 8 word"] scast_unat_less [of "ucast i :: 8 word"] e by (auto simp: int_bits_def)
  next
    case 2
    with assms(2) have e: "i = scast (ucast i :: 16 word)" by (simp add: int_of_bits_def)
    show ?thesis
      using 2 u [of "ucast i :: 16 word"] scast_unat_less [of "ucast i :: 16 word"] e by (auto simp: int_bits_def)
  next
    case 3
    with assms(2) have e: "i = scast (ucast i :: 32 word)" by (simp add: int_of_bits_def)
    show ?thesis
      using 3 u [of "ucast i :: 32 word"] scast_unat_less [of "ucast i :: 32 word"] e by (auto simp: int_bits_def)
  next
    case 4
    then show ?thesis using i64 by (simp add: int_bits_def)
  qed
  show "int_of_bits k (int_bits k i) = i"
    using assms(2) by (auto simp: int_bits_def int_of_bits_def uu)
qed

lemma reads_Bytes: "reads (\<lambda>s. set_from t f (s_Bytes s)) (f b) (Inr [Str b])"
  unfolding reads_def
proof (intro allI impI)
  fix its s0 s r
  assume i: "Inr [Str b] = (Inr its :: enc_error + item list)" and a: "ahead s0 (enc_items its) r"
    and pk: "peeked s0 s"
  have e: "enc_items its = enc_str b" using i by auto
  show "\<exists>s'. set_from t f (s_Bytes s) = (Inr (f b), s') \<and> consumed s0 (length (enc_items its)) s'"
    using s_Bytes_ahead [of s0 b r] a unfolding e by (auto simp: set_from_def peeked_ops [OF pk])
qed

lemma reads_uint:
  assumes "width_ok k" and "unat i < 2 ^ k" and "v = f i"
  shows "reads (\<lambda>s. set_from t f (s_uint k s)) v (Inr [Str (be_bytes (unat i))])"
  unfolding reads_def
proof (intro allI impI)
  fix its s0 s r
  assume i: "Inr [Str (be_bytes (unat i))] = (Inr its :: enc_error + item list)"
    and a: "ahead s0 (enc_items its) r" and pk: "peeked s0 s"
  have e: "enc_items its = enc_str (be_bytes (unat i))" using i by auto
  have i64: "unat i < 2 ^ 64" using unsigned_less [of i, where 'a = nat] by simp
  have "length (be_bytes (unat i)) \<le> k div 8" "k \<le> 64"
    using assms(1,2) by (auto simp: width_ok_def length_be_bytes_le_iff)
  from s_uint_ahead [OF i64 this, of s0 r] a
  show "\<exists>s'. set_from t f (s_uint k s) = (Inr v, s') \<and> consumed s0 (length (enc_items its)) s'"
    unfolding e by (auto simp: set_from_def peeked_ops [OF pk] assms(3))
qed

lemma reads_Bool: "reads decodeBool (VBool b) (Inr [Str (if b then [1] else [])])"
  unfolding reads_def
proof (intro allI impI)
  fix its s0 s r
  assume i: "Inr [Str (if b then [1] else [])] = (Inr its :: enc_error + item list)"
    and a: "ahead s0 (enc_items its) r" and pk: "peeked s0 s"
  have e: "enc_items its = enc_str (if b then [1] else [])" using i by auto
  show "\<exists>s'. decodeBool s = (Inr (VBool b), s') \<and> consumed s0 (length (enc_items its)) s'"
    using s_Bool_ahead [of s0 b r] a unfolding e
    by (auto simp: decodeBool_def set_from_def peeked_ops [OF pk] simp del: enc_str_01)
qed

lemma is_canonical_kind:
  assumes "is_canonical b" and "length b < 2 ^ 63"
  shows "\<exists>k c. kind_ok k c \<and> b = enc_kind k c"
proof -
  obtain k c where "Split b = Inr (k, c, [])"
    using assms(1) by (auto simp: is_canonical_def split: sum.splits prod.splits list.splits)
  from Split_canonical [OF this assms(2)] show ?thesis by auto
qed

lemma reads_Raw: "is_canonical b \<Longrightarrow> reads decodeRawValue (VRaw b) (Inr [Raw b])"
  unfolding reads_def
proof (intro allI impI)
  fix its s0 s r
  assume c: "is_canonical b" and i: "Inr [Raw b] = (Inr its :: enc_error + item list)"
    and a: "ahead s0 (enc_items its) r" and pk: "peeked s0 s"
  have e: "enc_items its = b" using i by auto
  then have "length b < 2 ^ 63" using a by (simp add: ahead_def fits_def)
  with is_canonical_kind [OF c] obtain k x where k: "kind_ok k x" "b = enc_kind k x" by blast
  show "\<exists>s'. decodeRawValue s = (Inr (VRaw b), s') \<and> consumed s0 (length (enc_items its)) s'"
    using s_Raw_ahead [OF k(1), of s0 r] a k(2) e
    by (auto simp: decodeRawValue_def peeked_ops [OF pk])
qed

lemma reads_deref:
  "reads dec (VPtr (Some v)) ris \<Longrightarrow> reads (\<lambda>s. deref (dec s)) v ris"
  unfolding reads_def deref_def by fastforce

lemma reads_BigInt:
  assumes "0 \<le> i"
  shows "reads decodeBigInt (VPtr (Some (VBig i))) (big_items i)"
  unfolding reads_def
proof (intro allI impI)
  fix its s0 s r
  assume i: "big_items i = Inr its" and a: "ahead s0 (enc_items its) r" and pk: "peeked s0 s"
  have e: "enc_items its = enc_str (be_bytes (nat i))" using i assms by (auto simp: big_items_def)
  have "\<not> (be_bytes (nat i) \<noteq> [] \<and> be_bytes (nat i) ! 0 = 0)"
    using hd_be_bytes [of "nat i"] by (auto simp: hd_conv_nth)
  with s_Bytes_ahead [of s0 "be_bytes (nat i)" r] a
  show "\<exists>s'. decodeBigInt s = (Inr (VPtr (Some (VBig i))), s') \<and> consumed s0 (length (enc_items its)) s'"
    using assms unfolding e by (auto simp: decodeBigInt_def peeked_ops [OF pk])
qed

lemma reads_ByteArray:
  assumes "length b = n" and "b \<noteq> [0]"
  shows "reads (decodeByteArray n) (VBytes b) (Inr [Str b])"
  unfolding reads_def
proof (intro allI impI)
  fix its s0 s r
  assume i: "Inr [Str b] = (Inr its :: enc_error + item list)" and a: "ahead s0 (enc_items its) r"
    and pk: "peeked s0 s"
  have e: "enc_items its = enc_str b" using i by auto
  show "\<exists>s'. decodeByteArray n s = (Inr (VBytes b), s') \<and> consumed s0 (length (enc_items its)) s'"
  proof (cases "single b")
    case True
    then obtain x where x: "b = [x]" by (auto simp: single_def length_Suc_conv)
    then have "0 < unat x" using assms(2) by (simp add: unat_gt_0)
    then have bx: "b = be_bytes (unat x)" using x by (simp add: be_bytes_small)
    from True have "enc_str b = b" by (simp add: enc_str_def)
    with s_Kind_byte [OF True, of s0 r] a e obtain s1 where
      s1: "s_Kind s0 = (Inr (Byte, 0), s1)" by auto
    then have "peeked s0 s1" by (auto simp: peeked_def)
    have "unat x < 2 ^ 64" by (rule less_trans [OF unat_byte_less]) simp
    moreover have "length (be_bytes (unat x)) \<le> 64 div 8" using x bx by simp
    ultimately
    obtain s' where "s_uint 64 s0 = (Inr (of_nat (unat x)), s')" "consumed s0 (length (enc_str b)) s'"
      using s_uint_ahead [of "unat x" 64 s0 r] a e unfolding bx by auto
    moreover have "(ucast (ucast x :: u64) :: byte) = x" by (rule bit_word_eqI) (simp add: bit_simps)
    ultimately show ?thesis using s1 x assms(1) peeked_ops(3) [OF \<open>peeked s0 s1\<close>] e
      by (simp add: decodeByteArray_def Let_def peeked_Kind [OF pk] s_Uint_def)
  next
    case False
    then have "kind_ok String b" "enc_kind String b = enc_str b"
      by (simp_all add: kind_ok_def enc_kind_def)
    with s_Kind_header [of String b s0 r] a e obtain s1 where s1:
      "s_Kind s0 = (Inr (String, of_nat (length b)), s1)" "ahead (s1\<lparr>kind := None\<rparr>) b r"
      "consumed s0 (length (enc_str b) - length b) (s1\<lparr>kind := None\<rparr>)" by auto
    have len: "length b < 2 ^ 63" "length b \<le> length (enc_str b)"
      using s1(2) False by (simp_all add: ahead_def fits_def enc_str_def)
    have "consumed s0 (length (enc_str b)) ((took (length b) s1)\<lparr>rdr := r\<rparr>)"
      using consumed_trans [OF s1(3) consumed_took [OF s1(2)]] len by simp
    moreover have "\<not> (of_nat (length b) = (1 :: u64) \<and> b ! 0 < 128)"
      using False len(1) by (simp add: of_nat_eq_1 single_def)
    moreover have "readFull (length b) s1 = (None, b, (took (length b) s1)\<lparr>rdr := r\<rparr>)"
      using readFull_after_Kind [OF s1(2)] len(1) by simp
    ultimately show ?thesis
      using s1(1) assms(1) e by (auto simp: decodeByteArray_def Let_def peeked_Kind [OF pk])
  qed
qed

lemma reads_ptr: "reads dec v ris \<Longrightarrow> reads (ptr_decoder dec) (VPtr (Some v)) ris"
  unfolding reads_def ptr_decoder_def by fastforce

text \<open>Each item list of a value that survives starts with one canonical value, whose kind and size
  \<open>s_Kind\<close> reports.\<close>

lemma str_kind: "\<exists>k c. kind_ok k c \<and> enc_str b = enc_kind k c"
  by (cases "single b") (force simp: kind_ok_def enc_kind_def split: rlp_kind.splits)+

lemma lst_kind: "lst r = Inr its \<Longrightarrow> \<exists>k c. kind_ok k c \<and> enc_items its = enc_kind k c"
  by (elim lst_InrE) (auto simp: kind_ok_def enc_kind_def split: rlp_kind.splits intro!: exI [of _ List])

lemma empty_kind:
  assumes "p = [0x80] \<or> p = [0xC0]"
  shows "\<exists>k c. kind_ok k c \<and> p = enc_kind k c"
  using assms
proof
  assume "p = [0x80]"
  then show ?thesis
    by (intro exI [of _ String] exI [of _ "[]"]) (simp add: kind_ok_def enc_kind_def single_def)
next
  assume "p = [0xC0]"
  then show ?thesis
    by (intro exI [of _ List] exI [of _ "[]"]) (simp add: kind_ok_def enc_kind_def)
qed

lemma rt_kind:
  assumes "rt t ts v" and "\<not> tail ts" and "items_of t ts v = Inr its" and "length (enc_items its) < 2 ^ 63"
  shows "\<exists>k c. kind_ok k c \<and> enc_items its = enc_kind k c"
  using assms
proof (induction t v arbitrary: ts its rule: val_type_induct)
  case (step t v)
  show ?case
  proof (cases t)
    case (TPtr e)
    show ?thesis
    proof (cases "v = VPtr None")
      case True
      with step.prems(1,3) TPtr have "enc_items its = [0x80] \<or> enc_items its = [0xC0]"
        by (subst (asm) rt.simps) (simp add: empty_enc_def)
      then show ?thesis by (rule empty_kind)
    next
      case False
      with step.prems(1) TPtr obtain x where v: "v = VPtr (Some x)" "rt e no_tags x"
        by (subst (asm) rt.simps) (cases v; simp split: option.splits)
      have "items_of e no_tags x = Inr its" using step.prems(3) unfolding TPtr v
        by (subst (asm) items_of.simps) simp
      with step.IH [of x e no_tags its] v step.prems(4) show ?thesis by (simp add: no_tags_def)
    qed
  next
    case TInterface
    from step.prems(1) [unfolded TInterface] show ?thesis
    proof (cases rule: rt_iface_cases)
      case (1 b)
      with step.prems(3) TInterface str_kind show ?thesis by (auto simp: items_of_iface)
    next
      case (2 vs)
      with step.prems(3) TInterface show ?thesis by (auto simp: items_of_iface intro: lst_kind)
    qed
  next
    case (TStruct fs)
    with step.prems(3) show ?thesis
      by (subst (asm) items_of.simps) (cases v; simp add: lst_kind split: sum.splits)
  next
    case (TSlice e)
    with step.prems(2,3) show ?thesis
      by (subst (asm) items_of.simps) (cases v; auto simp: str_kind lst_kind split: if_splits)
  next
    case (TArray n e)
    with step.prems(2,3) show ?thesis
      by (subst (asm) items_of.simps) (cases v; auto simp: str_kind lst_kind split: if_splits)
  next
    case TRawValue
    then obtain b where b: "v = VRaw b" "is_canonical b"
      using step.prems(1) by (subst (asm) rt.simps) (cases v; simp)
    have e: "enc_items its = b" using step.prems(3) b(1) TRawValue by (subst (asm) items_of.simps) auto
    show ?thesis
      using step.prems(4) unfolding e by (rule is_canonical_kind [OF b(2)])
  qed (use step.prems(3) in \<open>subst (asm) items_of.simps, cases v; auto simp: str_kind big_items_def
      simp del: enc_str_Nil enc_str_01 split: if_splits\<close>)+
qed

lemma s_Kind_rt:
  assumes "kind_ok k c" and "ahead s0 (enc_kind k c) r"
  shows "\<exists>n s1. s_Kind s0 = (Inr (k, n), s1) \<and> peeked s0 s1
    \<and> (n = 0 \<and> k \<noteq> Byte \<longleftrightarrow> enc_kind k c = [0x80] \<or> enc_kind k c = [0xC0])
    \<and> (n = 0 \<and> k \<noteq> Byte \<longrightarrow> consumed s0 (length (enc_kind k c)) (s1\<lparr>kind := None\<rparr>))"
proof -
  obtain n s1 where 1: "s_Kind s0 = (Inr (k, n), s1)" "peeked s0 s1" "n = 0 \<longleftrightarrow> k = Byte \<or> c = []"
    using s_Kind_ahead [OF assms(2,1)] by blast
  have "k \<noteq> Byte \<and> c = [] \<longleftrightarrow> enc_kind k c = [0x80] \<or> enc_kind k c = [0xC0]"
  proof (cases k)
    case Byte
    with assms(1) obtain x where "c = [x]" "x < 0x80"
      by (auto simp: kind_ok_def single_def length_Suc_conv)
    with Byte show ?thesis by (auto simp: enc_kind_def enc_str_def single_def)
  next
    case String
    then have "enc_kind k c = enc_head 0x80 0xB7 (length c) @ c"
      using assms(1) by (simp add: kind_ok_def enc_kind_def enc_str_def)
    with String show ?thesis by (auto simp: enc_head_def)
  next
    case List
    then have "enc_kind k c = enc_head 0xC0 0xF7 (length c) @ c"
      by (simp add: enc_kind_def enc_list_def)
    with List show ?thesis by (auto simp: enc_head_def)
  qed
  moreover have "consumed s0 (length (enc_kind k c)) (s1\<lparr>kind := None\<rparr>)" if "k \<noteq> Byte" "c = []"
    using s_Kind_header [OF that(1) assms] that(2) 1(1) by auto
  ultimately show ?thesis using 1 by auto
qed

section \<open>The round trip\<close>

text \<open>A decoder reads back its value; a \<open>tail\<close> decoder does so when nothing follows.\<close>

definition reads_tail :: "decoder \<Rightarrow> goval \<Rightarrow> enc_error + item list \<Rightarrow> bool" where
  "reads_tail dec v ris \<longleftrightarrow>
     (\<forall>its s r. ris = Inr its \<longrightarrow> ahead s (enc_items its) r \<longrightarrow>
       (\<forall>s'. consumed s (length (enc_items its)) s' \<longrightarrow> at_EOL s') \<longrightarrow>
       (\<exists>s'. dec s = (Inr v, s') \<and> consumed s (length (enc_items its)) s'))"

lemma reads_imp_tail: "reads dec v ris \<Longrightarrow> reads_tail dec v ris"
  unfolding reads_def reads_tail_def using peeked_refl by blast

lemma struct_reads:
  assumes "structFields genTypeInfo fs = Inr fds" and "length vs = length fs"
    and "\<And>j. j < length fs \<Longrightarrow> j \<in> fst ` set fds \<or> vs ! j = zero_val (snd (snd (snd (fs ! j))))"
    and "\<And>i ft fts. (i, ft, fts) \<in> set fds \<Longrightarrow> \<not> tail fts \<Longrightarrow> reads (dec (i, ft, fts)) (vs ! i) (f (i, ft, fts))"
    and "\<And>i ft fts. (i, ft, fts) \<in> set fds \<Longrightarrow> reads_tail (dec (i, ft, fts)) (vs ! i) (f (i, ft, fts))"
  shows "reads (struct_decoder fs (map (\<lambda>x. (fst x, dec x)) fds)) (VStruct vs) (lst (seq_items f fds))"
  unfolding reads_def
proof (intro allI impI)
  fix its s0 s r
  assume its: "lst (seq_items f fds) = Inr its" and a: "ahead s0 (enc_items its) r" and pk: "peeked s0 s"
  obtain its' where i: "seq_items f fds = Inr its'" "enc_items its = enc_list (enc_items its')"
    using lst_InrE [OF its] by blast
  obtain s' where s': "s_List s0 = (Inr (of_nat (length (enc_items its'))), s')" "inside s0 (enc_items its') r s'"
    using s_List_ahead [of s0 "enc_items its'" r] a i(2) by auto
  have a': "ahead s' (enc_items its') r" using s'(2) by (simp add: inside_def)
  let ?zs = "map (\<lambda>(name, tag, exported, t). zero_val t) fs"
  let ?us = "fold (\<lambda>x us. us[fst x := vs ! fst x]) fds ?zs"
  note props = structFields_props [OF assms(1)]
  have last: "\<exists>s'. dec (last fds) s = (Inr (vs ! fst (last fds)), s') \<and> consumed s (length (enc_items i)) s'"
    if "fds \<noteq> []" "f (last fds) = Inr i" "ahead s (enc_items i) r"
      "\<And>s'. consumed s (length (enc_items i)) s' \<Longrightarrow> at_EOL s'" for i s r
    using assms(5) [of "fst (last fds)" "fst (snd (last fds))" "snd (snd (last fds))"] that
      last_in_set [OF that(1)] unfolding reads_tail_def by auto
  have init: "reads (dec x) (vs ! fst x) (f x)" if "x \<in> set (butlast fds)" for x
  proof -
    obtain i ft fts where x: "x = (i, ft, fts)" by (cases x rule: prod_cases3)
    show ?thesis using that props(3) assms(4) in_set_butlastD [OF that] unfolding x by simp
  qed
  obtain s'' where e: "decode_fields fs (map (\<lambda>x. (fst x, dec x)) fds) ?zs s' = (Inr ?us, s'')"
      "consumed s' (length (enc_items its')) s''"
    using decode_fields_reads [of fds "\<lambda>x. (fst x, dec x)" "\<lambda>x. vs ! fst x" f its' s' r fs ?zs]
      init last i(1) a' inside_EOL [OF s'(2)] by auto
  have len: "x \<in> set fds \<Longrightarrow> fst x < length ?zs" for x
    using props(2) by (cases x) auto
  note us = fold_update_nth [of fds ?zs vs, OF len]
  have "?us ! j = vs ! j" if "j < length fs" for j
  proof -
    have "?zs ! j = zero_val (snd (snd (snd (fs ! j))))"
      using that by (simp add: case_prod_beta)
    with us [of j] assms(3) [OF that] that show ?thesis by auto
  qed
  then have "?us = vs" using us assms(2) by (intro nth_equalityI) simp_all
  moreover from s_ListEnd_inside [OF s'(2) e(2)] obtain s3
    where "s_ListEnd s'' = (Inr (), s3)" "consumed s0 (length (enc_items its)) s3" unfolding i(2) by blast
  ultimately show "\<exists>s'. struct_decoder fs (map (\<lambda>x. (fst x, dec x)) fds) s = (Inr (VStruct vs), s')
      \<and> consumed s0 (length (enc_items its)) s'"
    using s'(1) e(1) by (auto simp: struct_decoder_def peeked_ops [OF pk])
qed

lemma makeDecoder_atomic:
  "makeDecoder TRawValue ts = decodeRawValue"
  "makeDecoder (TPtr TBigInt) ts = decodeBigInt"
  "makeDecoder TBigInt ts = (\<lambda>s. deref (decodeBigInt s))"
  "makeDecoder (TPtr TNumber) ts = decodeNumberPtr"
  "makeDecoder TNumber ts = (\<lambda>s. deref (decodeNumberPtr s))"
  "makeDecoder (TUint k) ts = (\<lambda>s. set_from (TUint k) VUint (s_uint k s))"
  "makeDecoder (TInt k) ts = (\<lambda>s. set_from (TInt k) (\<lambda>v. VInt (int_of_bits k v)) (s_uint k s))"
  "makeDecoder TBool ts = decodeBool"
  "makeDecoder TString ts = (\<lambda>s. set_from TString VString (s_Bytes s))"
  "isByte e \<Longrightarrow> makeDecoder (TArray n e) ts = decodeByteArray n"
  "isByte e \<Longrightarrow> makeDecoder (TSlice e) ts = (\<lambda>s. set_from (TSlice e) VBytes (s_Bytes s))"
  by (rule ext, subst makeDecoder.simps, simp add: decodeBigIntNoPtr_def decodeNumber_def
      decodeUint_def decodeInt_def decodeString_def decodeByteSlice_def)+

lemma makeDecoder_composite:
  "\<not> isByte e \<Longrightarrow> makeDecoder (TArray n e) ts = decodeListArray (TArray n e) n (makeDecoder e no_tags)"
  "\<not> isByte e \<Longrightarrow> \<not> tail ts \<Longrightarrow> makeDecoder (TSlice e) ts = decodeListSlice (TSlice e) (makeDecoder e no_tags)"
  "structFields genTypeInfo fs = Inr fds \<Longrightarrow> makeDecoder (TStruct fs) ts =
     struct_decoder fs (map (\<lambda>x. (fst x, (\<lambda>(i, ft, fts). makeDecoder ft fts) x)) fds)"
  "e \<noteq> TBigInt \<Longrightarrow> e \<noteq> TNumber \<Longrightarrow> makeDecoder (TPtr e) ts =
     (if nilOK ts then optional_ptr_decoder (makeDecoder e no_tags) else ptr_decoder (makeDecoder e no_tags))"
  by (rule ext, subst makeDecoder.simps, simp add: case_prod_beta' cong: map_cong)+

lemma reads_NumberPtr: "reads decodeNumberPtr (VPtr (Some (VNum (Some n)))) (Inr [Str (Bytes \<lparr>V = Some n\<rparr>)])"
  using reads_Bytes [of "TPtr TNumber" "\<lambda>b. VPtr (Some (VNum (V (SetBytes \<lparr>V = None\<rparr> b))))" "Bytes \<lparr>V = Some n\<rparr>"]
  by (simp add: decodeNumberPtr_def [abs_def] SetBytes_Bytes)

lemma rt_atomicE:
  assumes "rt t ts v" and "t \<in> {TRawValue, TBigInt, TNumber, TBool, TString} \<or> isUint t \<or> isInt t"
  obtains b where "t = TRawValue" "v = VRaw b" "is_canonical b"
  | i where "t = TBigInt" "v = VBig i" "0 \<le> i"
  | n where "t = TNumber" "v = VNum (Some n)"
  | b where "t = TBool" "v = VBool b"
  | b where "t = TString" "v = VString b"
  | k i where "t = TUint k" "v = VUint i" "width_ok k" "unat i < 2 ^ k"
  | k i where "t = TInt k" "v = VInt i" "width_ok k" "int_of_bits k i = i"
  using assms by (subst (asm) rt.simps) (cases t; cases v; auto)

lemma reads_atomic:
  assumes "rt t ts v" and "t \<in> {TRawValue, TBigInt, TNumber, TBool, TString} \<or> isUint t \<or> isInt t"
  shows "reads (makeDecoder t ts) v (items_of t ts v)"
  using assms
proof (cases rule: rt_atomicE)
  case (7 k i)
  with int_bits_roundtrip [of k i] show ?thesis
    by (simp add: makeDecoder_atomic items_of.simps [of "TInt k"] reads_uint [of k "int_bits k i"])
qed (simp_all add: makeDecoder_atomic items_of.simps [of TRawValue] items_of.simps [of TBigInt]
    items_of.simps [of TNumber] items_of.simps [of TBool] items_of.simps [of TString]
    items_of.simps [of "TUint k" for k] reads_Raw reads_BigInt reads_deref reads_NumberPtr reads_Bool reads_Bytes reads_uint)

lemma reads_optional_nil:
  assumes "empty_enc ris"
  shows "reads (optional_ptr_decoder dec) (VPtr None) ris"
  unfolding reads_def
proof (intro allI impI)
  fix its s0 s r
  assume i: "ris = Inr its" and a: "ahead s0 (enc_items its) r" and pk: "peeked s0 s"
  have e: "enc_items its = [0x80] \<or> enc_items its = [0xC0]" using assms i by (simp add: empty_enc_def)
  obtain k c where k: "kind_ok k c" "enc_items its = enc_kind k c" using empty_kind [OF e] by blast
  show "\<exists>s'. optional_ptr_decoder dec s = (Inr (VPtr None), s') \<and> consumed s0 (length (enc_items its)) s'"
    using s_Kind_rt [OF k(1) a [unfolded k(2)]] e
    unfolding k(2) by (auto simp: optional_ptr_decoder_def peeked_Kind [OF pk])
qed

lemma reads_optional_some:
  assumes "reads dec v ris" and "\<not> empty_enc ris"
    and "\<And>its. ris = Inr its \<Longrightarrow> length (enc_items its) < 2 ^ 63 \<Longrightarrow> \<exists>k c. kind_ok k c \<and> enc_items its = enc_kind k c"
  shows "reads (optional_ptr_decoder dec) (VPtr (Some v)) ris"
  unfolding reads_def
proof (intro allI impI)
  fix its s0 s r
  assume i: "ris = Inr its" and a: "ahead s0 (enc_items its) r" and pk: "peeked s0 s"
  have e: "\<not> (enc_items its = [0x80] \<or> enc_items its = [0xC0])" using assms(2) i by (simp add: empty_enc_def)
  have "length (enc_items its) < 2 ^ 63" using a by (simp add: ahead_def fits_def)
  then obtain k c where k: "kind_ok k c" "enc_items its = enc_kind k c" using assms(3) i by blast
  obtain n s1 where s1: "s_Kind s0 = (Inr (k, n), s1)" "peeked s0 s1" "\<not> (n = 0 \<and> k \<noteq> Byte)"
    using s_Kind_rt [OF k(1) a [unfolded k(2)]] e unfolding k(2) by blast
  have "reads (ptr_decoder dec) (VPtr (Some v)) ris" using assms(1) by (rule reads_ptr)
  then obtain s' where "ptr_decoder dec s1 = (Inr (VPtr (Some v)), s')" "consumed s0 (length (enc_items its)) s'"
    using i a s1(2) unfolding reads_def by blast
  with s1(1,3) show "\<exists>s'. optional_ptr_decoder dec s = (Inr (VPtr (Some v)), s')
      \<and> consumed s0 (length (enc_items its)) s'"
    by (auto simp: optional_ptr_decoder_def peeked_Kind [OF pk])
qed

lemma peeked_list_left:
  assumes "ahead s0 (enc_list c) r" and "peeked s0 s"
  shows "length c \<le> length (rdr s)"
proof (cases "s = s0")
  case True
  with assms(1) enc_list_longer [of c] show ?thesis by (simp add: ahead_def)
next
  case False
  then obtain x where x: "s_Kind s0 = (Inr x, s)" using assms(2) by (auto simp: peeked_def)
  have "ahead s0 (enc_kind List c) r" using assms(1) by (simp add: enc_kind_def)
  from s_Kind_ahead [OF this] x have "c @ r = rdr s" by (auto simp: kind_ok_def)
  then show ?thesis by (metis length_append le_add1)
qed

lemma reads_iface:
  assumes "rt TInterface ts v"
  shows "reads (makeDecoder TInterface ts) v (items_of TInterface ts v)"
proof -
  have mk: "makeDecoder TInterface ts s = decodeInterface (Suc (Suc (length (rdr s)))) s" for s
    by (subst makeDecoder.simps) (simp add: slice_bound_def)
  from assms show ?thesis
  proof (cases rule: rt_iface_cases)
    case (1 b)
    show ?thesis
      unfolding 1 items_of_iface reads_def mk
      using iface_bytes_reads [unfolded reads_def] by blast
  next
    case (2 vs)
    show ?thesis
      unfolding 2 items_of_iface reads_def mk
    proof (intro allI impI)
      fix its s0 s r
      assume i: "lst (seq_items (items_of TInterface no_tags) vs) = Inr its"
        and a: "ahead s0 (enc_items its) r" and pk: "peeked s0 s"
      obtain its' where i': "seq_items (items_of TInterface no_tags) vs = Inr its'"
          "enc_items its = enc_list (enc_items its')"
        using lst_InrE [OF i] by blast
      have "length (enc_items its') \<le> length (rdr s)"
        using peeked_list_left [OF _ pk] a unfolding i'(2) by blast
      then have "reads (decodeInterface (Suc (length (rdr s)))) y (items_of TInterface no_tags y)"
        if "y \<in> set vs" for y
        using that 2(2) by (intro iface_elems_reads [OF i'(1)]) auto
      then have "reads (decodeInterface (Suc (Suc (length (rdr s))))) (VIface (Some (TSlice TInterface, VSeq vs)))
          (lst (seq_items (items_of TInterface no_tags) vs))"
        using 2(2) by (intro iface_list_reads) auto
      then show "\<exists>s'. decodeInterface (Suc (Suc (length (rdr s)))) s = (Inr (VIface (Some (TSlice TInterface, VSeq vs))), s')
          \<and> consumed s0 (length (enc_items its)) s'"
        using i a pk unfolding reads_def by blast
    qed
  qed
qed

lemma items_of_composite:
  "\<not> isByte e \<Longrightarrow> items_of (TSlice e) ts (VSeq vs) =
     (if tail ts then seq_items (items_of e no_tags) vs else lst (seq_items (items_of e no_tags) vs))"
  "\<not> isByte e \<Longrightarrow> \<not> tail ts \<Longrightarrow> items_of (TArray n e) ts (VSeq vs) = lst (seq_items (items_of e no_tags) vs)"
  "isByte e \<Longrightarrow> items_of (TSlice e) ts (VBytes b) = Inr [Str b]"
  "isByte e \<Longrightarrow> items_of (TArray n e) ts (VBytes b) = Inr [Str b]"
  "items_of (TPtr e) ts (VPtr (Some x)) = items_of e no_tags x"
  by (subst items_of.simps, simp)+

lemma items_of_struct:
  "structFields genTypeInfo fs = Inr fds \<Longrightarrow> items_of (TStruct fs) ts (VStruct vs) =
     lst (seq_items (\<lambda>(i, ft, fts). if i < length vs then items_of ft fts (vs ! i) else Inl EPanic) fds)"
  by (subst items_of.simps) simp

lemma no_tags_simps [simp]: "\<not> tail no_tags" "\<not> nilOK no_tags"
  by (simp_all add: no_tags_def)

lemma rt_ne:
  assumes "rt t ts v" and "\<not> tail ts" and "items_of t ts v = Inr its"
  shows "enc_items its \<noteq> []"
proof (cases "length (enc_items its) < 2 ^ 63")
  case True
  from rt_kind [OF assms this] obtain k c where "kind_ok k c" "enc_items its = enc_kind k c" by blast
  then show ?thesis by (cases k) (simp_all add: enc_kind_def)
qed auto

lemma rt_TStruct:
  "rt (TStruct fs) ts v \<longleftrightarrow>
     (\<exists>vs fds. v = VStruct vs \<and> length vs = length fs \<and> structFields genTypeInfo fs = Inr fds
       \<and> (\<forall>(i, ft, fts) \<in> set fds. i < length vs \<and> rt ft fts (vs ! i))
       \<and> (\<forall>j < length fs. j \<in> fst ` set fds \<or> vs ! j = zero_val (snd (snd (snd (fs ! j))))))"
  by (subst rt.simps)
    (cases v; auto simp: list_all_iff atLeast0LessThan split: sum.split if_splits prod.splits)

lemma rt_TSlice:
  "rt (TSlice e) ts v \<longleftrightarrow>
     (if isByte e then \<exists>b. v = VBytes b else \<exists>vs. v = VSeq vs \<and> (\<forall>x \<in> set vs. rt e no_tags x))"
  by (subst rt.simps) (cases v; simp add: list_all_iff)

lemma rt_TArray:
  "rt (TArray n e) ts v \<longleftrightarrow>
     (if isByte e then \<exists>b. v = VBytes b \<and> length b = n \<and> b \<noteq> [0]
      else \<exists>vs. v = VSeq vs \<and> length vs = n \<and> \<not> tail ts \<and> (\<forall>x \<in> set vs. rt e no_tags x))"
  by (subst rt.simps) (cases v; simp add: list_all_iff)

lemma rt_TPtr:
  "rt (TPtr e) ts v \<longleftrightarrow>
     (v = VPtr None \<and> nilOK ts \<and> e \<noteq> TBigInt \<and> e \<noteq> TNumber \<and> empty_enc (items_of (TPtr e) ts v)) \<or>
     (\<exists>x. v = VPtr (Some x) \<and> rt e no_tags x
       \<and> (nilOK ts \<longrightarrow> e = TBigInt \<or> e = TNumber \<or> \<not> empty_enc (items_of e no_tags x)))"
  by (subst rt.simps) (cases v; auto split: option.split)

text \<open>The tail of a struct is read to the end of the list.\<close>

lemma reads_tail_slice:
  assumes "\<not> isByte e" and "tail ts" and "genTypeInfo e no_tags = None"
    and "\<And>x. x \<in> set vs \<Longrightarrow> rt e no_tags x"
    and "\<And>x. x \<in> set vs \<Longrightarrow> reads (makeDecoder e no_tags) x (items_of e no_tags x)"
  shows "reads_tail (makeDecoder (TSlice e) ts) (VSeq vs) (items_of (TSlice e) ts (VSeq vs))"
  unfolding reads_tail_def
proof (intro allI impI)
  fix its s r
  assume i: "items_of (TSlice e) ts (VSeq vs) = Inr its" and a: "ahead s (enc_items its) r"
    and eol: "\<forall>s'. consumed s (length (enc_items its)) s' \<longrightarrow> at_EOL s'"
  have i': "seq_items (items_of e no_tags) vs = Inr its" using i assms(1,2) by (simp add: items_of_composite)
  have "length vs \<le> length (enc_items its)"
    by (rule length_seq_items [OF i'], rule rt_ne [of e no_tags]) (simp_all add: assms(4))
  then have "length vs < slice_bound s" using a by (simp add: slice_bound_def ahead_def)
  from decodeSliceElems_reads [OF assms(5) _ i' a this, of 0] eol makeDecoder_EOL [OF assms(3)]
  show "\<exists>s'. makeDecoder (TSlice e) ts s = (Inr (VSeq vs), s') \<and> consumed s (length (enc_items its)) s'"
    using assms(1,2) by (subst makeDecoder.simps) auto
qed

text \<open>One lemma per composite type; the induction hypothesis is a premise.\<close>

lemma reads_TPtr:
  assumes rtv: "rt (TPtr e) ts v" and ti: "genTypeInfo (TPtr e) ts = None"
    and IH: "\<And>x. v = VPtr (Some x) \<Longrightarrow> rt e no_tags x \<Longrightarrow> genTypeInfo e no_tags = None \<Longrightarrow>
      reads (makeDecoder e no_tags) x (items_of e no_tags x)"
  shows "reads (makeDecoder (TPtr e) ts) v (items_of (TPtr e) ts v)"
proof (cases "v = VPtr None")
  case True
  then have "nilOK ts" "e \<noteq> TBigInt" "e \<noteq> TNumber" "empty_enc (items_of (TPtr e) ts v)"
    using rtv unfolding rt_TPtr True by simp_all
  then show ?thesis unfolding True by (simp add: makeDecoder_composite reads_optional_nil)
next
  case False
  then obtain x where x: "v = VPtr (Some x)" "rt e no_tags x"
      "nilOK ts \<longrightarrow> e = TBigInt \<or> e = TNumber \<or> \<not> empty_enc (items_of e no_tags x)"
    using rtv unfolding rt_TPtr by blast
  consider "e = TBigInt" | "e = TNumber" | "e \<noteq> TBigInt" "e \<noteq> TNumber" by blast
  then show ?thesis
  proof cases
    case 1
    obtain i where "x = VBig i" "0 \<le> i" by (rule rt_atomicE [OF x(2)]) (auto simp: 1)
    with 1 show ?thesis
      unfolding x(1) items_of_composite
      by (simp add: makeDecoder_atomic items_of.simps [of TBigInt] reads_BigInt)
  next
    case 2
    obtain n where "x = VNum (Some n)" by (rule rt_atomicE [OF x(2)]) (auto simp: 2)
    with 2 show ?thesis
      unfolding x(1) items_of_composite
      by (simp add: makeDecoder_atomic items_of.simps [of TNumber] reads_NumberPtr)
  next
    case 3
    have "genTypeInfo e no_tags = None" using ti 3 by (rule genTypeInfo_elem)
    with IH x have "reads (makeDecoder e no_tags) x (items_of e no_tags x)" by simp
    with 3 x rt_kind [OF x(2)] show ?thesis
      unfolding x(1) items_of_composite
      by (auto simp: makeDecoder_composite intro: reads_ptr reads_optional_some)
  qed
qed

lemma reads_TSlice:
  assumes rtv: "rt (TSlice e) ts v" and ti: "genTypeInfo (TSlice e) ts = None"
    and IH: "\<And>x vs. v = VSeq vs \<Longrightarrow> x \<in> set vs \<Longrightarrow> rt e no_tags x \<Longrightarrow> genTypeInfo e no_tags = None \<Longrightarrow>
      reads (makeDecoder e no_tags) x (items_of e no_tags x)"
  shows "(\<not> tail ts \<longrightarrow> reads (makeDecoder (TSlice e) ts) v (items_of (TSlice e) ts v)) \<and>
    reads_tail (makeDecoder (TSlice e) ts) v (items_of (TSlice e) ts v)"
proof (cases "isByte e")
  case True
  then obtain b where "v = VBytes b" using rtv unfolding rt_TSlice by auto
  with True reads_Bytes reads_imp_tail show ?thesis
    by (auto simp: makeDecoder_atomic items_of_composite)
next
  case False
  then obtain vs where v: "v = VSeq vs" "\<And>x. x \<in> set vs \<Longrightarrow> rt e no_tags x"
    using rtv unfolding rt_TSlice by auto
  have ei: "genTypeInfo e no_tags = None" using ti False by (rule genTypeInfo_elem)
  note el = IH [OF v(1) _ v(2) ei]
  show ?thesis
  proof (cases "tail ts")
    case True
    with reads_tail_slice [OF False True ei v(2) el] show ?thesis by (simp add: v(1))
  next
    case nt: False
    have "reads (makeDecoder (TSlice e) ts) v (items_of (TSlice e) ts v)"
      using False nt el makeDecoder_EOL [OF ei] rt_ne [OF v(2)]
      by (simp add: v(1) makeDecoder_composite items_of_composite decodeListSlice_reads)
    then show ?thesis using reads_imp_tail by blast
  qed
qed

lemma reads_TArray:
  assumes rtv: "rt (TArray n e) ts v" and ti: "genTypeInfo (TArray n e) ts = None"
    and IH: "\<And>x vs. v = VSeq vs \<Longrightarrow> x \<in> set vs \<Longrightarrow> rt e no_tags x \<Longrightarrow> genTypeInfo e no_tags = None \<Longrightarrow>
      reads (makeDecoder e no_tags) x (items_of e no_tags x)"
  shows "reads (makeDecoder (TArray n e) ts) v (items_of (TArray n e) ts v)"
proof (cases "isByte e")
  case True
  then obtain b where "v = VBytes b" "length b = n" "b \<noteq> [0]" using rtv unfolding rt_TArray by auto
  with True show ?thesis by (auto simp: makeDecoder_atomic items_of_composite reads_ByteArray)
next
  case False
  then obtain vs where v: "v = VSeq vs" "length vs = n" "\<not> tail ts" "\<And>x. x \<in> set vs \<Longrightarrow> rt e no_tags x"
    using rtv unfolding rt_TArray by auto
  have ei: "genTypeInfo e no_tags = None" using ti False by (rule genTypeInfo_elem)
  with False v IH [OF v(1) _ v(4) ei] show ?thesis
    by (simp add: makeDecoder_composite items_of_composite decodeListArray_reads)
qed

lemma reads_TStruct:
  assumes rtv: "rt (TStruct fs) ts v"
    and IH: "\<And>i ft fts vs. v = VStruct vs \<Longrightarrow> i < length vs \<Longrightarrow> rt ft fts (vs ! i) \<Longrightarrow> genTypeInfo ft fts = None \<Longrightarrow>
      (\<not> tail fts \<longrightarrow> reads (makeDecoder ft fts) (vs ! i) (items_of ft fts (vs ! i))) \<and>
      reads_tail (makeDecoder ft fts) (vs ! i) (items_of ft fts (vs ! i))"
  shows "reads (makeDecoder (TStruct fs) ts) v (items_of (TStruct fs) ts v)"
proof -
  obtain fds vs where fds: "structFields genTypeInfo fs = Inr fds"
    and v: "v = VStruct vs" "length vs = length fs"
      "\<And>i ft fts. (i, ft, fts) \<in> set fds \<Longrightarrow> i < length vs \<and> rt ft fts (vs ! i)"
      "\<And>j. j < length fs \<Longrightarrow> j \<in> fst ` set fds \<or> vs ! j = zero_val (snd (snd (snd (fs ! j))))"
    using rtv unfolding rt_TStruct by fastforce
  note fld = IH [OF v(1) _ _ conjunct2 [OF structFields_props(2) [OF fds]]]
  show ?thesis
    unfolding v(1) makeDecoder_composite(3) [OF fds] items_of_struct [OF fds]
    using fld v(3) by (intro struct_reads [OF fds v(2,4)]) auto
qed

lemma makeDecoder_reads:
  "rt t ts v \<Longrightarrow> genTypeInfo t ts = None \<Longrightarrow>
     (\<not> tail ts \<longrightarrow> reads (makeDecoder t ts) v (items_of t ts v)) \<and>
     reads_tail (makeDecoder t ts) v (items_of t ts v)"
proof (induction t v arbitrary: ts rule: val_type_induct)
  case (step t v)
  note IH = step.IH and rtv = step.prems(1) and ti = step.prems(2)
  show ?case
  proof (cases t)
    case (TStruct fs)
    have "reads (makeDecoder (TStruct fs) ts) v (items_of (TStruct fs) ts v)"
      by (rule reads_TStruct, use rtv TStruct in simp, rule IH) (auto simp: size_nth_goval)
    then show ?thesis using TStruct reads_imp_tail by blast
  next
    case (TPtr e)
    have "reads (makeDecoder (TPtr e) ts) v (items_of (TPtr e) ts v)"
      by (rule reads_TPtr) (use rtv ti TPtr IH in \<open>auto\<close>)
    then show ?thesis using TPtr reads_imp_tail by blast
  next
    case (TSlice e)
    show ?thesis
      unfolding TSlice
      by (rule reads_TSlice) (use rtv ti TSlice IH [of _ e no_tags] in \<open>auto simp: size_mem_goval\<close>)
  next
    case (TArray n e)
    have "reads (makeDecoder (TArray n e) ts) v (items_of (TArray n e) ts v)"
      by (rule reads_TArray) (use rtv ti TArray IH [of _ e no_tags] in \<open>auto simp: size_mem_goval\<close>)
    then show ?thesis using TArray reads_imp_tail by blast
  next
    case TInterface
    with reads_iface rtv reads_imp_tail show ?thesis by blast
  next
    case TOther
    with ti show ?thesis by (simp add: genTypeInfo_TOther)
  qed (use reads_atomic [OF rtv] reads_imp_tail in \<open>auto\<close>)+
qed

text \<open>A value that survives has an encoding.\<close>

lemma seq_items_ok: "(\<And>x. x \<in> set xs \<Longrightarrow> \<exists>i. f x = Inr i) \<Longrightarrow> \<exists>i. seq_items f xs = Inr i"
  by (induction xs) force+

lemma lst_ok: "\<exists>i. r = Inr i \<Longrightarrow> \<exists>i. lst r = Inr i"
  by (auto simp: lst_def)

lemma rt_items_ok: "rt t ts v \<Longrightarrow> \<exists>its. items_of t ts v = Inr its"
proof (induction t v arbitrary: ts rule: val_type_induct)
  case (step t v)
  note IH = step.IH and rtv = step.prems
  show ?case
  proof (cases t)
    case (TStruct fs)
    then obtain vs fds where v: "v = VStruct vs" "structFields genTypeInfo fs = Inr fds"
        "\<And>i ft fts. (i, ft, fts) \<in> set fds \<Longrightarrow> i < length vs \<and> rt ft fts (vs ! i)"
      using rtv unfolding TStruct rt_TStruct by fastforce
    show ?thesis
      unfolding TStruct v(1) items_of_struct [OF v(2)]
      by (intro lst_ok seq_items_ok) (use v in \<open>auto simp: size_nth_goval dest!: v(3) intro!: IH\<close>)
  next
    case (TPtr e)
    show ?thesis
    proof (cases "v = VPtr None")
      case True
      with rtv show ?thesis unfolding TPtr rt_TPtr by (auto simp: empty_enc_def split: sum.splits)
    next
      case False
      then obtain x where "v = VPtr (Some x)" "rt e no_tags x" using rtv unfolding TPtr rt_TPtr by blast
      with IH [of x e no_tags] show ?thesis by (simp add: TPtr items_of_composite)
    qed
  next
    case (TSlice e)
    with rtv IH [of _ e no_tags] show ?thesis
      unfolding TSlice rt_TSlice
      by (auto simp: items_of_composite size_mem_goval intro!: lst_ok seq_items_ok split: if_splits)
  next
    case (TArray n e)
    with rtv IH [of _ e no_tags] show ?thesis
      unfolding TArray rt_TArray
      by (auto simp: items_of_composite size_mem_goval intro!: lst_ok seq_items_ok split: if_splits)
  next
    case TInterface
    from rtv [unfolded TInterface] show ?thesis
    proof (cases rule: rt_iface_cases)
      case (2 vs)
      then show ?thesis
        using IH [of _ TInterface no_tags] size_mem_goval [of _ vs]
        by (auto simp: TInterface items_of_iface less_Suc_eq intro!: lst_ok seq_items_ok)
    qed (simp add: TInterface items_of_iface)
  qed (use rtv in \<open>subst (asm) rt.simps, subst items_of.simps, cases v; simp add: big_items_def\<close>)+
qed

section \<open>Properties of the decoder\<close>

lemma NewStream_ahead:
  assumes "length (p @ r) < 2 ^ 63"
  shows "ahead (NewStream (p @ r) True (of_nat (length (p @ r)))) p r"
proof -
  have u: "unat (of_nat (length p) + of_nat (length r) :: u64) = length p + length r"
    using assms by (simp flip: of_nat_add)
  with assms show ?thesis
    by (auto simp: NewStream_def Reset_def new_stream_def Let_def ahead_def fits_def word_less_nat_alt)
qed

lemma DecodeBytes_reads:
  assumes "rt t no_tags v" and "genTypeInfo t no_tags = None" and "items_of t no_tags v = Inr its"
    and "length (enc_items its @ r) < 2 ^ 63"
  shows "DecodeBytes (enc_items its @ r) t = (if r = [] then Inr v else Inl (Plain ErrMoreThanOneValue))"
proof -
  let ?s = "NewStream (enc_items its @ r) True (of_nat (length (enc_items its @ r)))"
  have a: "ahead ?s (enc_items its) r" using assms(4) by (rule NewStream_ahead)
  obtain s' where s': "makeDecoder t no_tags ?s = (Inr v, s')" "consumed ?s (length (enc_items its)) s'"
    using makeDecoder_reads [OF assms(1,2)] readsD [OF _ a] assms(3) by auto
  then have "rdr s' = r" using a by (simp add: consumed_def ahead_def)
  with s'(1) assms(2) show ?thesis by (simp add: DecodeBytes_def s_Decode_def)
qed

text \<open>C1. Round trip: every value that survives (\<open>rt\<close>: integers in range, numbers with a value,
  zero in the fields that are not encoded, \<dots>) is encoded without error, and \<open>DecodeBytes\<close> of
  the encoding returns it; with bytes appended the decoder reports them instead of ignoring them.\<close>

theorem Decode_Encode:
  assumes "pool_ok pool" and "genTypeInfo t no_tags = None" and "rt t no_tags v"
    and "\<And>p. enc_val t v = Inr p \<Longrightarrow> length (p @ r) < 2 ^ 63"
  shows "\<exists>b. EncodeToBytes pool t v = Inr b \<and>
    DecodeBytes (b @ r) t = (if r = [] then Inr v else Inl (Plain ErrMoreThanOneValue))"
proof -
  obtain its where i: "items_of t no_tags v = Inr its" using rt_items_ok [OF assms(3)] by blast
  then have e: "enc_val t v = Inr (enc_items its)" using assms(2) by (simp add: enc_val_def)
  with assms(4) have len: "length (enc_items its @ r) < 2 ^ 63" by blast
  with e have "EncodeToBytes pool t v = Inr (enc_items its)"
    using encode_cases [OF assms(1), of t v] toBytes_emits by (auto simp: EncodeToBytes_def)
  with DecodeBytes_reads [OF assms(3,2) i len] show ?thesis by blast
qed

text \<open>The sample of the encoder survives.\<close>

lemma sample_rt: "rt sample_type no_tags sample_val" "genTypeInfo sample_type no_tags = None"
proof -
  have f: "structFields genTypeInfo [(''A'', [], True, TUint 64), (''B'', [], True, TSlice (TUint 8)),
        (''C'', ''tail'', True, TSlice TString)] =
      Inr [(0, TUint 64, no_tags), (1, TSlice (TUint 8), no_tags), (2, TSlice TString, no_tags\<lparr>tail := True\<rparr>)]"
    by code_simp
  have r: "rt (TUint 64) no_tags (VUint 1024)" "rt TString no_tags (VString b)" for b
    by (simp_all add: rt.simps [of "TUint 64"] rt.simps [of TString] width_ok_def)
  show "rt sample_type no_tags sample_val"
    by (simp add: sample_type_def sample_val_def rt_TStruct f r rt_TSlice isByte_def less_Suc_eq numeral_eq_Suc [of "num.Bit1 num.One"])
  show "genTypeInfo sample_type no_tags = None" by code_simp
qed

theorem Decode_Encode_witness:
  "\<exists>b. EncodeToBytes new_encbuf sample_type sample_val = Inr b \<and>
    DecodeBytes (b @ [1]) sample_type = (if [1] = ([] :: bytes) then Inr sample_val else Inl (Plain ErrMoreThanOneValue))"
  by (rule Decode_Encode [OF pool_ok_new sample_rt(2,1)]) (simp add: sample_enc)

end
