(* ===== verification/RlpTotal.thy ===== *)
theory RlpTotal
  imports RlpRoundtrip
begin

text \<open>
  Decoding untrusted input. For every input and every type without one-byte arrays,
  \<open>DecodeBytes\<close> returns a value or an error: no loop runs on, no index is out of range. The
  invariant is on the stream (\<open>sinv\<close>); each operation either fails or makes progress, reading at
  least one byte unless the header was read before (\<open>good\<close>, \<open>dgood\<close>). With a one-byte
  array of zero the header stays unread, and a slice of them keeps the loop going for ever.
\<close>

section \<open>Progress of the stream operations\<close>

definition sinv :: "stream \<Rightarrow> bool" where
  "sinv s \<longleftrightarrow> length (uintbuf s) = 8 \<and> kinderr s \<noteq> Some GoPanic \<and> kinderr s \<noteq> Some EOL"

abbreviation left :: "stream \<Rightarrow> nat" where
  "left s \<equiv> length (rdr s)"

definition bad :: "rlp_error \<Rightarrow> bool" where
  "bad e \<longleftrightarrow> e = GoPanic \<or> e = EOL"

definition good :: "stream \<Rightarrow> 'a sres \<Rightarrow> bool" where
  "good s r \<longleftrightarrow>
     (case r of
        (Inl e, s') \<Rightarrow> e \<noteq> GoPanic \<and> (e = EOL \<longrightarrow> kind s' = None) \<and> sinv s' \<and> left s' \<le> left s
      | (Inr _, s') \<Rightarrow> sinv s' \<and> kind s' = None \<and> left s' + (if kind s = None then 1 else 0) \<le> left s)"

lemma willRead_cases:
  assumes "willRead n s = (e, s')"
  shows "rdr s' = rdr s" "kind s' = None" "sinv s' = sinv s" "uintbuf s' = uintbuf s" "\<And>x. e = Some x \<Longrightarrow> \<not> bad x"
  using assms
  by (auto simp: willRead_def Let_def sinv_def bad_def split: list.splits if_splits)

lemma readByte_cases:
  assumes "readByte s = (r, s')"
  shows "kind s' = None" "sinv s' = sinv s" "left s' \<le> left s" "\<And>x. r = Inl x \<Longrightarrow> \<not> bad x"
    "\<And>b. r = Inr b \<Longrightarrow> left s' < left s"
proof -
  obtain e s1 where w: "willRead 1 s = (e, s1)" by (cases "willRead 1 s")
  note c = willRead_cases [OF w]
  show "kind s' = None" "sinv s' = sinv s" "left s' \<le> left s" "\<And>x. r = Inl x \<Longrightarrow> \<not> bad x"
    "\<And>b. r = Inr b \<Longrightarrow> left s' < left s"
    using assms c by (auto simp: readByte_def w sinv_def bad_def split: option.splits list.splits)
qed

lemma fill_loop_cases:
  "fill_loop n r = (e, d, r') \<Longrightarrow> length d \<le> n \<and> length r' \<le> length r \<and> (e = None \<longrightarrow> length d = n) \<and> (\<forall>x. e = Some x \<longrightarrow> \<not> bad x)"
proof (induction n r arbitrary: e d r' rule: fill_loop.induct)
  case (1 n r)
  show ?case
  proof (cases "n = 0 \<or> r = []")
    case True
    with "1.prems" show ?thesis
      by (subst (asm) fill_loop.simps) (auto simp: Reader_Read_def bad_def split: if_splits)
  next
    case False
    obtain e1 d1 r1 where f: "fill_loop (n - length (take n r)) (drop n r) = (e1, d1, r1)"
      by (cases "fill_loop (n - length (take n r)) (drop n r)")
    have eq: "fill_loop n r = (e1, take n r @ d1, r1)"
      using False f by (subst fill_loop.simps) (simp add: Reader_Read_def)
    have IH: "length d1 \<le> n - length (take n r) \<and> length r1 \<le> length (drop n r)
        \<and> (e1 = None \<longrightarrow> length d1 = n - length (take n r)) \<and> (\<forall>x. e1 = Some x \<longrightarrow> \<not> bad x)"
      by (rule "1.IH") (use False f in \<open>auto simp: Reader_Read_def\<close>)
    moreover have "e = e1" "d = take n r @ d1" "r' = r1" using eq "1.prems" by simp_all
    moreover have "length (take n r) \<le> n" "length (drop n r) \<le> length r" by simp_all
    ultimately show ?thesis
      by (elim conjE, intro conjI impI) (simp_all only: length_append simp_thms, linarith+)
  qed
qed

lemma readFull_cases:
  assumes "readFull n s = (e, d, s')"
  shows "kind s' = None" "sinv s' = sinv s" "uintbuf s' = uintbuf s" "left s' \<le> left s" "length d \<le> n"
    "e = None \<Longrightarrow> length d = n" "\<And>x. e = Some x \<Longrightarrow> \<not> bad x"
proof -
  obtain e1 s1 where w: "willRead (of_nat n) s = (e1, s1)" by (cases "willRead (of_nat n) s")
  obtain e2 d2 r2 where f: "fill_loop n (rdr s1) = (e2, d2, r2)" by (cases "fill_loop n (rdr s1)")
  note c = willRead_cases [OF w] and fc = fill_loop_cases [OF f]
  have "kind s' = None \<and> sinv s' = sinv s \<and> uintbuf s' = uintbuf s \<and> left s' \<le> left s \<and> length d \<le> n
      \<and> (e = None \<longrightarrow> length d = n) \<and> (\<forall>x. e = Some x \<longrightarrow> \<not> bad x)"
  proof (cases e1)
    case None
    then have "e = (if e2 = Some EOF then Some ErrUnexpectedEOF else e2)" "d = d2" "s' = s1\<lparr>rdr := r2\<rparr>"
      using assms by (simp_all add: readFull_def w f)
    moreover have "\<not> bad ErrUnexpectedEOF" by (simp add: bad_def)
    ultimately show ?thesis using c(1-4) fc by (auto simp: sinv_def)
  next
    case (Some x)
    then have "e = Some x" "d = []" "s' = s1" using assms by (simp_all add: readFull_def w)
    then show ?thesis using c(1-4) c(5) [OF Some] by simp
  qed
  then show "kind s' = None" "sinv s' = sinv s" "uintbuf s' = uintbuf s" "left s' \<le> left s" "length d \<le> n"
    "e = None \<Longrightarrow> length d = n" "\<And>x. e = Some x \<Longrightarrow> \<not> bad x" by blast+
qed

lemma readUint_cases:
  assumes "readUint sz s = (r, s')" and "sinv s" and "unat sz \<le> 8"
  shows "kind s' = None" "sinv s'" "left s' \<le> left s" "\<And>x. r = Inl x \<Longrightarrow> \<not> bad x"
proof -
  consider "sz = 0" | "sz = 1" | "sz \<noteq> 0" "sz \<noteq> 1" by blast
  then have "kind s' = None \<and> sinv s' \<and> left s' \<le> left s \<and> (\<forall>x. r = Inl x \<longrightarrow> \<not> bad x)"
  proof cases
    case 1
    with assms show ?thesis by (auto simp: readUint_def sinv_def)
  next
    case 2
    obtain r1 s1 where b: "readByte s = (r1, s1)" by (cases "readByte s")
    from readByte_cases [OF b] 2 assms show ?thesis
      by (auto simp: readUint_def b split: sum.splits)
  next
    case 3
    have u: "length (uintbuf s) = 8" using assms(2) by (simp add: sinv_def)
    define start where "start = unat (8 - sz)"
    have "start = 8 - unat sz" using assms(3) by (simp add: start_def unat_sub word_le_nat_alt)
    moreover have "0 < unat sz" using 3(1) by (simp add: unat_gt_0)
    ultimately have st: "start < 8" by simp
    obtain e d s1 where f: "readFull (8 - start) s = (e, d, s1)" by (cases "readFull (8 - start) s")
    note c = readFull_cases [OF f]
    let ?s2 = "s1\<lparr>uintbuf := replicate start 0 @ d @ drop (start + length d) (uintbuf s1)\<rparr>"
    have "sinv ?s2" using c(2,3,5) assms(2) u st by (simp add: sinv_def)
    moreover have "s' = ?s2" "\<And>x. r = Inl x \<Longrightarrow> \<not> bad x"
      using assms(1) 3 f st u c(7)
      by (auto simp: readUint_def Let_def bad_def simp flip: start_def split: option.splits if_splits)
    ultimately show ?thesis using c by simp
  qed
  then show "kind s' = None" "sinv s'" "left s' \<le> left s" "\<And>x. r = Inl x \<Longrightarrow> \<not> bad x" by blast+
qed

lemma s_readKind_cases:
  assumes "s_readKind s = ((k, n, e), s')" and "sinv s"
  shows "kind s' = None" "sinv s'" "left s' \<le> left s" "e = None \<Longrightarrow> left s' < left s" "\<And>x. e = Some x \<Longrightarrow> \<not> bad x"
proof -
  obtain r s1 where b: "readByte s = (r, s1)" by (cases "readByte s")
  note c = readByte_cases [OF b]
  have "kind s' = None \<and> sinv s' \<and> left s' \<le> left s \<and> (e = None \<longrightarrow> left s' < left s) \<and> (\<forall>x. e = Some x \<longrightarrow> \<not> bad x)"
  proof (cases r)
    case (Inl x)
    then have "s' = s1" "e = Some (if stack s1 = [] \<and> (x = ErrUnexpectedEOF \<or> x = ErrValueTooLarge) then EOF else x)"
      using assms(1) by (auto simp: s_readKind_def b Let_def)
    then show ?thesis using c(1-3) c(4) [OF Inl] assms(2) by (simp add: bad_def)
  next
    case (Inr v)
    let ?s = "s1\<lparr>byteval := 0\<rparr>"
    have s: "sinv ?s" "kind ?s = None" "left ?s < left s" using c(1,2) c(5) [OF Inr] assms(2) by (simp_all add: sinv_def)
    have long: "kind t = None \<and> sinv t \<and> left t \<le> left ?s \<and> (\<forall>x. e = Some x \<longrightarrow> \<not> bad x)"
      if "(case readUint sz ?s of
                      (Inl e, s) \<Rightarrow> ((k', 0, Some e), s)
                    | (Inr n, s) \<Rightarrow> ((k', n, if n < 56 then Some ErrCanonSize else None), s)) = ((k, n, e), t)"
        and "unat sz \<le> 8" for sz t k'
    proof -
      obtain r2 s2 where u: "readUint sz ?s = (r2, s2)" by (cases "readUint sz ?s")
      note cu = readUint_cases [OF u s(1) that(2)]
      from that(1) have "t = s2" by (auto simp: u split: sum.splits)
      moreover from that(1) have "\<forall>x. e = Some x \<longrightarrow> \<not> bad x"
        using cu(4) by (auto simp: u bad_def split: sum.splits if_splits)
      ultimately show ?thesis using cu(1-3) by blast
    qed
    have w: "unat (v - 0xB7) \<le> 8" if "\<not> v < 0xB8" "v < 0xC0"
      using that by (simp add: unat_sub word_le_nat_alt word_less_nat_alt)
    have w': "unat (v - 0xF7) \<le> 8" if "\<not> v < 0xF8"
    proof -
      have "unat (v - 0xF7) = unat v - 247"
        using that by (simp add: unat_sub word_le_nat_alt word_less_nat_alt)
      then show ?thesis using unat_byte_less [of v] by linarith
    qed
    consider "v < 0x80" "s' = ?s\<lparr>byteval := v\<rparr>" "e = None"
      | "\<not> v < 0x80" "s' = ?s" "e = None"
      | "kind s' = None \<and> sinv s' \<and> left s' \<le> left ?s \<and> (\<forall>x. e = Some x \<longrightarrow> \<not> bad x)"
      using assms(1) long [OF _ w, of String s'] long [OF _ w', of List s']
      by (auto simp: s_readKind_def b Inr Let_def split: if_splits)
    then show ?thesis using s by cases (auto simp: sinv_def)
  qed
  then show "kind s' = None" "sinv s'" "left s' \<le> left s" "e = None \<Longrightarrow> left s' < left s" "\<And>x. e = Some x \<Longrightarrow> \<not> bad x"
    by blast+
qed

text \<open>After a header was read without error, the stream stands before its payload.\<close>

lemma s_Kind_Inl:
  assumes "s_Kind s = (Inl e, s')" and "sinv s"
  shows "e \<noteq> GoPanic" "e = EOL \<longrightarrow> kind s' = None" "sinv s'" "left s' \<le> left s"
proof -
  have "e \<noteq> GoPanic \<and> (e = EOL \<longrightarrow> kind s' = None) \<and> sinv s' \<and> left s' \<le> left s"
  proof (cases "kind s")
    case (Some k)
    with assms show ?thesis by (auto simp: s_Kind_def kind_result_def sinv_def split: option.splits)
  next
    case None
    let ?s = "s\<lparr>kinderr := None\<rparr>"
    have si: "sinv ?s" using assms(2) by (simp add: sinv_def)
    obtain k n err s1 where r: "s_readKind ?s = ((k, n, err), s1)"
      by (cases "s_readKind ?s") (metis prod_cases3)
    note c = s_readKind_cases [OF r si]
    show ?thesis
    proof (cases "stack s \<noteq> [] \<and> pos (hd (stack s)) = lsize (hd (stack s))")
      case True
      with None assms have "e = EOL" "s' = ?s" by (auto simp: s_Kind_def Let_def)
      with None si show ?thesis by simp
    next
      case False
      define err' where "err' = (if err \<noteq> None then err else if stack s1 = [] then
                                 (if limited s1 \<and> remaining s1 < n then Some ErrValueTooLarge else None)
                               else if lsize (hd (stack s1)) - pos (hd (stack s1)) < n
                               then Some ErrElemTooLarge else None)"
      have "kind_result (s1\<lparr>kind := Some k, ssize := n, kinderr := err'\<rparr>) = (Inl e, s')"
        using assms(1) False None r by (simp add: s_Kind_def Let_def err'_def)
      then have e: "err' = Some e" "s' = s1\<lparr>kind := Some k, ssize := n, kinderr := err'\<rparr>"
        by (auto simp: kind_result_def split: option.splits)
      have "\<not> bad e"
      proof (cases err)
        case None
        then show ?thesis using e(1) by (auto simp: err'_def bad_def split: if_splits)
      next
        case (Some x)
        then have "x = e" using e(1) by (simp add: err'_def)
        with c(5) Some show ?thesis by blast
      qed
      then show ?thesis using e c(2,3) by (auto simp: sinv_def bad_def)
    qed
  qed
  then show "e \<noteq> GoPanic" "e = EOL \<longrightarrow> kind s' = None" "sinv s'" "left s' \<le> left s" by blast+
qed

lemma s_Kind_Inr:
  assumes "s_Kind s = (Inr x, s')" and "sinv s"
  shows "kind s' \<noteq> None" "sinv s'" "left s' + (if kind s = None then 1 else 0) \<le> left s"
proof -
  have "kind s' \<noteq> None \<and> sinv s' \<and> left s' + (if kind s = None then 1 else 0) \<le> left s"
  proof (cases "kind s")
    case (Some k)
    with assms show ?thesis by (auto simp: s_Kind_def kind_result_def sinv_def split: option.splits)
  next
    case None
    let ?s = "s\<lparr>kinderr := None\<rparr>"
    have si: "sinv ?s" using assms(2) by (simp add: sinv_def)
    obtain k n err s1 where r: "s_readKind ?s = ((k, n, err), s1)"
      by (cases "s_readKind ?s") (metis prod_cases3)
    note c = s_readKind_cases [OF r si]
    have "err = None" "s' = s1\<lparr>kind := Some k, ssize := n, kinderr := None\<rparr>"
      using assms(1) None r
      by (auto simp: s_Kind_def Let_def kind_result_def split: option.splits if_splits)
    then show ?thesis using c None by (simp add: sinv_def)
  qed
  then show "kind s' \<noteq> None" "sinv s'" "left s' + (if kind s = None then 1 else 0) \<le> left s" by blast+
qed

lemma goodI_Inl:
  assumes "sinv s'" "left s' \<le> left s" "\<not> bad e"
  shows "good s (Inl e, s')"
  using assms by (simp add: good_def bad_def)

lemma goodI_Inr:
  assumes "sinv s'" "kind s' = None" "left s' + (if kind s = None then 1 else 0) \<le> left s"
  shows "good s (Inr x, s')"
  using assms by (simp add: good_def)

lemma good_Kind_Inl:
  assumes "s_Kind s = (Inl e, s')" and "sinv s"
  shows "good s (Inl e, s')"
  using s_Kind_Inl [OF assms] by (simp add: good_def)

lemma not_bad [simp]:
  "\<not> bad ErrExpectedString" "\<not> bad ErrExpectedList" "\<not> bad ErrCanonSize" "\<not> bad ErrCanonInt"
  "\<not> bad ErrUintOverflow" "\<not> bad (ErrInvalidBool n)" "\<not> bad ErrNotAtEOL" "\<not> bad ErrNotInList"
  by (simp_all add: bad_def)

lemma sinv_update [simp]:
  "sinv (s\<lparr>kind := k\<rparr>) = sinv s" "sinv (s\<lparr>stack := st\<rparr>) = sinv s" "sinv (s\<lparr>ssize := n\<rparr>) = sinv s"
  by (simp_all add: sinv_def)

lemma good_Bytes:
  assumes "sinv s"
  shows "good s (s_Bytes s)"
proof -
  obtain r s1 where k: "s_Kind s = (r, s1)" by (cases "s_Kind s")
  show ?thesis
  proof (cases r)
    case (Inl e)
    with k assms show ?thesis by (simp add: s_Bytes_def good_Kind_Inl)
  next
    case (Inr x)
    obtain kd n where x: "x = (kd, n)" by (cases x)
    note c = s_Kind_Inr [OF k [unfolded Inr] assms]
    obtain e d s2 where f: "readFull (unat n) s1 = (e, d, s2)" by (cases "readFull (unat n) s1")
    note cf = readFull_cases [OF f]
    show ?thesis
    proof (cases kd)
      case Byte
      with c show ?thesis by (auto simp: s_Bytes_def k Inr x intro!: goodI_Inr)
    next
      case String
      have "good s (if n = 1 \<and> d ! 0 < 128 then Inl ErrCanonSize else Inr d, s2)"
        using c cf by (cases "n = 1 \<and> d ! 0 < 128") (auto intro!: goodI_Inr goodI_Inl)
      moreover have "good s (Inl y, s2)" if "e = Some y" for y
        using c cf that by (auto intro!: goodI_Inl)
      ultimately show ?thesis by (cases e) (simp_all add: s_Bytes_def k Inr x String f)
    next
      case List
      with c show ?thesis by (auto simp: s_Bytes_def k Inr x intro!: goodI_Inl)
    qed
  qed
qed

lemma puthead_Some:
  assumes "length xs = headsize n + m"
  shows "\<exists>b k. puthead xs s l n = Some (b, k)"
proof -
  have n: "of_nat (unat n) = n" "unat n < 2 ^ 64" using unsigned_less [of n, where 'a = nat] by simp_all
  then have "length (enc_head s l (unat n)) \<le> length xs"
    using headsize_of_nat [OF n(2), of s l] assms by simp
  from puthead_of_nat [OF n(2) this] show ?thesis by (simp add: n(1))
qed

lemma good_Raw:
  assumes "sinv s"
  shows "good s (s_Raw s)"
proof -
  obtain r s1 where k: "s_Kind s = (r, s1)" by (cases "s_Kind s")
  show ?thesis
  proof (cases r)
    case (Inl e)
    with k assms show ?thesis by (simp add: s_Raw_def good_Kind_Inl)
  next
    case (Inr x)
    obtain kd n where x: "x = (kd, n)" by (cases x)
    note c = s_Kind_Inr [OF k [unfolded Inr] assms]
    obtain e d s2 where f: "readFull (unat n) s1 = (e, d, s2)" by (cases "readFull (unat n) s1")
    note cf = readFull_cases [OF f]
    show ?thesis
    proof (cases "kd = Byte")
      case True
      with c show ?thesis by (auto simp: s_Raw_def k Inr x intro!: goodI_Inr)
    next
      case False
      obtain b1 k1 where p1: "puthead (replicate (headsize n) 0 @ d) 0x80 0xB7 n = Some (b1, k1)"
        using puthead_Some [of "replicate (headsize n) 0 @ d" n "length d"] by simp blast
      obtain b2 k2 where p2: "puthead (replicate (headsize n) 0 @ d) 0xC0 0xF7 n = Some (b2, k2)"
        using puthead_Some [of "replicate (headsize n) 0 @ d" n "length d"] by simp blast
      have "good s (Inr b, s2)" for b :: bytes using c cf by (auto intro!: goodI_Inr)
      moreover have "good s (Inl y, s2)" if "e = Some y" for y
        using c cf that by (auto intro!: goodI_Inl)
      ultimately show ?thesis using False
        by (cases e) (simp_all add: s_Raw_def k Inr x f p1 p2 Let_def)
    qed
  qed
qed

lemma good_uint:
  assumes "sinv s" and "bits \<le> 64"
  shows "good s (s_uint bits s)"
proof -
  obtain r s1 where k: "s_Kind s = (r, s1)" by (cases "s_Kind s")
  show ?thesis
  proof (cases r)
    case (Inl e)
    with k assms show ?thesis by (simp add: s_uint_def good_Kind_Inl)
  next
    case (Inr x)
    obtain kd n where x: "x = (kd, n)" by (cases x)
    note c = s_Kind_Inr [OF k [unfolded Inr] assms(1)]
    show ?thesis
    proof (cases kd)
      case Byte
      with c show ?thesis by (auto simp: s_uint_def k Inr x intro!: goodI_Inr goodI_Inl)
    next
      case String
      show ?thesis
      proof (cases "of_nat (bits div 8) < n")
        case True
        with c show ?thesis by (auto simp: s_uint_def k Inr x String intro!: goodI_Inl)
      next
        case False
        have "unat n \<le> bits div 8" using False
          by (simp add: not_less word_le_nat_alt unat_of_nat take_bit_nat_eq_self)
        then have n: "unat n \<le> 8" using assms(2) by linarith
        then have "unat (ucast n :: byte) \<le> 8"
          by (simp add: unsigned_ucast_eq take_bit_eq_mod)
        moreover obtain r2 s2 where u: "readUint (ucast n) s1 = (r2, s2)" by (cases "readUint (ucast n) s1")
        ultimately have cu: "kind s2 = None" "sinv s2" "left s2 \<le> left s1" "\<And>x. r2 = Inl x \<Longrightarrow> \<not> bad x"
          using readUint_cases [OF u c(2)] by blast+
        have "good s (Inr v, s2)" for v :: u64 using c cu by (auto intro!: goodI_Inr)
        moreover have "good s (Inl y, s2)" if "\<not> bad y" for y :: rlp_error
          using c cu that by (auto intro!: goodI_Inl)
        ultimately show ?thesis using False cu(4)
          by (cases r2) (auto simp add: s_uint_def k Inr x String u)
      qed
    next
      case List
      with c show ?thesis by (auto simp: s_uint_def k Inr x intro!: goodI_Inl)
    qed
  qed
qed

lemma good_Bool:
  assumes "sinv s"
  shows "good s (s_Bool s)"
proof -
  obtain r s1 where u: "s_uint 8 s = (r, s1)" by (cases "s_uint 8 s")
  have "good s (r, s1)" using good_uint [OF assms, of 8] u by simp
  then show ?thesis
    by (cases r) (auto simp: s_Bool_def u good_def split: if_splits)
qed

lemma good_List:
  assumes "sinv s"
  shows "good s (s_List s)"
proof -
  obtain r s1 where k: "s_Kind s = (r, s1)" by (cases "s_Kind s")
  show ?thesis
  proof (cases r)
    case (Inl e)
    with k assms show ?thesis by (simp add: s_List_def good_Kind_Inl)
  next
    case (Inr x)
    obtain kd n where x: "x = (kd, n)" by (cases x)
    note c = s_Kind_Inr [OF k [unfolded Inr] assms]
    show ?thesis
      using c by (cases "kd = List") (auto simp: s_List_def k Inr x intro!: goodI_Inr goodI_Inl)
  qed
qed

lemma ListEnd_cases:
  assumes "s_ListEnd s = (r, s')" and "sinv s"
  shows "sinv s'" "rdr s' = rdr s" "r = Inr () \<Longrightarrow> kind s' = None" "\<And>e. r = Inl e \<Longrightarrow> \<not> bad e"
  using assms by (auto simp: s_ListEnd_def sinv_def bad_def split: list.splits if_splits)

section \<open>Progress of the decoders\<close>

text \<open>\<open>dweak\<close> is what a decoder of a tail field keeps: it may succeed without reading.\<close>

definition crash :: "dec_error \<Rightarrow> bool" where
  "crash e \<longleftrightarrow> e = NoFuel \<or> e = Plain GoPanic"

definition dgood :: "stream \<Rightarrow> (dec_error + 'a) \<times> stream \<Rightarrow> bool" where
  "dgood s r \<longleftrightarrow>
     (case r of
        (Inl e, s') \<Rightarrow> \<not> crash e \<and> (e = Plain EOL \<longrightarrow> kind s' = None) \<and> sinv s' \<and> left s' \<le> left s
      | (Inr _, s') \<Rightarrow> sinv s' \<and> kind s' = None \<and> left s' + (if kind s = None then 1 else 0) \<le> left s)"

definition dweak :: "stream \<Rightarrow> (dec_error + 'a) \<times> stream \<Rightarrow> bool" where
  "dweak s r \<longleftrightarrow>
     (case r of
        (Inl e, s') \<Rightarrow> \<not> crash e \<and> (e = Plain EOL \<longrightarrow> kind s' = None) \<and> sinv s' \<and> left s' \<le> left s
      | (Inr _, s') \<Rightarrow> sinv s' \<and> kind s' = None \<and> left s' \<le> left s)"

lemma dgood_dweak: "dgood s r \<Longrightarrow> dweak s r"
  by (auto simp: dgood_def dweak_def split: sum.splits)

lemma wrapStreamError_crash [simp]: "crash (wrapStreamError e t) \<longleftrightarrow> e = GoPanic"
  by (cases e) (simp_all add: wrapStreamError_def crash_def)

lemma wrapStreamError_EOL [simp]: "wrapStreamError e t = Plain EOL \<longleftrightarrow> e = EOL"
  by (cases e) (simp_all add: wrapStreamError_def)

lemma addErrorContext_crash [simp]: "crash (addErrorContext e c) \<longleftrightarrow> crash e"
  by (cases e) (simp_all add: crash_def)

lemma addErrorContext_EOL [simp]: "addErrorContext e c = Plain EOL \<longleftrightarrow> e = Plain EOL"
  by (cases e) simp_all

lemma crash_simps [simp]: "crash (Plain e) \<longleftrightarrow> e = GoPanic" "\<not> crash (DecodeError m t cs)" "\<not> crash (DType te)"
  by (simp_all add: crash_def)

lemma dgood_set_from: "good s r \<Longrightarrow> dgood s (set_from t f r)"
  by (auto simp: good_def dgood_def set_from_def split: sum.splits prod.splits)

lemma dgood_deref: "dgood s r \<Longrightarrow> dgood s (deref r)"
  by (auto simp: dgood_def deref_def split: sum.splits prod.splits goval.splits option.splits)

lemma dgood_ptr: "dgood s (dec s) \<Longrightarrow> dgood s (ptr_decoder dec s)"
  by (auto simp: dgood_def ptr_decoder_def split: sum.splits prod.splits)

lemma dgood_RawValue: "sinv s \<Longrightarrow> dgood s (decodeRawValue s)"
  using good_Raw [of s] by (auto simp: good_def dgood_def decodeRawValue_def split: sum.splits prod.splits)

lemma dgood_BigInt: "sinv s \<Longrightarrow> dgood s (decodeBigInt s)"
  using good_Bytes [of s]
  by (auto simp: good_def dgood_def decodeBigInt_def split: sum.splits prod.splits)

lemma dgood_ByteArray:
  assumes "sinv s" and "n \<noteq> 1"
  shows "dgood s (decodeByteArray n s)"
proof -
  obtain r s1 where k: "s_Kind s = (r, s1)" by (cases "s_Kind s")
  show ?thesis
  proof (cases r)
    case (Inl e)
    with good_Kind_Inl [of s e s1] k assms show ?thesis
      by (simp add: decodeByteArray_def good_def dgood_def)
  next
    case (Inr x)
    obtain kd sz where x: "x = (kd, sz)" by (cases x)
    note c = s_Kind_Inr [OF k [unfolded Inr] assms(1)]
    have le: "left s1 \<le> left s" using c(3) by simp
    obtain e d s2 where f: "readFull n s1 = (e, d, s2)" by (cases "readFull n s1")
    note cf = readFull_cases [OF f]
    show ?thesis
    proof (cases kd)
      case Byte
      with c le assms(2) show ?thesis by (simp add: decodeByteArray_def k Inr x dgood_def Let_def)
    next
      case String
      have "dgood s (if sz = 1 \<and> d ! 0 < 128 then (Inl (wrapStreamError ErrCanonSize (TArray n (TUint 8))), s2)
                     else (Inr (VBytes d), s2))"
        using c cf le by (auto simp: dgood_def)
      moreover have "dgood s (Inl (Plain y) :: dec_error + goval, s2)" if "e = Some y" for y
        using c cf le cf(7) [OF that] by (auto simp: dgood_def bad_def)
      moreover have "dgood s (Inl (DecodeError m t []) :: dec_error + goval, s1)" for m t
        using c le by (simp add: dgood_def)
      ultimately show ?thesis by (cases e) (simp_all add: decodeByteArray_def k Inr x String f Let_def)
    next
      case List
      with c le show ?thesis by (simp add: decodeByteArray_def k Inr x dgood_def Let_def)
    qed
  qed
qed

text \<open>The element loops. An element decoder reads at least one byte per element.\<close>

lemma decodeSliceElems_ok:
  assumes "\<And>s. sinv s \<Longrightarrow> kind s = None \<Longrightarrow> left s \<le> L \<Longrightarrow> dgood s (dec s)"
    and "sinv s" "kind s = None" "left s \<le> L" "left s < m"
  shows "dweak s (decodeSliceElems m dec i s) \<and> fst (decodeSliceElems m dec i s) \<noteq> Inl (Plain EOL)"
  using assms(2-)
proof (induction m arbitrary: i s)
  case (Suc m)
  obtain r s1 where d: "dec s = (r, s1)" by (cases "dec s")
  have g: "dgood s (r, s1)" using assms(1) [OF Suc.prems(1-3)] d by simp
  show ?case
  proof (cases r)
    case (Inl e)
    with g show ?thesis by (auto simp: d dgood_def dweak_def)
  next
    case (Inr v)
    with g Suc.prems(2) have s1: "sinv s1" "kind s1 = None" "left s1 < left s" by (simp_all add: dgood_def)
    moreover obtain r2 s2 where q: "decodeSliceElems m dec (i + 1) s1 = (r2, s2)"
      by (cases "decodeSliceElems m dec (i + 1) s1")
    ultimately have "dweak s1 (r2, s2)" "r2 \<noteq> Inl (Plain EOL)"
      using Suc.IH [of s1 "i + 1"] Suc.prems by simp_all
    then show ?thesis using q s1(3) by (cases r2) (auto simp: d Inr dweak_def)
  qed
qed simp

lemma decodeListSlice_ok:
  assumes "\<And>s'. sinv s' \<Longrightarrow> kind s' = None \<Longrightarrow> left s' + (if kind s = None then 1 else 0) \<le> left s \<Longrightarrow> dgood s' (dec s')"
    and "sinv s"
  shows "dgood s (decodeListSlice t dec s)"
proof -
  obtain r s1 where l: "s_List s = (r, s1)" by (cases "s_List s")
  have g: "good s (r, s1)" using good_List [OF assms(2)] l by simp
  show ?thesis
  proof (cases r)
    case (Inl e)
    with g show ?thesis by (simp add: decodeListSlice_def l good_def dgood_def)
  next
    case (Inr n)
    with g have s1: "sinv s1" "kind s1 = None" "left s1 + (if kind s = None then 1 else 0) \<le> left s"
      by (simp_all add: good_def)
    define q where "q = (if n = 0 then (Inr [], s1) else decodeSliceElems (slice_bound s1) dec 0 s1)"
    obtain r2 s2 where q2: "q = (r2, s2)" by (cases q)
    have "dweak s1 q \<and> fst q \<noteq> Inl (Plain EOL)"
    proof (cases "n = 0")
      case True
      with s1 show ?thesis by (simp add: q_def dweak_def)
    next
      case False
      have "dweak s1 (decodeSliceElems (slice_bound s1) dec 0 s1)
          \<and> fst (decodeSliceElems (slice_bound s1) dec 0 s1) \<noteq> Inl (Plain EOL)"
        by (rule decodeSliceElems_ok [where L = "left s1"], rule assms(1)) (use s1 in \<open>auto simp: slice_bound_def split: if_splits\<close>)
      with False show ?thesis by (simp add: q_def)
    qed
    then have w: "dweak s1 (r2, s2)" "r2 \<noteq> Inl (Plain EOL)" by (simp_all add: q2)
    obtain r3 s3 where le: "s_ListEnd s2 = (r3, s3)" by (cases "s_ListEnd s2")
    have eq: "decodeListSlice t dec s = (case (r2, s2) of
             (Inl e, s) \<Rightarrow> (Inl e, s)
           | (Inr vs, s) \<Rightarrow>
               (case s_ListEnd s of
                  (Inl e, s) \<Rightarrow> (Inl (Plain e), s)
                | (Inr _, s) \<Rightarrow> (Inr (VSeq vs), s)))"
      unfolding decodeListSlice_def l Inr q2 [symmetric] q_def by simp
    show ?thesis
    proof (cases r2)
      case (Inl e)
      with w s1 show ?thesis by (simp add: eq dgood_def dweak_def)
    next
      case (Inr vs)
      with w s1 have s2: "sinv s2" "left s2 \<le> left s1" by (simp_all add: dweak_def)
      note c = ListEnd_cases [OF le s2(1)]
      show ?thesis
        using c s1(3) s2 by (cases r3) (auto simp: eq Inr le dgood_def bad_def)
    qed
  qed
qed

lemma decode_array_elems_ok:
  assumes "\<And>s. sinv s \<Longrightarrow> dgood s (dec s)" and "sinv s" "kind s = None"
  shows "dweak s (decode_array_elems t k dec i s) \<and> fst (decode_array_elems t k dec i s) \<noteq> Inl (Plain EOL)"
  using assms(2-)
proof (induction k arbitrary: i s)
  case (Suc k)
  obtain r s1 where d: "dec s = (r, s1)" by (cases "dec s")
  have g: "dgood s (r, s1)" using assms(1) [OF Suc.prems(1)] d by simp
  show ?case
  proof (cases r)
    case (Inl e)
    with g show ?thesis by (auto simp: d dgood_def dweak_def)
  next
    case (Inr v)
    with g Suc.prems(2) have s1: "sinv s1" "kind s1 = None" "left s1 < left s" by (simp_all add: dgood_def)
    moreover obtain r2 s2 where q: "decode_array_elems t k dec (i + 1) s1 = (r2, s2)"
      by (cases "decode_array_elems t k dec (i + 1) s1")
    ultimately have "dweak s1 (r2, s2)" "r2 \<noteq> Inl (Plain EOL)"
      using Suc.IH [of s1 "i + 1"] by simp_all
    then show ?thesis using q s1(3) by (cases r2) (auto simp: d Inr dweak_def)
  qed
qed (simp add: dweak_def)

lemma decode_fields_ok:
  assumes "\<forall>(i, dec) \<in> set ds. \<forall>s. sinv s \<longrightarrow> kind s = None \<longrightarrow> dweak s (dec s)" and "sinv s" "kind s = None"
  shows "dweak s (decode_fields fs ds vs s) \<and> fst (decode_fields fs ds vs s) \<noteq> Inl (Plain EOL)"
  using assms
proof (induction ds arbitrary: vs s)
  case (Cons d ds)
  obtain i dec where d: "d = (i, dec)" by (cases d)
  obtain r s1 where q: "dec s = (r, s1)" by (cases "dec s")
  have g: "dweak s (r, s1)" using Cons.prems q by (auto simp: d)
  show ?case
  proof (cases r)
    case (Inl e)
    with g show ?thesis by (auto simp: d q dweak_def)
  next
    case (Inr v)
    with g have s1: "sinv s1" "kind s1 = None" "left s1 \<le> left s" by (simp_all add: dweak_def)
    obtain r2 s2 where q2: "decode_fields fs ds (vs[i := v]) s1 = (r2, s2)"
      by (cases "decode_fields fs ds (vs[i := v]) s1")
    have "dweak s1 (r2, s2)" "r2 \<noteq> Inl (Plain EOL)"
      using Cons.IH [OF _ s1(1,2), of "vs[i := v]"] Cons.prems(1) by (simp_all add: q2)
    then show ?thesis using s1(3) by (cases r2) (auto simp: d q Inr q2 dweak_def)
  qed
qed (simp add: dweak_def)

text \<open>Arrays and structs share the frame of a list: \<open>List\<close>, a body, \<open>ListEnd\<close>.\<close>

lemma list_frame_ok:
  assumes "sinv s"
    and "\<And>s'. sinv s' \<Longrightarrow> kind s' = None \<Longrightarrow> dweak s' (body s') \<and> fst (body s') \<noteq> Inl (Plain EOL)"
  shows "dgood s
     (case s_List s of
        (Inl e, s) \<Rightarrow> (Inl (wrapStreamError e t), s)
      | (Inr n, s) \<Rightarrow>
          (case body s of
             (Inl e, s) \<Rightarrow> (Inl e, s)
           | (Inr vs, s) \<Rightarrow>
               (case s_ListEnd s of
                  (Inl e, s) \<Rightarrow> (Inl (wrapStreamError e t), s)
                | (Inr _, s) \<Rightarrow> (Inr (f vs), s))))"
proof -
  obtain r s1 where l: "s_List s = (r, s1)" by (cases "s_List s")
  have g: "good s (r, s1)" using good_List [OF assms(1)] l by simp
  show ?thesis
  proof (cases r)
    case (Inl e)
    with g show ?thesis by (simp add: l good_def dgood_def)
  next
    case (Inr n)
    with g have s1: "sinv s1" "kind s1 = None" "left s1 + (if kind s = None then 1 else 0) \<le> left s"
      by (simp_all add: good_def)
    obtain r2 s2 where b: "body s1 = (r2, s2)" by (cases "body s1")
    have w: "dweak s1 (r2, s2)" "r2 \<noteq> Inl (Plain EOL)" using assms(2) [OF s1(1,2)] by (simp_all add: b)
    obtain r3 s3 where le: "s_ListEnd s2 = (r3, s3)" by (cases "s_ListEnd s2")
    show ?thesis
    proof (cases r2)
      case (Inl e)
      with w s1 show ?thesis by (simp add: l Inr b dgood_def dweak_def)
    next
      case r2: (Inr vs)
      with w s1 have s2: "sinv s2" "left s2 \<le> left s1" by (simp_all add: dweak_def)
      note c = ListEnd_cases [OF le s2(1)]
      show ?thesis
        using c s1(3) s2 by (cases r3) (auto simp: l Inr b r2 le dgood_def bad_def)
    qed
  qed
qed

lemma dgood_ListArray:
  assumes "\<And>s. sinv s \<Longrightarrow> dgood s (dec s)" and "sinv s"
  shows "dgood s (decodeListArray t n dec s)"
  unfolding decodeListArray_def by (rule list_frame_ok [OF assms(2)], rule decode_array_elems_ok [OF assms(1)])

lemma dgood_struct:
  assumes "\<forall>(i, dec) \<in> set ds. \<forall>s. sinv s \<longrightarrow> kind s = None \<longrightarrow> dweak s (dec s)" and "sinv s"
  shows "dgood s (struct_decoder fs ds s)"
  unfolding struct_decoder_def by (rule list_frame_ok [OF assms(2)], rule decode_fields_ok [OF assms(1)])

lemma dgood_after_Kind:
  assumes "s_Kind s = (Inr x, s1)" "sinv s" "dgood s1 r"
  shows "dgood s r"
proof -
  note c = s_Kind_Inr [OF assms(1,2)]
  obtain q s2 where r: "r = (q, s2)" by (cases r)
  show ?thesis using assms(3) c by (cases q) (auto simp: r dgood_def)
qed

lemma dgood_optional_ptr:
  assumes "\<And>s. sinv s \<Longrightarrow> dgood s (dec s)" and "sinv s"
  shows "dgood s (optional_ptr_decoder dec s)"
proof -
  obtain r s1 where k: "s_Kind s = (r, s1)" by (cases "s_Kind s")
  show ?thesis
  proof (cases r)
    case (Inl e)
    with s_Kind_Inl [of s e s1] k assms(2) show ?thesis
      by (simp add: optional_ptr_decoder_def dgood_def)
  next
    case (Inr x)
    obtain kd n where x: "x = (kd, n)" by (cases x)
    note c = s_Kind_Inr [OF k [unfolded Inr] assms(2)]
    have "dgood s (ptr_decoder dec s1)"
      by (rule dgood_after_Kind [OF k [unfolded Inr] assms(2)], rule dgood_ptr, rule assms(1), rule c(2))
    with c show ?thesis by (simp add: optional_ptr_decoder_def k Inr x) (simp add: dgood_def)
  qed
qed

text \<open>Nested interfaces: a list consumes its header byte before its elements are read, so the
  bound falls with the input.\<close>

lemma decodeInterface_ok:
  assumes "sinv s" and "left s + (if kind s = None then 0 else 1) < m"
  shows "dgood s (decodeInterface m s)"
  using assms
proof (induction m arbitrary: s)
  case (Suc m)
  obtain r s1 where k: "s_Kind s = (r, s1)" by (cases "s_Kind s")
  show ?case
  proof (cases r)
    case (Inl e)
    with good_Kind_Inl [of s e s1] k Suc.prems(1) show ?thesis by (simp add: good_def dgood_def)
  next
    case (Inr x)
    obtain kd n where x: "x = (kd, n)" by (cases x)
    note k' = k [unfolded Inr]
    note c = s_Kind_Inr [OF k' Suc.prems(1)]
    show ?thesis
    proof (cases "kd = List")
      case True
      have "dgood s1 (decodeListSlice (TSlice TInterface) (decodeInterface m) s1)"
      proof (rule decodeListSlice_ok [OF Suc.IH c(2)])
        fix s' assume "kind s' = None" "left s' + (if kind s1 = None then 1 else 0) \<le> left s1"
        then show "left s' + (if kind s' = None then 0 else 1) < m"
          using c(3) Suc.prems(2) by (auto split: if_splits)
      qed
      then have "dgood s (decodeListSlice (TSlice TInterface) (decodeInterface m) s1)"
        by (rule dgood_after_Kind [OF k' Suc.prems(1)])
      then show ?thesis
        by (auto simp: k Inr x True dgood_def split: sum.splits prod.splits)
    next
      case False
      have "good s1 (s_Bytes s1)" using c(2) by (rule good_Bytes)
      then have "dgood s1 (set_from TString VString (s_Bytes s1))" by (rule dgood_set_from)
      then have "dgood s (set_from TString VString (s_Bytes s1))" by (rule dgood_after_Kind [OF k' Suc.prems(1)])
      then show ?thesis using False
        by (auto simp: k Inr x dgood_def set_from_def split: sum.splits prod.splits)
    qed
  qed
qed simp

section \<open>Totality\<close>

text \<open>The types of the theorem: integers of Go's widths, no byte array of length one.\<close>

fun safe_type :: "gotype \<Rightarrow> bool" where
  "safe_type (TUint k) = width_ok k"
| "safe_type (TInt k) = width_ok k"
| "safe_type (TSlice e) = safe_type e"
| "safe_type (TArray n e) = (safe_type e \<and> \<not> (isByte e \<and> n = 1))"
| "safe_type (TStruct fs) = list_all (\<lambda>(name, tag, exported, t). safe_type t) fs"
| "safe_type (TPtr e) = safe_type e"
| "safe_type _ = True"

lemma safe_field:
  assumes "safe_type (TStruct fs)" "structFields ti fs = Inr xs" "(i, t, ts) \<in> set xs"
  shows "safe_type t"
proof -
  have "t \<in> field_types fs" using assms(2,3) unfolding structFields_def by (rule structFields_from_mem)
  with assms(1) show ?thesis by (induction fs) auto
qed

lemma width_ok_le: "width_ok k \<Longrightarrow> k \<le> 64"
  by (auto simp: width_ok_def)

definition decodes :: "gotype \<Rightarrow> tags \<Rightarrow> bool" where
  "decodes t ts \<longleftrightarrow> (\<forall>s. sinv s \<longrightarrow> (\<not> tail ts \<longrightarrow> dgood s (makeDecoder t ts s)) \<and>
     (kind s = None \<longrightarrow> dweak s (makeDecoder t ts s)))"

lemma decodesI: "(\<And>s. sinv s \<Longrightarrow> dgood s (makeDecoder t ts s)) \<Longrightarrow> decodes t ts"
  by (simp add: decodes_def dgood_dweak)

lemma decodesD: "decodes t no_tags \<Longrightarrow> sinv s \<Longrightarrow> dgood s (makeDecoder t no_tags s)"
  by (simp add: decodes_def no_tags_def)

lemma decodes_TSlice:
  assumes "decodes e no_tags" "\<not> isByte e"
  shows "decodes (TSlice e) ts"
proof -
  let ?d = "\<lambda>s. makeDecoder e no_tags s"
  have g: "dgood s (decodeListSlice (TSlice e) ?d s)" if "sinv s" for s
    by (rule decodeListSlice_ok [OF _ that], rule decodesD [OF assms(1)])
  have w: "dweak s (decodeSliceElems (slice_bound s) ?d 0 s)" if "sinv s" "kind s = None" for s
    using decodeSliceElems_ok [of "left s" ?d s "slice_bound s" 0, OF decodesD [OF assms(1)]] that
    by (simp add: slice_bound_def)
  show ?thesis
  proof (cases "tail ts")
    case True
    have "dweak s (makeDecoder (TSlice e) ts s)" if "sinv s" "kind s = None" for s
      using w [OF that] assms(2) True
      by (auto simp: makeDecoder.simps [of "TSlice e"] dweak_def split: sum.splits prod.splits)
    with True show ?thesis by (simp add: decodes_def)
  next
    case False
    with g assms(2) show ?thesis by (intro decodesI) (simp add: makeDecoder.simps [of "TSlice e"])
  qed
qed

lemma decodes_TStruct:
  assumes "\<And>fds i ft fts. structFields genTypeInfo fs = Inr fds \<Longrightarrow> (i, ft, fts) \<in> set fds \<Longrightarrow> decodes ft fts"
  shows "decodes (TStruct fs) ts"
proof (rule decodesI)
  fix s assume s: "sinv s"
  show "dgood s (makeDecoder (TStruct fs) ts s)"
  proof (cases "structFields genTypeInfo fs")
    case (Inl e)
    with s show ?thesis by (simp add: makeDecoder.simps [of "TStruct fs"] dgood_def)
  next
    case (Inr fds)
    have "dgood s (struct_decoder fs (map (\<lambda>(i, ft, fts). (i, \<lambda>s. makeDecoder ft fts s)) fds) s)"
      by (rule dgood_struct [OF _ s]) (use assms [OF Inr] in \<open>auto simp: decodes_def\<close>)
    with Inr show ?thesis by (simp add: makeDecoder.simps [of "TStruct fs"])
  qed
qed

lemma dgood_NumberPtr: "sinv s \<Longrightarrow> dgood s (decodeNumberPtr s)"
  unfolding decodeNumberPtr_def by (intro dgood_set_from good_Bytes)

lemma decodes_TPtr:
  assumes "decodes e no_tags"
  shows "decodes (TPtr e) ts"
proof (rule decodesI)
  fix s assume s: "sinv s"
  let ?d = "\<lambda>s. makeDecoder e no_tags s"
  have "dgood s (ptr_decoder ?d s)" using s by (intro dgood_ptr decodesD [OF assms])
  moreover have "dgood s (optional_ptr_decoder ?d s)" using s by (intro dgood_optional_ptr decodesD [OF assms])
  ultimately show "dgood s (makeDecoder (TPtr e) ts s)" using s
    by (simp add: makeDecoder.simps [of "TPtr e"] dgood_BigInt dgood_NumberPtr)
qed

lemma decodes_atomic:
  "width_ok k \<Longrightarrow> decodes (TUint k) ts" "width_ok k \<Longrightarrow> decodes (TInt k) ts"
  "decodes TBool ts" "decodes TString ts" "decodes TBigInt ts" "decodes TNumber ts" "decodes TRawValue ts"
  "decodes (TSlice (TUint 8)) ts" "n \<noteq> 1 \<Longrightarrow> decodes (TArray n (TUint 8)) ts"
  by (rule decodesI; simp add: makeDecoder.simps isByte_def decodeUint_def decodeInt_def decodeBool_def decodeString_def
      decodeBigIntNoPtr_def decodeNumber_def decodeByteSlice_def
      dgood_set_from good_uint good_Bool good_Bytes dgood_deref dgood_BigInt dgood_NumberPtr dgood_RawValue
      dgood_ByteArray width_ok_le)+

lemma decodes_TOther: "decodes TOther ts"
  by (rule decodesI) (simp add: makeDecoder.simps dgood_def)

lemma decodes_TInterface: "decodes TInterface ts"
proof (rule decodesI)
  fix s assume "sinv s"
  then have "dgood s (decodeInterface (slice_bound s) s)"
    by (rule decodeInterface_ok) (simp add: slice_bound_def)
  then show "dgood s (makeDecoder TInterface ts s)" by (simp add: makeDecoder.simps)
qed

lemma decodes_safe: "safe_type t \<Longrightarrow> decodes t ts"
proof (induction "size t" arbitrary: t ts rule: less_induct)
  case (less t ts)
  show ?case
  proof (cases t)
    case (TSlice e)
    then show ?thesis
      using less decodes_TSlice [of e ts] by (cases "isByte e") (auto simp: isByte_def decodes_atomic)
  next
    case (TArray n e)
    show ?thesis
    proof (cases "isByte e")
      case True
      with TArray less.prems show ?thesis by (auto simp: isByte_def decodes_atomic)
    next
      case False
      have "decodes e no_tags" using less TArray by simp
      then have "sinv s \<Longrightarrow> dgood s (decodeListArray t n (\<lambda>s. makeDecoder e no_tags s) s)" for s
        by (intro dgood_ListArray decodesD)
      with False TArray show ?thesis by (intro decodesI) (simp add: makeDecoder.simps [of "TArray n e"])
    qed
  next
    case (TStruct fs)
    have "decodes ft fts" if "structFields genTypeInfo fs = Inr fds" "(i, ft, fts) \<in> set fds" for fds i ft fts
    proof (rule less.hyps)
      show "size ft < size t" using structFields_size [OF that] TStruct by simp
      show "safe_type ft" using safe_field [OF _ that] less.prems TStruct by simp
    qed
    with TStruct show ?thesis using decodes_TStruct by blast
  next
    case (TPtr e)
    with less show ?thesis by (auto intro!: decodes_TPtr)
  qed (use less.prems in \<open>simp_all add: decodes_atomic decodes_TOther decodes_TInterface\<close>)
qed

lemma s_Decode_total:
  assumes "safe_type t" and "sinv s" and "s_Decode t s = (Inl e, s')"
  shows "\<not> crash e"
proof (cases "genTypeInfo t no_tags")
  case None
  obtain r s1 where m: "makeDecoder t no_tags s = (r, s1)" by (cases "makeDecoder t no_tags s")
  have g: "dgood s (r, s1)" using decodesD [OF decodes_safe [OF assms(1)] assms(2)] m by simp
  show ?thesis using assms(3) g None
    by (cases r) (auto simp: s_Decode_def m dgood_def split: dec_error.splits if_splits)
qed (use assms(3) in \<open>auto simp: s_Decode_def\<close>)

text \<open>C6. Decoding of untrusted input ends without a crash: for every input and every type with the
  widths of Go and no byte array of length one, \<open>DecodeBytes\<close> returns a value or an error of
  the package; none of its loops exceeds its bound, and no slice index is out of range.\<close>

theorem DecodeBytes_total:
  assumes "safe_type t"
  shows "DecodeBytes b t \<noteq> Inl NoFuel \<and> DecodeBytes b t \<noteq> Inl (Plain GoPanic)"
proof -
  let ?s = "NewStream b True (of_nat (length b))"
  have i: "sinv ?s" by (simp add: sinv_def NewStream_def Reset_def Let_def new_stream_def)
  obtain r s1 where d: "s_Decode t ?s = (r, s1)" by (cases "s_Decode t ?s")
  show ?thesis
  proof (cases r)
    case (Inl e)
    with s_Decode_total [OF assms i, of e s1] d show ?thesis by (auto simp: DecodeBytes_def crash_def)
  qed (simp add: DecodeBytes_def d)
qed

theorem DecodeBytes_total_witness:
  "DecodeBytes [0xC8, 0x82, 4] sample_type \<noteq> Inl NoFuel \<and> DecodeBytes [0xC8, 0x82, 4] sample_type \<noteq> Inl (Plain GoPanic)"
  by (rule DecodeBytes_total) (simp add: sample_type_def width_ok_def)

section \<open>One-byte arrays\<close>

text \<open>\<open>decodeByteArray\<close> reads a single byte with \<open>bv, _ := s.Uint()\<close>; for a zero byte
  \<open>Uint\<close> reports \<open>ErrCanonInt\<close> and leaves the byte as the value ahead.\<close>

lemma decodeByteArray_stuck:
  assumes "kind s = Some Byte" "kinderr s = None" "byteval s = 0"
  shows "decodeByteArray 1 s = (Inr (VBytes [0]), s)"
  using assms by (simp add: decodeByteArray_def s_Kind_def kind_result_def s_Uint_def s_uint_def)

lemma decodeSliceElems_stuck:
  assumes "kind s = Some Byte" "kinderr s = None" "byteval s = 0"
  shows "decodeSliceElems m (decodeByteArray 1) i s = (Inl NoFuel, s)"
  by (induction m arbitrary: i) (simp_all add: decodeByteArray_stuck [OF assms, simplified])

lemma decodeSliceElems_first:
  assumes "fst (dec s) = Inr v" "\<And>m. decodeSliceElems m dec (i + 1) (snd (dec s)) = (Inl NoFuel, s')"
  shows "fst (decodeSliceElems m dec i s) = Inl NoFuel"
  using assms by (cases m) (auto split: prod.splits sum.splits)

text \<open>C29. A slice of one-byte arrays loops on the input \<open>C1 00\<close>: at the list's first element, the
  element loop of \<open>decodeSliceElems\<close> does not end within any number of rounds; and a struct
  \<open>{A [1]byte; B uint64}\<close> that holds a zero byte and the number 5 has the encoding
  \<open>C2 00 05\<close>, which is not decoded.\<close>

theorem one_byte_array_loops:
  "(\<forall>m. fst (decodeSliceElems m (decodeByteArray 1) 0 (snd (s_List (NewStream [0xC1, 0] True 2)))) = Inl NoFuel)
   \<and> EncodeToBytes new_encbuf (TStruct [(''A'', [], True, TArray 1 (TUint 8)), (''B'', [], True, TUint 64)])
        (VStruct [VBytes [0], VUint 5]) = Inr [0xC2, 0, 5]
   \<and> DecodeBytes [0xC2, 0, 5] (TStruct [(''A'', [], True, TArray 1 (TUint 8)), (''B'', [], True, TUint 64)])
        = Inl (DecodeError ''non-canonical integer (leading zero bytes)'' (TUint 64) [CtxField ''B'',
            CtxType (TStruct [(''A'', [], True, TArray 1 (TUint 8)), (''B'', [], True, TUint 64)])])"
proof (intro conjI allI)
  fix m
  let ?s = "snd (s_List (NewStream [0xC1, 0] True 2))"
  let ?s1 = "snd (decodeByteArray 1 ?s)"
  have f: "fst (decodeByteArray 1 ?s) = Inr (VBytes [0])" by code_simp
  have s1: "kind ?s1 = Some Byte" "kinderr ?s1 = None" "byteval ?s1 = 0" by code_simp+
  show "fst (decodeSliceElems m (decodeByteArray 1) 0 ?s) = Inl NoFuel"
    by (rule decodeSliceElems_first [of "decodeByteArray 1" ?s, OF f], rule decodeSliceElems_stuck [OF s1])
next
  show "EncodeToBytes new_encbuf (TStruct [(''A'', [], True, TArray 1 (TUint 8)), (''B'', [], True, TUint 64)])
        (VStruct [VBytes [0], VUint 5]) = Inr [0xC2, 0, 5]" by code_simp
next
  show "DecodeBytes [0xC2, 0, 5] (TStruct [(''A'', [], True, TArray 1 (TUint 8)), (''B'', [], True, TUint 64)])
        = Inl (DecodeError ''non-canonical integer (leading zero bytes)'' (TUint 64) [CtxField ''B'',
            CtxType (TStruct [(''A'', [], True, TArray 1 (TUint 8)), (''B'', [], True, TUint 64)])])" by code_simp
qed

end
