(* ===== verification/MemCache.thy ===== *)
theory MemCache
  imports Prelude "HOL-Library.AList"
begin

text \<open>
  The three-level cache of \<^verbatim>\<open>src/mc/memcache.go\<close>: committed values, one cache per
  transaction and key, and in each cache the stack of values its \<open>tx\<close>s wrote. Caches are objects
  that clients keep pointers to, so they live in a store of their own and survive their removal
  from the maps. A Go map is an association list; its order is the order in which \<open>range\<close> visits
  it. Each critical section is one step of the relation \<open>mc_step\<close>.
\<close>

section \<open>State\<close>

type_synonym i64 = "64 word"

record txCache =
  tx_id :: i64
  tx_value :: "bytes option"

record memcache =
  mc_transID :: i64
  mc_key :: string
  mc_tx :: "txCache list"

record mc_instance =
  llCache :: "(string \<times> bytes option) list"
  mcCache :: "(i64 \<times> (string \<times> nat) list) list"
  objects :: "nat \<Rightarrow> memcache"
  fresh :: nat

definition NewMcInstance :: mc_instance where
  "NewMcInstance = \<lparr>llCache = [], mcCache = [], objects = (\<lambda>_. \<lparr>mc_transID = 0, mc_key = [], mc_tx = []\<rparr>), fresh = 0\<rparr>"

section \<open>One cache\<close>

definition lastTx :: "memcache \<Rightarrow> int" where
  "lastTx mc = int (length (mc_tx mc)) - 1"

definition mc_top :: "memcache \<Rightarrow> bytes option" where
  "mc_top mc = (if 0 \<le> lastTx mc then tx_value (mc_tx mc ! nat (lastTx mc)) else None)"

definition push :: "i64 \<Rightarrow> bytes option \<Rightarrow> memcache \<Rightarrow> memcache" where
  "push txid data mc =
     (if 0 < length (mc_tx mc) \<and> tx_id (mc_tx mc ! nat (lastTx mc)) = txid
      then mc\<lparr>mc_tx := (mc_tx mc)[nat (lastTx mc) := (mc_tx mc ! nat (lastTx mc))\<lparr>tx_value := data\<rparr>]\<rparr>
      else mc\<lparr>mc_tx := mc_tx mc @ [\<lparr>tx_id = txid, tx_value = data\<rparr>]\<rparr>)"

definition pop :: "memcache \<Rightarrow> bytes option \<times> memcache" where
  "pop mc =
     (let v = mc_top mc
      in if v \<noteq> None then (v, mc\<lparr>mc_tx := take (nat (lastTx mc)) (mc_tx mc)\<rparr>) else (v, mc))"

definition mc_empty :: "memcache \<Rightarrow> bool" where
  "mc_empty mc \<longleftrightarrow> lastTx mc < 0"

definition mc_Dirty :: "i64 \<Rightarrow> memcache \<Rightarrow> memcache" where
  "mc_Dirty txID mc =
     (if 0 \<le> lastTx mc then
        (if tx_id (mc_tx mc ! nat (lastTx mc)) = txID
         then mc\<lparr>mc_tx := take (nat (lastTx mc)) (mc_tx mc)\<rparr> else mc)
      else mc)"

definition mc_Get :: "memcache \<Rightarrow> bytes option" where
  "mc_Get mc = mc_top mc"

definition mc_Set :: "i64 \<Rightarrow> bytes option \<Rightarrow> memcache \<Rightarrow> memcache" where
  "mc_Set txID data mc = push txID data mc"

section \<open>The instance\<close>

definition newmc :: "i64 \<Rightarrow> string \<Rightarrow> mc_instance \<Rightarrow> memcache" where
  "newmc transid key mi =
     (let mc = \<lparr>mc_transID = transid, mc_key = key, mc_tx = []\<rparr>
      in case map_of (llCache mi) key of
           Some v \<Rightarrow> mc\<lparr>mc_tx := mc_tx mc @ [\<lparr>tx_id = 0, tx_value = v\<rparr>]\<rparr>
         | None \<Rightarrow> mc)"

definition NewMc :: "i64 \<Rightarrow> string \<Rightarrow> mc_instance \<Rightarrow> nat \<times> mc_instance" where
  "NewMc transID key mi =
     (let mi = (case map_of (mcCache mi) transID of
                  Some _ \<Rightarrow> mi
                | None \<Rightarrow> mi\<lparr>mcCache := AList.update transID [] (mcCache mi)\<rparr>);
          mcs = the (map_of (mcCache mi) transID)
      in case map_of mcs key of
           Some a \<Rightarrow> (a, mi)
         | None \<Rightarrow>
             (fresh mi,
              mi\<lparr>mcCache := AList.update transID (AList.update key (fresh mi) mcs) (mcCache mi),
                 objects := (objects mi)(fresh mi := newmc transID key mi), fresh := fresh mi + 1\<rparr>))"

text \<open>\<open>Dirty\<close> has two critical sections, one under each lock.\<close>

definition Dirty_mc :: "string \<Rightarrow> mc_instance \<Rightarrow> mc_instance" where
  "Dirty_mc key mi =
     mi\<lparr>mcCache := map (\<lambda>(transid, mcs).
          (transid, fold (\<lambda>(k, a) m. if mc_key (objects mi a) = key then AList.delete key m else m) mcs mcs))
        (mcCache mi)\<rparr>"

definition Dirty_ll :: "string \<Rightarrow> mc_instance \<Rightarrow> mc_instance" where
  "Dirty_ll key mi =
     (case map_of (llCache mi) key of
        Some _ \<Rightarrow> mi\<lparr>llCache := AList.delete key (llCache mi)\<rparr>
      | None \<Rightarrow> mi)"

definition Dirty :: "string \<Rightarrow> mc_instance \<Rightarrow> mc_instance" where
  "Dirty key mi = Dirty_ll key (Dirty_mc key mi)"

definition Clear :: "mc_instance \<Rightarrow> mc_instance" where
  "Clear mi = mi\<lparr>llCache := [], mcCache := []\<rparr>"

definition CommitTrans :: "i64 \<Rightarrow> mc_instance \<Rightarrow> mc_instance" where
  "CommitTrans transID mi =
     (case map_of (mcCache mi) transID of
        Some mcs \<Rightarrow>
          mi\<lparr>llCache := fold (\<lambda>(k, a). AList.update (mc_key (objects mi a)) (mc_top (objects mi a))) mcs (llCache mi),
             mcCache := AList.delete transID (mcCache mi)\<rparr>
      | None \<Rightarrow> mi)"

definition DirtyTrans :: "i64 \<Rightarrow> mc_instance \<Rightarrow> mc_instance" where
  "DirtyTrans transID mi = mi\<lparr>mcCache := AList.delete transID (mcCache mi)\<rparr>"

definition on_object :: "nat \<Rightarrow> (memcache \<Rightarrow> memcache) \<Rightarrow> mc_instance \<Rightarrow> mc_instance" where
  "on_object a f mi = mi\<lparr>objects := (objects mi)(a := f (objects mi a))\<rparr>"

definition DirtyTransTx :: "i64 \<Rightarrow> i64 \<Rightarrow> mc_instance \<Rightarrow> mc_instance" where
  "DirtyTransTx transID txID mi =
     (case map_of (mcCache mi) transID of
        Some mcs \<Rightarrow> fold (\<lambda>(k, a). on_object a (mc_Dirty txID)) mcs mi
      | None \<Rightarrow> mi)"

section \<open>Steps\<close>

text \<open>\<open>a\<close> is a pointer that \<open>NewMc\<close> returned before.\<close>

datatype mc_op = ONewMc i64 string | OSet nat i64 "bytes option" | OPop nat | ODirtyTx nat i64
  | ODirty_mc string | ODirty_ll string | OClear | OCommitTrans i64 | ODirtyTrans i64 | ODirtyTransTx i64 i64

inductive mc_step :: "mc_instance \<Rightarrow> mc_op \<Rightarrow> mc_instance \<Rightarrow> bool" where
  NewMc: "mc_step mi (ONewMc t k) (snd (NewMc t k mi))"
| Set: "a < fresh mi \<Longrightarrow> mc_step mi (OSet a i v) (on_object a (mc_Set i v) mi)"
| Pop: "a < fresh mi \<Longrightarrow> mc_step mi (OPop a) (on_object a (\<lambda>mc. snd (pop mc)) mi)"
| DirtyTx: "a < fresh mi \<Longrightarrow> mc_step mi (ODirtyTx a i) (on_object a (mc_Dirty i) mi)"
| Dirty_mc: "mc_step mi (ODirty_mc k) (Dirty_mc k mi)"
| Dirty_ll: "mc_step mi (ODirty_ll k) (Dirty_ll k mi)"
| Clear: "mc_step mi OClear (Clear mi)"
| CommitTrans: "mc_step mi (OCommitTrans t) (CommitTrans t mi)"
| DirtyTrans: "mc_step mi (ODirtyTrans t) (DirtyTrans t mi)"
| DirtyTransTx: "mc_step mi (ODirtyTransTx t i) (DirtyTransTx t i mi)"

inductive mc_reach :: "mc_instance \<Rightarrow> bool" where
  init: "mc_reach NewMcInstance"
| step: "mc_reach mi \<Longrightarrow> mc_step mi op mi' \<Longrightarrow> mc_reach mi'"

section \<open>Laws of one cache\<close>

abbreviation drop_tx :: "i64 \<Rightarrow> txCache list \<Rightarrow> txCache list" where
  "drop_tx i l \<equiv> (if l \<noteq> [] \<and> tx_id (last l) = i then butlast l else l)"

abbreviation top_value :: "txCache list \<Rightarrow> bytes option" where
  "top_value l \<equiv> (if l = [] then None else tx_value (last l))"

lemma nat_lastTx: "nat (lastTx mc) = length (mc_tx mc) - 1"
  by (simp add: lastTx_def)

lemma lastTx_nonneg: "0 \<le> lastTx mc \<longleftrightarrow> mc_tx mc \<noteq> []"
  by (cases "mc_tx mc") (simp_all add: lastTx_def)

lemma mc_top_alt: "mc_top mc = top_value (mc_tx mc)"
  by (simp add: mc_top_def lastTx_nonneg nat_lastTx last_conv_nth)

lemma mc_tx_push: "mc_tx (push i v mc) = drop_tx i (mc_tx mc) @ [\<lparr>tx_id = i, tx_value = v\<rparr>]"
proof (cases "mc_tx mc" rule: rev_cases)
  case (snoc xs x)
  then show ?thesis by (cases x) (auto simp: push_def nat_lastTx nth_append)
qed (simp add: push_def)

lemma mc_tx_Dirty: "mc_tx (mc_Dirty i mc) = drop_tx i (mc_tx mc)"
  by (simp add: mc_Dirty_def lastTx_nonneg nat_lastTx last_conv_nth butlast_conv_take)

lemma mc_tx_pop: "mc_tx (snd (pop mc)) = (if top_value (mc_tx mc) = None then mc_tx mc else butlast (mc_tx mc))"
  by (simp add: pop_def Let_def mc_top_alt nat_lastTx butlast_conv_take)

lemma mc_fields [simp]:
  "mc_key (push i v mc) = mc_key mc" "mc_transID (push i v mc) = mc_transID mc"
  "mc_key (mc_Dirty i mc) = mc_key mc" "mc_transID (mc_Dirty i mc) = mc_transID mc"
  "mc_key (snd (pop mc)) = mc_key mc" "mc_transID (snd (pop mc)) = mc_transID mc"
  "mc_key (newmc t k mi) = k" "mc_transID (newmc t k mi) = t"
  by (auto simp: push_def mc_Dirty_def pop_def newmc_def Let_def split: option.splits)

section \<open>Invariant\<close>

definition mc_inv :: "mc_instance \<Rightarrow> bool" where
  "mc_inv mi \<longleftrightarrow>
     distinct (map fst (mcCache mi)) \<and>
     (\<forall>t mcs. map_of (mcCache mi) t = Some mcs \<longrightarrow>
        distinct (map fst mcs) \<and>
        (\<forall>k a. map_of mcs k = Some a \<longrightarrow>
           a < fresh mi \<and> mc_transID (objects mi a) = t \<and> mc_key (objects mi a) = k))"

lemma map_of_update [simp]: "map_of (AList.update k v al) = (map_of al)(k \<mapsto> v)"
  by (rule ext) (simp add: update_conv')

lemma map_of_delete [simp]: "map_of (AList.delete k al) = (map_of al)(k := None)"
  by (rule ext) (simp add: delete_conv')

declare map_of_eq_Some_iff [simp del]

lemma mc_inv_addr:
  "mc_inv mi \<Longrightarrow> map_of (mcCache mi) t = Some m \<Longrightarrow> map_of m k = Some a \<Longrightarrow>
     a < fresh mi \<and> mc_transID (objects mi a) = t \<and> mc_key (objects mi a) = k"
  by (simp add: mc_inv_def)

lemma mc_inv_on_object:
  assumes "mc_inv mi" "\<And>mc. mc_key (f mc) = mc_key mc" "\<And>mc. mc_transID (f mc) = mc_transID mc"
  shows "mc_inv (on_object a f mi)"
  using assms by (auto simp: mc_inv_def on_object_def)

text \<open>\<open>NewMc\<close> by cases: the cache is there, or a new object is entered.\<close>

definition caches :: "mc_instance \<Rightarrow> i64 \<Rightarrow> (string \<times> nat) list" where
  "caches mi t = (case map_of (mcCache mi) t of Some mcs \<Rightarrow> mcs | None \<Rightarrow> [])"

lemma NewMc_old: "map_of (caches mi t) k = Some a \<Longrightarrow> NewMc t k mi = (a, mi)"
  by (simp add: NewMc_def Let_def caches_def split: option.splits)

lemma NewMc_new:
  assumes "map_of (caches mi t) k = None"
  obtains al where "NewMc t k mi = (fresh mi, mi\<lparr>mcCache := al, objects := (objects mi)(fresh mi := newmc t k mi), fresh := fresh mi + 1\<rparr>)"
    "map_of al = (map_of (mcCache mi))(t \<mapsto> AList.update k (fresh mi) (caches mi t))"
    "distinct (map fst (mcCache mi)) \<longrightarrow> distinct (map fst al)"
proof (cases "map_of (mcCache mi) t")
  case None
  show ?thesis
    by (rule that [of "AList.update t (AList.update k (fresh mi) []) (AList.update t [] (mcCache mi))"])
      (use None assms in \<open>simp_all add: NewMc_def Let_def caches_def newmc_def distinct_update\<close>)
next
  case (Some mcs)
  show ?thesis
    by (rule that [of "AList.update t (AList.update k (fresh mi) mcs) (mcCache mi)"])
      (use Some assms in \<open>simp_all add: NewMc_def Let_def caches_def distinct_update\<close>)
qed

lemma caches_inv:
  assumes "mc_inv mi"
  shows "distinct (map fst (caches mi t))"
    "map_of (caches mi t) k = Some a \<Longrightarrow> a < fresh mi \<and> mc_transID (objects mi a) = t \<and> mc_key (objects mi a) = k"
  using assms by (auto simp: mc_inv_def caches_def split: option.splits)

lemma mc_inv_NewMc:
  assumes "mc_inv mi"
  shows "mc_inv (snd (NewMc t k mi))"
proof (cases "map_of (caches mi t) k")
  case None
  then obtain al where al: "NewMc t k mi = (fresh mi, mi\<lparr>mcCache := al, objects := (objects mi)(fresh mi := newmc t k mi), fresh := fresh mi + 1\<rparr>)"
    "map_of al = (map_of (mcCache mi))(t \<mapsto> AList.update k (fresh mi) (caches mi t))"
    "distinct (map fst (mcCache mi)) \<longrightarrow> distinct (map fst al)" by (rule NewMc_new)
  have old: "distinct (map fst m) \<and> (\<forall>k' a. map_of m k' = Some a \<longrightarrow>
      a < fresh mi \<and> mc_transID (objects mi a) = t' \<and> mc_key (objects mi a) = k')" if "map_of (mcCache mi) t' = Some m" for t' m
    using assms that by (simp add: mc_inv_def)
  have "distinct (map fst al)" using al(3) assms by (simp add: mc_inv_def)
  moreover have "distinct (map fst m) \<and> (\<forall>k' a. map_of m k' = Some a \<longrightarrow>
      a < fresh mi + 1 \<and> mc_transID (((objects mi)(fresh mi := newmc t k mi)) a) = t' \<and>
      mc_key (((objects mi)(fresh mi := newmc t k mi)) a) = k')" if "map_of al t' = Some m" for t' m
  proof (cases "t' = t")
    case True
    with that al(2) have "m = AList.update k (fresh mi) (caches mi t)" by simp
    with True caches_inv [OF assms] show ?thesis
      by (auto simp: distinct_update less_Suc_eq)
  next
    case False
    with that al(2) old [of t' m] show ?thesis by fastforce
  qed
  ultimately show ?thesis unfolding mc_inv_def al(1) by simp
qed (simp add: NewMc_old assms)

lemma mc_inv_DirtyTransTx: "mc_inv mi \<Longrightarrow> mc_inv (DirtyTransTx t i mi)"
proof -
  have "mc_inv m \<Longrightarrow> mc_inv (fold (\<lambda>(k, a). on_object a (mc_Dirty i)) mcs m)" for mcs :: "(string \<times> nat) list" and m
    by (induction mcs arbitrary: m) (auto simp: mc_inv_on_object)
  then show "mc_inv mi \<Longrightarrow> mc_inv (DirtyTransTx t i mi)"
    by (simp add: DirtyTransTx_def split: option.splits)
qed

text \<open>Under the invariant the caches of a key are found under that key, and the loop of
  \<open>Dirty\<close> removes exactly them.\<close>

lemma fold_delete:
  "\<forall>(k, a) \<in> set l. mc_key (obj a) = k \<Longrightarrow>
     fold (\<lambda>(k, a) m. if mc_key (obj a) = key then AList.delete key m else m) l m =
     (if key \<in> fst ` set l then AList.delete key m else m)"
  by (induction l arbitrary: m) (auto simp: delete_idem)

lemma map_of_map_snd: "map_of (map (\<lambda>(t, m). (t, f m)) al) t = map_option f (map_of al t)"
  by (induction al) auto

lemma Dirty_mc_caches:
  assumes "mc_inv mi"
  shows "mcCache (Dirty_mc key mi) = map (\<lambda>(t, mcs). (t, AList.delete key mcs)) (mcCache mi)"
proof -
  have "fold (\<lambda>(k, a) m. if mc_key (objects mi a) = key then AList.delete key m else m) mcs mcs = AList.delete key mcs"
    if "(t, mcs) \<in> set (mcCache mi)" for t mcs
  proof -
    have m: "map_of (mcCache mi) t = Some mcs" using assms that by (simp add: mc_inv_def)
    then have "\<forall>(k, a) \<in> set mcs. mc_key (objects mi a) = k" using assms by (auto simp: mc_inv_def)
    then show ?thesis by (simp add: fold_delete delete_notin_dom)
  qed
  then show ?thesis by (auto simp: Dirty_mc_def)
qed

lemma mc_inv_Dirty_mc: "mc_inv mi \<Longrightarrow> mc_inv (Dirty_mc key mi)"
proof -
  assume i: "mc_inv mi"
  have "distinct (map fst (map (\<lambda>(t, mcs). (t, AList.delete key mcs)) (mcCache mi)))"
    using i by (simp add: mc_inv_def comp_def case_prod_unfold)
  moreover have "fresh (Dirty_mc key mi) = fresh mi" "objects (Dirty_mc key mi) = objects mi" by (simp_all add: Dirty_mc_def)
  ultimately show ?thesis
    using i unfolding mc_inv_def Dirty_mc_caches [OF i] by (auto simp: map_of_map_snd distinct_delete split: if_splits)
qed

lemma mc_inv_delete: "mc_inv mi \<Longrightarrow> mc_inv (mi\<lparr>mcCache := AList.delete t (mcCache mi)\<rparr>)"
  by (simp add: mc_inv_def distinct_delete)

lemma mc_inv_llCache: "mc_inv (mi\<lparr>llCache := l\<rparr>) = mc_inv mi"
  by (simp add: mc_inv_def)

lemma mc_inv_Clear: "mc_inv (Clear mi)"
  by (simp add: mc_inv_def Clear_def)

lemma mc_inv_step: "mc_step mi op mi' \<Longrightarrow> mc_inv mi \<Longrightarrow> mc_inv mi'"
proof (induction rule: mc_step.induct)
  case (CommitTrans mi t)
  then show ?case
    using mc_inv_delete [of "mi\<lparr>llCache := l\<rparr>" t for l]
    by (auto simp: CommitTrans_def mc_inv_llCache split: option.splits)
qed (auto simp: mc_inv_NewMc mc_inv_Dirty_mc mc_inv_DirtyTransTx mc_inv_delete mc_inv_llCache mc_inv_Clear
      DirtyTrans_def mc_Set_def Dirty_ll_def mc_inv_on_object split: option.splits)

lemma mc_reach_mc_inv: "mc_reach mi \<Longrightarrow> mc_inv mi"
  by (induction rule: mc_reach.induct) (simp add: mc_inv_def NewMcInstance_def, rule mc_inv_step)

section \<open>Abstract specification\<close>

text \<open>The committed value of each key, and for each open transaction the stack of values of each
  key it has a cache for: no objects, no pointers, no order of maps.\<close>

record mc_spec =
  committed :: "string \<rightharpoonup> bytes option"
  pending :: "i64 \<rightharpoonup> (string \<rightharpoonup> txCache list)"

definition mc_abs :: "mc_instance \<Rightarrow> mc_spec" where
  "mc_abs mi =
     \<lparr>committed = map_of (llCache mi),
      pending = (\<lambda>t. map_option (\<lambda>mcs k. map_option (\<lambda>a. mc_tx (objects mi a)) (map_of mcs k)) (map_of (mcCache mi) t))\<rparr>"

definition sp_open :: "i64 \<Rightarrow> string \<Rightarrow> mc_spec \<Rightarrow> mc_spec" where
  "sp_open t k A =
     (let m = (case pending A t of Some m \<Rightarrow> m | None \<Rightarrow> Map.empty);
          init = (case committed A k of Some v \<Rightarrow> [\<lparr>tx_id = 0, tx_value = v\<rparr>] | None \<Rightarrow> [])
      in A\<lparr>pending := (pending A)(t \<mapsto> (if m k = None then m(k \<mapsto> init) else m))\<rparr>)"

text \<open>A write through a pointer reaches the transaction and key that still has the cache
  (\<open>Some\<close>), or nothing when the cache was removed (\<open>None\<close>).\<close>

definition sp_at :: "(i64 \<times> string) option \<Rightarrow> (txCache list \<Rightarrow> txCache list) \<Rightarrow> mc_spec \<Rightarrow> mc_spec" where
  "sp_at loc f A =
     (case loc of
        None \<Rightarrow> A
      | Some (t, k) \<Rightarrow> A\<lparr>pending := (pending A)(t := map_option (\<lambda>m. m(k := map_option f (m k))) (pending A t))\<rparr>)"

definition sp_commit :: "i64 \<Rightarrow> mc_spec \<Rightarrow> mc_spec" where
  "sp_commit t A =
     (case pending A t of
        None \<Rightarrow> A
      | Some m \<Rightarrow> \<lparr>committed = (\<lambda>k. case m k of Some l \<Rightarrow> Some (top_value l) | None \<Rightarrow> committed A k),
                  pending = (pending A)(t := None)\<rparr>)"

fun sp_exec :: "(nat \<Rightarrow> (i64 \<times> string) option) \<Rightarrow> mc_op \<Rightarrow> mc_spec \<Rightarrow> mc_spec" where
  "sp_exec loc (ONewMc t k) A = sp_open t k A"
| "sp_exec loc (OSet a i v) A = sp_at (loc a) (\<lambda>l. drop_tx i l @ [\<lparr>tx_id = i, tx_value = v\<rparr>]) A"
| "sp_exec loc (OPop a) A = sp_at (loc a) (\<lambda>l. if top_value l = None then l else butlast l) A"
| "sp_exec loc (ODirtyTx a i) A = sp_at (loc a) (\<lambda>l. drop_tx i l) A"
| "sp_exec loc (ODirty_mc k) A = A\<lparr>pending := (\<lambda>t. map_option (\<lambda>m. m(k := None)) (pending A t))\<rparr>"
| "sp_exec loc (ODirty_ll k) A = A\<lparr>committed := (committed A)(k := None)\<rparr>"
| "sp_exec loc OClear A = \<lparr>committed = Map.empty, pending = Map.empty\<rparr>"
| "sp_exec loc (OCommitTrans t) A = sp_commit t A"
| "sp_exec loc (ODirtyTrans t) A = A\<lparr>pending := (pending A)(t := None)\<rparr>"
| "sp_exec loc (ODirtyTransTx t i) A =
     A\<lparr>pending := (pending A)(t := map_option (\<lambda>m k. map_option (\<lambda>l. drop_tx i l) (m k)) (pending A t))\<rparr>"

text \<open>Where the cache behind a pointer is registered.\<close>

definition mc_loc :: "mc_instance \<Rightarrow> nat \<Rightarrow> (i64 \<times> string) option" where
  "mc_loc mi a =
     (let t = mc_transID (objects mi a); k = mc_key (objects mi a)
      in if map_of (caches mi t) k = Some a then Some (t, k) else None)"

section \<open>Refinement\<close>

lemma mc_abs_sel:
  "committed (mc_abs mi) = map_of (llCache mi)"
  "pending (mc_abs mi) t = map_option (\<lambda>mcs k. map_option (\<lambda>a. mc_tx (objects mi a)) (map_of mcs k)) (map_of (mcCache mi) t)"
  by (simp_all add: mc_abs_def)

lemma mc_abs_eqI:
  assumes "committed (mc_abs mi) = committed A" "\<And>t. pending (mc_abs mi) t = pending A t"
  shows "mc_abs mi = (A :: mc_spec)"
  using assms by (intro mc_spec.equality ext) simp_all

lemma newmc_tx: "mc_tx (newmc t k mi) = (case map_of (llCache mi) k of Some v \<Rightarrow> [\<lparr>tx_id = 0, tx_value = v\<rparr>] | None \<Rightarrow> [])"
  by (simp add: newmc_def split: option.splits)

lemma abs_NewMc:
  assumes "mc_inv mi"
  shows "mc_abs (snd (NewMc t k mi)) = sp_open t k (mc_abs mi)"
proof (cases "map_of (caches mi t) k")
  case None
  then obtain al where al: "NewMc t k mi = (fresh mi, mi\<lparr>mcCache := al, objects := (objects mi)(fresh mi := newmc t k mi), fresh := fresh mi + 1\<rparr>)"
    "map_of al = (map_of (mcCache mi))(t \<mapsto> AList.update k (fresh mi) (caches mi t))"
    "distinct (map fst (mcCache mi)) \<longrightarrow> distinct (map fst al)" by (rule NewMc_new)
  have fr: "a \<noteq> fresh mi" if "map_of (mcCache mi) t' = Some m" "map_of m k' = Some a" for t' m k' a
    using mc_inv_addr [OF assms that] by simp
  have fr': "a \<noteq> fresh mi" if "map_of (caches mi t) k' = Some a" for k' a
    using caches_inv(2) [OF assms that] by simp
  show ?thesis
  proof (rule mc_abs_eqI)
    show "committed (mc_abs (snd (NewMc t k mi))) = committed (sp_open t k (mc_abs mi))"
      by (simp add: al(1) mc_abs_sel sp_open_def Let_def)
    show "pending (mc_abs (snd (NewMc t k mi))) t' = pending (sp_open t k (mc_abs mi)) t'" for t'
    proof (cases "t' = t")
      case True
      have m: "(case pending (mc_abs mi) t of Some m \<Rightarrow> m | None \<Rightarrow> Map.empty) =
          (\<lambda>k. map_option (\<lambda>a. mc_tx (objects mi a)) (map_of (caches mi t) k))"
        by (simp add: mc_abs_sel caches_def fun_eq_iff split: option.splits)
      let ?m = "\<lambda>k'. map_option (\<lambda>a. mc_tx (objects mi a)) (map_of (caches mi t) k')"
      have "pending (sp_open t k (mc_abs mi)) t = Some (?m(k \<mapsto> mc_tx (newmc t k mi)))"
        unfolding sp_open_def m by (simp add: None newmc_tx mc_abs_sel)
      moreover have "pending (mc_abs (snd (NewMc t k mi))) t = Some (?m(k \<mapsto> mc_tx (newmc t k mi)))"
        using fr' by (auto simp: al(1,2) mc_abs_sel fun_eq_iff intro!: map_option_cong)
      ultimately show ?thesis by (simp add: True)
    next
      case False
      then show ?thesis
        using fr by (auto simp: sp_open_def Let_def al(1,2) mc_abs_sel fun_eq_iff intro!: map_option_cong)
    qed
  qed
next
  case (Some a)
  then show ?thesis
    by (intro mc_abs_eqI) (auto simp: NewMc_old sp_open_def Let_def mc_abs_sel caches_def split: option.splits)
qed

lemma abs_on_object:
  assumes "mc_inv mi" "\<And>mc. mc_tx (f mc) = g (mc_tx mc)"
  shows "mc_abs (on_object a f mi) = sp_at (mc_loc mi a) g (mc_abs mi)"
proof (cases "mc_loc mi a")
  case None
  have "a' \<noteq> a" if "map_of (mcCache mi) t = Some m" "map_of m k = Some a'" for t m k a'
    using None mc_inv_addr [OF assms(1) that] that
    by (auto simp: mc_loc_def Let_def caches_def split: if_splits)
  then show ?thesis
    by (intro mc_abs_eqI) (auto simp: None sp_at_def mc_abs_sel on_object_def fun_eq_iff intro!: map_option_cong)
next
  case (Some tk)
  obtain t k where tk: "tk = (t, k)" by (cases tk)
  have l: "map_of (caches mi t) k = Some a" "t = mc_transID (objects mi a)" "k = mc_key (objects mi a)"
    using Some tk by (auto simp: mc_loc_def Let_def split: if_splits)
  then obtain mcs where mcs: "map_of (mcCache mi) t = Some mcs" "map_of mcs k = Some a"
    by (auto simp: caches_def split: option.splits)
  have other: "a' \<noteq> a" if "map_of (mcCache mi) t' = Some m" "map_of m k' = Some a'" "t' \<noteq> t \<or> k' \<noteq> k" for t' m k' a'
    using mc_inv_addr [OF assms(1) that(1,2)] mc_inv_addr [OF assms(1) mcs] that(3) by auto
  show ?thesis
  proof (rule mc_abs_eqI)
    show "committed (mc_abs (on_object a f mi)) = committed (sp_at (mc_loc mi a) g (mc_abs mi))"
      by (simp add: Some tk sp_at_def mc_abs_sel on_object_def)
    show "pending (mc_abs (on_object a f mi)) t' = pending (sp_at (mc_loc mi a) g (mc_abs mi)) t'" for t'
    proof (cases "t' = t")
      case True
      then show ?thesis using mcs other [OF mcs(1)] assms(2)
        by (auto simp: Some tk sp_at_def mc_abs_sel on_object_def fun_eq_iff intro!: map_option_cong)
    next
      case False
      then show ?thesis using other
        by (auto simp: Some tk sp_at_def mc_abs_sel on_object_def fun_eq_iff intro!: map_option_cong)
    qed
  qed
qed

lemma fold_update_top:
  assumes "distinct (map fst mcs)" "\<forall>(k, a) \<in> set mcs. mc_key (obj a) = k"
  shows "map_of (fold (\<lambda>(k, a). AList.update (mc_key (obj a)) (mc_top (obj a))) mcs ll) k =
    (case map_of mcs k of Some a \<Rightarrow> Some (mc_top (obj a)) | None \<Rightarrow> map_of ll k)"
  using assms
proof (induction mcs arbitrary: ll)
  case (Cons x mcs)
  obtain k' a where x: "x = (k', a)" by (cases x)
  with Cons.prems have "map_of mcs k' = None" by (auto simp: map_of_eq_None_iff)
  with Cons x show ?case by (auto split: option.splits)
qed simp

lemma mc_inv_keys:
  assumes "mc_inv mi" "map_of (mcCache mi) t = Some mcs"
  shows "distinct (map fst mcs)" "\<forall>(k, a) \<in> set mcs. mc_key (objects mi a) = k" "distinct (map snd mcs)"
proof -
  show d: "distinct (map fst mcs)" using assms by (simp add: mc_inv_def)
  show k: "\<forall>(k, a) \<in> set mcs. mc_key (objects mi a) = k"
    using mc_inv_addr [OF assms] d by auto
  show "distinct (map snd mcs)"
    using d k by (induction mcs) (force simp: image_iff)+
qed

lemma abs_CommitTrans:
  assumes "mc_inv mi"
  shows "mc_abs (CommitTrans t mi) = sp_commit t (mc_abs mi)"
proof (cases "map_of (mcCache mi) t")
  case None
  then show ?thesis by (simp add: CommitTrans_def sp_commit_def mc_abs_sel)
next
  case (Some mcs)
  note k = mc_inv_keys(1,2) [OF assms Some]
  show ?thesis
    by (rule mc_abs_eqI) (auto simp: Some CommitTrans_def sp_commit_def mc_abs_sel fun_eq_iff
        fold_update_top [OF k, unfolded mc_top_alt] mc_top_alt split: option.splits)
qed

text \<open>A loop over the objects of a transaction touches each of them once.\<close>

lemma fold_on_object:
  "distinct (map snd mcs) \<Longrightarrow>
     fold (\<lambda>(k, a). on_object a f) mcs mi =
     mi\<lparr>objects := (\<lambda>a. if a \<in> snd ` set mcs then f (objects mi a) else objects mi a)\<rparr>"
proof (induction mcs arbitrary: mi)
  case (Cons x mcs)
  then show ?case by (cases x) (auto simp: on_object_def fun_eq_iff intro!: mc_instance.equality)
qed simp

lemma abs_DirtyTransTx:
  assumes "mc_inv mi"
  shows "mc_abs (DirtyTransTx t i mi) = sp_exec loc (ODirtyTransTx t i) (mc_abs mi)"
proof (cases "map_of (mcCache mi) t")
  case None
  then show ?thesis by (intro mc_abs_eqI) (auto simp: DirtyTransTx_def mc_abs_sel)
next
  case (Some mcs)
  let ?mi = "mi\<lparr>objects := (\<lambda>a. if a \<in> snd ` set mcs then mc_Dirty i (objects mi a) else objects mi a)\<rparr>"
  have eq: "DirtyTransTx t i mi = ?mi"
    using fold_on_object [OF mc_inv_keys(3) [OF assms Some]] by (simp add: DirtyTransTx_def Some)
  have sep: "a \<notin> snd ` set mcs" if "map_of (mcCache mi) t' = Some m" "map_of m k = Some a" "t' \<noteq> t" for t' m k a
  proof
    assume "a \<in> snd ` set mcs"
    then obtain k' where "map_of mcs k' = Some a" using mc_inv_keys(1) [OF assms Some]
      by (auto dest: map_of_is_SomeI)
    with mc_inv_addr [OF assms Some] mc_inv_addr [OF assms that(1,2)] that(3) show False by blast
  qed
  have mem: "a \<in> snd ` set mcs" if "map_of mcs k = Some a" for k a
    using map_of_SomeD [OF that] by force
  show ?thesis
  proof (rule mc_abs_eqI)
    show "committed (mc_abs (DirtyTransTx t i mi)) = committed (sp_exec loc (ODirtyTransTx t i) (mc_abs mi))"
      by (simp add: eq mc_abs_sel)
    show "pending (mc_abs (DirtyTransTx t i mi)) t' = pending (sp_exec loc (ODirtyTransTx t i) (mc_abs mi)) t'" for t'
    proof (cases "t' = t")
      case True
      then show ?thesis using mem
        by (auto simp: eq mc_abs_sel Some fun_eq_iff option.map_comp mc_tx_Dirty intro!: map_option_cong)
    next
      case False
      then show ?thesis using sep
        by (auto simp: eq mc_abs_sel fun_eq_iff intro!: map_option_cong)
    qed
  qed
qed

lemma abs_Dirty_mc:
  assumes "mc_inv mi"
  shows "mc_abs (Dirty_mc k mi) = sp_exec loc (ODirty_mc k) (mc_abs mi)"
proof -
  have "llCache (Dirty_mc k mi) = llCache mi" "objects (Dirty_mc k mi) = objects mi" by (simp_all add: Dirty_mc_def)
  then show ?thesis
    by (intro mc_abs_eqI)
      (auto simp: mc_abs_sel Dirty_mc_caches [OF assms] map_of_map_snd fun_eq_iff option.map_comp intro!: map_option_cong)
qed

lemma mc_refines:
  assumes "mc_inv mi" "mc_step mi op mi'"
  shows "mc_abs mi' = sp_exec (mc_loc mi) op (mc_abs mi)"
  using assms(2,1)
proof (cases rule: mc_step.cases)
  case (Set a i v)
  with abs_on_object [OF assms(1), of "mc_Set i v" "\<lambda>l. drop_tx i l @ [\<lparr>tx_id = i, tx_value = v\<rparr>]" a]
  show ?thesis by (simp add: mc_Set_def mc_tx_push)
next
  case (Pop a)
  with abs_on_object [OF assms(1), of "\<lambda>mc. snd (pop mc)" "\<lambda>l. if top_value l = None then l else butlast l" a]
  show ?thesis by (simp add: mc_tx_pop)
next
  case (DirtyTx a i)
  with abs_on_object [OF assms(1), of "mc_Dirty i" "\<lambda>l. drop_tx i l" a] show ?thesis by (simp add: mc_tx_Dirty)
next
  case (Dirty_mc k)
  then show ?thesis by (simp only: abs_Dirty_mc [OF assms(1), of k "mc_loc mi"])
next
  case (DirtyTransTx t i)
  then show ?thesis by (simp only: abs_DirtyTransTx [OF assms(1), of t i "mc_loc mi"])
qed (use assms(1) in \<open>auto simp: abs_NewMc abs_CommitTrans intro!: mc_abs_eqI,
       auto simp: mc_abs_sel Dirty_ll_def Clear_def DirtyTrans_def split: option.splits\<close>)

section \<open>Properties\<close>

text \<open>C4. Refinement: in every reachable state of the cache, each critical section changes the
  committed values and the open transactions the way the abstract specification says. The
  specification knows neither objects nor the order of Go maps, so the order in which
  \<open>range\<close> visits them does not matter.\<close>

theorem mc_step_refines:
  assumes "mc_reach mi" and "mc_step mi op mi'"
  shows "mc_abs mi' = sp_exec (mc_loc mi) op (mc_abs mi)"
  using assms by (rule mc_refines [OF mc_reach_mc_inv])

text \<open>A state reached by opening key \<open>k\<close> in transaction 7 and writing to it.\<close>

definition sample_mi :: mc_instance where
  "sample_mi = on_object 0 (mc_Set 1 (Some [5])) (snd (NewMc 7 ''k'' NewMcInstance))"

lemma sample_mi_reach: "mc_reach sample_mi" "mc_loc sample_mi 0 = Some (7, ''k'')" "map_of (caches sample_mi 8) ''k'' = None"
proof -
  have 1: "mc_reach (snd (NewMc 7 ''k'' NewMcInstance))" by (rule mc_reach.step [OF mc_reach.init mc_step.NewMc])
  have "mc_step (snd (NewMc 7 ''k'' NewMcInstance)) (OSet 0 1 (Some [5])) sample_mi"
    unfolding sample_mi_def by (rule mc_step.Set) code_simp
  with 1 show "mc_reach sample_mi" by (rule mc_reach.step)
  show "mc_loc sample_mi 0 = Some (7, ''k'')" by code_simp
  show "map_of (caches sample_mi 8) ''k'' = None" by code_simp
qed

theorem mc_step_refines_witness:
  "mc_abs (CommitTrans 7 sample_mi) = sp_exec (mc_loc sample_mi) (OCommitTrans 7) (mc_abs sample_mi)"
  by (rule mc_step_refines [OF sample_mi_reach(1) mc_step.CommitTrans])

text \<open>C30. Invariant of every reachable state: the cache registered for a transaction and a key is
  one that \<open>NewMc\<close> created for them, and asking for it again returns the same pointer and
  leaves the state alone.\<close>

theorem mc_registered:
  assumes "mc_reach mi" and "map_of (caches mi t) k = Some a"
  shows "mc_transID (objects mi a) = t \<and> mc_key (objects mi a) = k \<and> a < fresh mi \<and> NewMc t k mi = (a, mi)"
  using caches_inv(2) [OF mc_reach_mc_inv [OF assms(1)] assms(2)] NewMc_old [OF assms(2)] by simp

theorem mc_registered_witness: "NewMc 7 ''k'' sample_mi = (0, sample_mi)"
  using mc_registered [OF sample_mi_reach(1), of 7 "''k''" 0] sample_mi_reach(2)
  by (auto simp: mc_loc_def Let_def split: if_splits)

lemma caches_CommitTrans: "caches (CommitTrans t mi) t' = (if t' = t then [] else caches mi t')"
  by (auto simp: caches_def CommitTrans_def split: option.splits)

lemma caches_DirtyTrans: "caches (DirtyTrans t mi) t' = (if t' = t then [] else caches mi t')"
  by (auto simp: caches_def DirtyTrans_def split: option.splits)

lemma caches_on_object [simp]: "caches (on_object a f mi) = caches mi"
  by (simp add: caches_def fun_eq_iff on_object_def)

lemma mc_Get_new:
  assumes "map_of (caches mi t) k = None" "NewMc t k mi = (b, mi')"
  shows "mc_Get (objects mi' b) = (case map_of (llCache mi) k of Some v \<Rightarrow> v | None \<Rightarrow> None)"
proof -
  obtain al where "NewMc t k mi = (fresh mi, mi\<lparr>mcCache := al, objects := (objects mi)(fresh mi := newmc t k mi), fresh := fresh mi + 1\<rparr>)"
    by (rule NewMc_new [OF assms(1)])
  with assms(2) have "objects mi' b = newmc t k mi" by auto
  then show ?thesis by (simp add: mc_Get_def mc_top_alt newmc_tx split: option.splits)
qed

lemma NewMc_registers:
  assumes "map_of (caches mi t) k = None" "NewMc t k mi = (b, mi')"
  shows "map_of (caches mi' t) k = Some b"
proof -
  obtain al where "NewMc t k mi = (fresh mi, mi\<lparr>mcCache := al, objects := (objects mi)(fresh mi := newmc t k mi), fresh := fresh mi + 1\<rparr>)"
    "map_of al = (map_of (mcCache mi))(t \<mapsto> AList.update k (fresh mi) (caches mi t))"
    by (rule NewMc_new [OF assms(1)])
  with assms(2) show ?thesis by (auto simp: caches_def)
qed

lemma committed_CommitTrans:
  assumes "mc_inv mi" "map_of (caches mi t) k = Some a"
  shows "map_of (llCache (CommitTrans t mi)) k = Some (mc_top (objects mi a))"
proof -
  obtain mcs where m: "map_of (mcCache mi) t = Some mcs" "map_of mcs k = Some a"
    using assms(2) by (auto simp: caches_def split: option.splits)
  show ?thesis
    by (simp add: CommitTrans_def m(1) fold_update_top [OF mc_inv_keys(1,2) [OF assms(1) m(1)]] m(2))
qed

text \<open>C19. Transactions: a value written through the cache of transaction \<open>t\<close> is what a later
  transaction reads when \<open>t\<close> was committed, and when \<open>t\<close> was dropped the later one reads the
  value committed before.\<close>

theorem mc_commit_or_drop:
  assumes "mc_reach mi" and "mc_loc mi a = Some (t, k)" and "t' = t \<or> map_of (caches mi t') k = None"
    and "NewMc t' k (CommitTrans t (on_object a (mc_Set i v) mi)) = (b, mi1)"
    and "NewMc t' k (DirtyTrans t (on_object a (mc_Set i v) mi)) = (c, mi2)"
  shows "mc_Get (objects mi1 b) = v \<and>
    mc_Get (objects mi2 c) = (case map_of (llCache mi) k of Some w \<Rightarrow> w | None \<Rightarrow> None)"
proof
  let ?mi = "on_object a (mc_Set i v) mi"
  have a: "map_of (caches ?mi t) k = Some a" using assms(2) by (simp add: mc_loc_def Let_def split: if_splits)
  have i: "mc_inv ?mi" using mc_reach_mc_inv [OF assms(1)] by (simp add: mc_inv_on_object mc_Set_def)
  have "mc_top (objects ?mi a) = v" by (simp add: on_object_def mc_Set_def mc_top_alt mc_tx_push)
  moreover have "map_of (caches (CommitTrans t ?mi) t') k = None" using assms(3) by (auto simp: caches_CommitTrans)
  ultimately show "mc_Get (objects mi1 b) = v"
    using mc_Get_new [OF _ assms(4)] committed_CommitTrans [OF i a] by simp
  have "map_of (caches (DirtyTrans t ?mi) t') k = None" using assms(3) by (auto simp: caches_DirtyTrans)
  moreover have "llCache (DirtyTrans t ?mi) = llCache mi" by (simp add: DirtyTrans_def on_object_def)
  ultimately show "mc_Get (objects mi2 c) = (case map_of (llCache mi) k of Some w \<Rightarrow> w | None \<Rightarrow> None)"
    using mc_Get_new [OF _ assms(5)] by simp
qed

theorem mc_commit_or_drop_witness:
  "\<exists>b mi1. NewMc 8 ''k'' (CommitTrans 7 (on_object 0 (mc_Set 2 (Some [9])) sample_mi)) = (b, mi1) \<and>
    mc_Get (objects mi1 b) = Some [9]"
proof -
  obtain b mi1 c mi2 where "NewMc 8 ''k'' (CommitTrans 7 (on_object 0 (mc_Set 2 (Some [9])) sample_mi)) = (b, mi1)"
    "NewMc 8 ''k'' (DirtyTrans 7 (on_object 0 (mc_Set 2 (Some [9])) sample_mi)) = (c, mi2)" by (meson surj_pair)
  with mc_commit_or_drop [OF sample_mi_reach(1,2) _ this] sample_mi_reach(3) show ?thesis by blast
qed

lemma caches_Dirty_mc:
  assumes "mc_inv mi"
  shows "map_of (caches (Dirty_mc k mi) t) k' = (if k' = k then None else map_of (caches mi t) k')"
  by (simp add: caches_def Dirty_mc_caches [OF assms] map_of_map_snd split: option.splits)

lemma llCache_Dirty_mc [simp]: "llCache (Dirty_mc k mi) = llCache mi"
  by (simp add: Dirty_mc_def)

lemma Dirty_ll_sel [simp]:
  "map_of (llCache (Dirty_ll k mi)) = (map_of (llCache mi))(k := None)" "mcCache (Dirty_ll k mi) = mcCache mi"
  "objects (Dirty_ll k mi) = objects mi" "fresh (Dirty_ll k mi) = fresh mi" "caches (Dirty_ll k mi) = caches mi"
  by (auto simp: Dirty_ll_def caches_def fun_eq_iff split: option.splits)

text \<open>C31. After \<open>Dirty(key)\<close> ran alone, a new cache of the key is empty. It gives its lock up
  between its two loops: a \<open>NewMc\<close> of another goroutine in the gap takes the old value up again,
  and committing that transaction puts it back among the committed values.\<close>

theorem mc_Dirty_alone_or_raced:
  assumes "mc_reach mi" and "map_of (llCache mi) k = Some v" and "NewMc t k (Dirty k mi) = (b, mi1)"
    and "NewMc t k (Dirty_mc k mi) = (c, mi2)"
  shows "mc_Get (objects mi1 b) = None \<and>
    mc_Get (objects (Dirty_ll k mi2) c) = v \<and>
    map_of (llCache (CommitTrans t (Dirty_ll k mi2))) k = Some v"
proof (intro conjI)
  have i: "mc_inv mi" by (rule mc_reach_mc_inv [OF assms(1)])
  have c: "map_of (caches (Dirty_mc k mi) t) k = None" by (simp add: caches_Dirty_mc [OF i])
  show "mc_Get (objects mi1 b) = None"
    using mc_Get_new [OF _ assms(3)] c by (simp add: Dirty_def)
  show g: "mc_Get (objects (Dirty_ll k mi2) c) = v"
    using mc_Get_new [OF c assms(4)] assms(2) by simp
  have i2: "mc_inv (Dirty_ll k mi2)"
    using mc_inv_step [OF mc_step.NewMc mc_inv_Dirty_mc [OF i], of t k k] assms(4) mc_inv_step [OF mc_step.Dirty_ll]
    by simp
  have "map_of (caches (Dirty_ll k mi2) t) k = Some c"
    using NewMc_registers [OF c assms(4)] by simp
  from committed_CommitTrans [OF i2 this] g
  show "map_of (llCache (CommitTrans t (Dirty_ll k mi2))) k = Some v" by (simp add: mc_Get_def)
qed

theorem mc_Dirty_alone_or_raced_witness:
  "\<exists>c mi2. NewMc 8 ''k'' (Dirty_mc ''k'' (CommitTrans 7 sample_mi)) = (c, mi2) \<and>
     map_of (llCache (CommitTrans 8 (Dirty_ll ''k'' mi2))) ''k'' = Some (Some [5])"
proof -
  obtain b mi1 c mi2 where n: "NewMc 8 ''k'' (Dirty ''k'' (CommitTrans 7 sample_mi)) = (b, mi1)"
    "NewMc 8 ''k'' (Dirty_mc ''k'' (CommitTrans 7 sample_mi)) = (c, mi2)" by (meson surj_pair)
  have r: "mc_reach (CommitTrans 7 sample_mi)" by (rule mc_reach.step [OF sample_mi_reach(1) mc_step.CommitTrans])
  have "map_of (llCache (CommitTrans 7 sample_mi)) ''k'' = Some (Some [5])" by code_simp
  from mc_Dirty_alone_or_raced [OF r this n] n(2) show ?thesis by blast
qed

section \<open>Rolling a tx back\<close>

text \<open>Two values next to each other in a stack are of different \<open>tx\<close>s.\<close>

definition tx_apart :: "mc_instance \<Rightarrow> bool" where
  "tx_apart mi \<longleftrightarrow> (\<forall>a. successively (\<lambda>x y. tx_id x \<noteq> tx_id y) (mc_tx (objects mi a)))"

lemma successively_butlast: "successively P l \<Longrightarrow> successively P (butlast l)"
  by (cases l rule: rev_cases) (auto simp: successively_append_iff)

lemma tx_apart_on_object:
  assumes "tx_apart mi" "\<And>mc. successively (\<lambda>x y. tx_id x \<noteq> tx_id y) (mc_tx mc) \<Longrightarrow>
    successively (\<lambda>x y. tx_id x \<noteq> tx_id y) (mc_tx (f mc))"
  shows "tx_apart (on_object a f mi)"
  using assms by (simp add: tx_apart_def on_object_def)

lemma apart_drop_tx:
  assumes "successively (\<lambda>x y. tx_id x \<noteq> tx_id y) l"
  shows "successively (\<lambda>x y. tx_id x \<noteq> tx_id y) (drop_tx i l)" "drop_tx i l \<noteq> [] \<Longrightarrow> tx_id (last (drop_tx i l)) \<noteq> i"
proof -
  show "successively (\<lambda>x y. tx_id x \<noteq> tx_id y) (drop_tx i l)" using assms by (simp add: successively_butlast)
  assume "drop_tx i l \<noteq> []"
  then show "tx_id (last (drop_tx i l)) \<noteq> i"
  proof (cases l rule: rev_cases)
    case (snoc l' x)
    with assms \<open>drop_tx i l \<noteq> []\<close> show ?thesis by (auto simp: successively_append_iff split: if_splits)
  qed simp
qed

lemma tx_apart_fold:
  assumes "\<And>mi a. tx_apart mi \<Longrightarrow> tx_apart (g a mi)"
  shows "tx_apart mi \<Longrightarrow> tx_apart (fold (\<lambda>(k, a). g a) mcs mi)"
  by (induction mcs arbitrary: mi) (auto simp: assms)

lemma tx_apart_step: "mc_step mi op mi' \<Longrightarrow> tx_apart mi \<Longrightarrow> tx_apart mi'"
proof (induction rule: mc_step.induct)
  case (NewMc mi t k)
  then show ?case
  proof (cases "map_of (caches mi t) k")
    case None
    then obtain al where "NewMc t k mi = (fresh mi, mi\<lparr>mcCache := al, objects := (objects mi)(fresh mi := newmc t k mi), fresh := fresh mi + 1\<rparr>)"
      by (rule NewMc_new)
    with NewMc show ?thesis by (simp add: tx_apart_def newmc_tx split: option.splits)
  qed (simp add: NewMc_old)
next
  case (Set a mi i v)
  show ?case
  proof (rule tx_apart_on_object [OF Set(2)])
    fix mc :: memcache assume "successively (\<lambda>x y. tx_id x \<noteq> tx_id y) (mc_tx mc)"
    from apart_drop_tx [OF this, of i] show "successively (\<lambda>x y. tx_id x \<noteq> tx_id y) (mc_tx (mc_Set i v mc))"
      unfolding mc_Set_def mc_tx_push by (auto simp: successively_append_iff split: if_splits)
  qed
next
  case (Pop a mi)
  then show ?case by (intro tx_apart_on_object) (simp_all add: mc_tx_pop successively_butlast)
next
  case (DirtyTx a mi i)
  then show ?case by (intro tx_apart_on_object) (simp_all add: mc_tx_Dirty successively_butlast)
next
  case (DirtyTransTx mi t i)
  have "tx_apart (fold (\<lambda>(k, a). on_object a (mc_Dirty i)) mcs mi)" for mcs :: "(string \<times> nat) list"
    by (intro tx_apart_fold tx_apart_on_object DirtyTransTx) (simp_all add: mc_tx_Dirty successively_butlast)
  then show ?case using DirtyTransTx by (simp add: DirtyTransTx_def split: option.splits)
qed (simp_all add: tx_apart_def Dirty_mc_def Dirty_ll_def Clear_def CommitTrans_def DirtyTrans_def split: option.splits)

lemma mc_reach_tx_apart: "mc_reach mi \<Longrightarrow> tx_apart mi"
  by (induction rule: mc_reach.induct) (simp add: tx_apart_def NewMcInstance_def, rule tx_apart_step)

lemma DirtyTransTx_objects:
  assumes "mc_inv mi"
  shows "DirtyTransTx t i mi =
    mi\<lparr>objects := (\<lambda>a. if a \<in> snd ` set (caches mi t) then mc_Dirty i (objects mi a) else objects mi a)\<rparr>"
proof (cases "map_of (mcCache mi) t")
  case None
  then show ?thesis by (simp add: DirtyTransTx_def caches_def)
next
  case (Some mcs)
  then show ?thesis
    using fold_on_object [OF mc_inv_keys(3) [OF assms Some]] by (simp add: DirtyTransTx_def caches_def)
qed

text \<open>What a cache looks like while a \<open>tx\<close> writes to it: as before, or with one more value.\<close>

definition written :: "i64 \<Rightarrow> memcache \<Rightarrow> memcache \<Rightarrow> bool" where
  "written i mc mc' \<longleftrightarrow> mc' = mc \<or> (\<exists>v. mc' = mc\<lparr>mc_tx := mc_tx mc @ [\<lparr>tx_id = i, tx_value = v\<rparr>]\<rparr>)"

lemma memcache_eqI: "mc_transID mc = mc_transID mc' \<Longrightarrow> mc_key mc = mc_key mc' \<Longrightarrow> mc_tx mc = mc_tx mc' \<Longrightarrow> mc = (mc' :: memcache)"
  by simp

lemma written_Set: "written i mc mc' \<Longrightarrow> drop_tx i (mc_tx mc) = mc_tx mc \<Longrightarrow> written i mc (mc_Set i v mc')"
  unfolding written_def by (intro disjI2 exI [of _ v] memcache_eqI) (auto simp: mc_Set_def mc_tx_push)

lemma written_Dirty: "written i mc mc' \<Longrightarrow> drop_tx i (mc_tx mc) = mc_tx mc \<Longrightarrow> mc_Dirty i mc' = mc"
  by (rule memcache_eqI) (auto simp: written_def mc_tx_Dirty)

lemma fold_Set_written:
  assumes "\<And>a. a \<in> fst ` set ws \<Longrightarrow> drop_tx i (mc_tx (objects mi a)) = mc_tx (objects mi a)"
  shows "\<exists>f. fold (\<lambda>(a, v). on_object a (mc_Set i v)) ws mi = mi\<lparr>objects := f\<rparr> \<and>
    (\<forall>a. if a \<in> fst ` set ws then written i (objects mi a) (f a) else f a = objects mi a)"
  using assms
proof (induction ws rule: rev_induct)
  case Nil
  show ?case by (intro exI [of _ "objects mi"]) simp
next
  case (snoc w ws)
  obtain a v where w: "w = (a, v)" by force
  obtain f where f: "fold (\<lambda>(a, v). on_object a (mc_Set i v)) ws mi = mi\<lparr>objects := f\<rparr>"
    "\<And>a. if a \<in> fst ` set ws then written i (objects mi a) (f a) else f a = objects mi a"
    using snoc by auto
  have "written i (objects mi a) (f a)" using f(2) [of a] by (auto simp: written_def split: if_splits)
  moreover have "drop_tx i (mc_tx (objects mi a)) = mc_tx (objects mi a)" by (rule snoc.prems) (simp add: w)
  ultimately have "written i (objects mi a) (mc_Set i v (f a))" by (rule written_Set)
  moreover have "fold (\<lambda>(a, v). on_object a (mc_Set i v)) (ws @ [w]) mi = mi\<lparr>objects := f(a := mc_Set i v (f a))\<rparr>"
    by (simp add: f(1) w on_object_def [of a "mc_Set i v" "mi\<lparr>objects := f\<rparr>"])
  ultimately show ?case using f(2) by (intro exI [of _ "f(a := mc_Set i v (f a))"] conjI) (assumption, auto simp: w)
qed

text \<open>C18. Rolling a \<open>tx\<close> of a transaction back. When no cache of the transaction ends in a value of
  the \<open>tx\<close>, then after any sequence of its writes to the caches of the transaction \<open>DirtyTransTx\<close>
  brings back the state from before the writes. In every state it drops the last value of each cache
  that ends in one of the \<open>tx\<close>, and no cache ends in one afterwards; values of the \<open>tx\<close> below stay,
  although the comment of \<open>Dirty\<close> says that all of them are deleted.\<close>

theorem mc_DirtyTransTx_rollback:
  assumes "mc_reach mi"
  shows "(\<forall>ws. (\<forall>(a, v) \<in> set ws. a \<in> snd ` set (caches mi t)) \<and>
        (\<forall>a \<in> snd ` set (caches mi t). mc_tx (objects mi a) = [] \<or> tx_id (last (mc_tx (objects mi a))) \<noteq> i) \<longrightarrow>
      DirtyTransTx t i (fold (\<lambda>(a, v). on_object a (mc_Set i v)) ws mi) = mi) \<and>
    (\<forall>a \<in> snd ` set (caches mi t).
      let l = mc_tx (objects mi a); l' = mc_tx (objects (DirtyTransTx t i mi) a)
      in l' = (if l \<noteq> [] \<and> tx_id (last l) = i then butlast l else l) \<and> (l' = [] \<or> tx_id (last l') \<noteq> i) \<and>
         ((\<exists>e \<in> set l'. tx_id e = i) \<longleftrightarrow> (\<exists>e \<in> set (butlast l). tx_id e = i)))"
proof (intro conjI allI impI ballI; (elim conjE)?)
  have inv: "mc_inv mi" by (rule mc_reach_mc_inv [OF assms])
  fix ws :: "(nat \<times> bytes option) list"
  assume ws: "\<forall>(a, v) \<in> set ws. a \<in> snd ` set (caches mi t)"
    and top: "\<forall>a \<in> snd ` set (caches mi t). mc_tx (objects mi a) = [] \<or> tx_id (last (mc_tx (objects mi a))) \<noteq> i"
  let ?mi = "fold (\<lambda>(a, v). on_object a (mc_Set i v)) ws mi"
  have drop: "drop_tx i (mc_tx (objects mi a)) = mc_tx (objects mi a)" if "a \<in> snd ` set (caches mi t)" for a
    using top that by auto
  have drop': "drop_tx i (mc_tx (objects mi a)) = mc_tx (objects mi a)" if "a \<in> fst ` set ws" for a
    using that ws by (intro drop) auto
  obtain f where f: "?mi = mi\<lparr>objects := f\<rparr>"
    "\<And>a. if a \<in> fst ` set ws then written i (objects mi a) (f a) else f a = objects mi a"
    using fold_Set_written [OF drop', of ws] by blast
  have "mc_inv m \<Longrightarrow> mc_inv (fold (\<lambda>(a, v). on_object a (mc_Set i v)) ws m)" for m
    by (induction ws arbitrary: m) (auto simp: mc_inv_on_object mc_Set_def)
  with inv have inv': "mc_inv (mi\<lparr>objects := f\<rparr>)" by (simp flip: f(1))
  have c: "caches (mi\<lparr>objects := f\<rparr>) t = caches mi t" by (simp add: caches_def)
  have o: "(if a \<in> snd ` set (caches mi t) then mc_Dirty i (f a) else f a) = objects mi a" for a
  proof (cases "a \<in> snd ` set (caches mi t)")
    case True
    have "written i (objects mi a) (f a)" using f(2) [of a] by (auto simp: written_def split: if_splits)
    with True drop [OF True] show ?thesis by (simp add: written_Dirty)
  next
    case False
    then have "a \<notin> fst ` set ws" using ws by auto
    with False f(2) [of a] show ?thesis by simp
  qed
  show "DirtyTransTx t i ?mi = mi" unfolding f(1) DirtyTransTx_objects [OF inv'] c
    by (intro mc_instance.equality) (simp_all add: o cong: if_cong)
next
  fix a assume a: "a \<in> snd ` set (caches mi t)"
  let ?l = "mc_tx (objects mi a)"
  have l: "mc_tx (objects (DirtyTransTx t i mi) a) = drop_tx i ?l"
    using a by (simp add: DirtyTransTx_objects [OF mc_reach_mc_inv [OF assms]] mc_tx_Dirty)
  have "successively (\<lambda>x y. tx_id x \<noteq> tx_id y) ?l" using mc_reach_tx_apart [OF assms] by (simp add: tx_apart_def)
  then have "drop_tx i ?l = [] \<or> tx_id (last (drop_tx i ?l)) \<noteq> i" using apart_drop_tx(2) by blast
  moreover have "(\<exists>e \<in> set (drop_tx i ?l). tx_id e = i) \<longleftrightarrow> (\<exists>e \<in> set (butlast ?l). tx_id e = i)"
    by (cases ?l rule: rev_cases) auto
  ultimately show "let l = ?l; l' = mc_tx (objects (DirtyTransTx t i mi) a)
      in l' = (if l \<noteq> [] \<and> tx_id (last l) = i then butlast l else l) \<and> (l' = [] \<or> tx_id (last l') \<noteq> i) \<and>
         ((\<exists>e \<in> set l'. tx_id e = i) \<longleftrightarrow> (\<exists>e \<in> set (butlast l). tx_id e = i))"
    unfolding l Let_def by (intro conjI) blast+
qed

theorem mc_DirtyTransTx_rollback_witness:
  "DirtyTransTx 7 2 (on_object 0 (mc_Set 2 (Some [8])) (on_object 0 (mc_Set 2 (Some [9])) sample_mi)) = sample_mi"
proof -
  have "caches sample_mi 7 = [(''k'', 0)]" "mc_tx (objects sample_mi 0) = [\<lparr>tx_id = 1, tx_value = Some [5]\<rparr>]" by code_simp+
  with mc_DirtyTransTx_rollback [OF sample_mi_reach(1), THEN conjunct1, rule_format, of "[(0, Some [9]), (0, Some [8])]" 7 2]
  show ?thesis by simp
qed

end
