(* ===== verification/Db.thy ===== *)
theory Db
  imports Prelude "HOL-Library.AList" "HOL-Library.List_Lexorder" "HOL-Library.Sublist"
begin

text \<open>
  The key-value stores of \<^verbatim>\<open>src/tendermint/tmlibs/db\<close>: the in-memory database
  (\<^verbatim>\<open>mem_db.go\<close>), its batches (\<^verbatim>\<open>mem_batch.go\<close>), the databases that keep
  their keys under a prefix of another one (\<^verbatim>\<open>prefix_db.go\<close>), and the iterators of both.
  The state is the in-memory database at the root; a database value of the program is a handle, the
  root itself or a prefix on top of another handle, and all handles share the state. A nil slice is
  \<open>None\<close>; a panic is \<open>None\<close> as well, in the results of iterator operations.
\<close>

section \<open>Byte strings\<close>

definition nonNilBytes :: "bytes option \<Rightarrow> bytes" where
  "nonNilBytes bz = (case bz of None \<Rightarrow> [] | Some b \<Rightarrow> b)"

text \<open>\<^verbatim>\<open>bytes.Compare\<close>.\<close>

fun Compare :: "bytes \<Rightarrow> bytes \<Rightarrow> int" where
  "Compare [] [] = 0"
| "Compare [] (b # bs) = -1"
| "Compare (a # as) [] = 1"
| "Compare (a # as) (b # bs) = (if a < b then -1 else if b < a then 1 else Compare as bs)"

definition cp :: "bytes \<Rightarrow> bytes" where
  "cp bz = map (\<lambda>i. bz ! i) [0 ..< length bz]"

text \<open>The loops of \<open>cpIncr\<close> and \<open>cpDecr\<close> run down from index \<open>n - 1\<close>.\<close>

fun incr_loop :: "nat \<Rightarrow> bytes \<Rightarrow> bytes option" where
  "incr_loop 0 ret = None"
| "incr_loop (Suc i) ret =
     (if ret ! i < 0xFF then Some (ret[i := ret ! i + 1])
      else if i = 0 then None
      else incr_loop i (ret[i := 0]))"

fun decr_loop :: "nat \<Rightarrow> bytes \<Rightarrow> bytes option" where
  "decr_loop 0 ret = None"
| "decr_loop (Suc i) ret =
     (if 0 < ret ! i then Some (ret[i := ret ! i - 1])
      else if i = 0 then None
      else decr_loop i (ret[i := 0xFF]))"

text \<open>The outer \<open>None\<close> is the panic on an empty slice, the inner one the overflow.\<close>

definition cpIncr :: "bytes \<Rightarrow> bytes option option" where
  "cpIncr bz = (if length bz = 0 then None else Some (incr_loop (length bz) (cp bz)))"

definition cpDecr :: "bytes \<Rightarrow> bytes option option" where
  "cpDecr bz = (if length bz = 0 then None else Some (decr_loop (length bz) (cp bz)))"

definition IsKeyInDomain :: "bytes \<Rightarrow> bytes option \<Rightarrow> bytes option \<Rightarrow> bool \<Rightarrow> bool" where
  "IsKeyInDomain key start stop isReverse =
     (if \<not> isReverse then
        (if Compare key (nonNilBytes start) < 0 then False
         else if stop \<noteq> None \<and> Compare (nonNilBytes stop) key \<le> 0 then False
         else True)
      else
        (if start \<noteq> None \<and> Compare (nonNilBytes start) key < 0 then False
         else if stop \<noteq> None \<and> Compare key (nonNilBytes stop) \<le> 0 then False
         else True))"

section \<open>The in-memory database\<close>

record MemDB =
  mdb :: "(bytes \<times> bytes) list"

definition NewMemDB :: MemDB where
  "NewMemDB = \<lparr>mdb = []\<rparr>"

definition mem_Get :: "bytes option \<Rightarrow> MemDB \<Rightarrow> bytes option" where
  "mem_Get key db = map_of (mdb db) (nonNilBytes key)"

definition mem_Has :: "bytes option \<Rightarrow> MemDB \<Rightarrow> bool" where
  "mem_Has key db \<longleftrightarrow> map_of (mdb db) (nonNilBytes key) \<noteq> None"

definition SetNoLockSync :: "bytes option \<Rightarrow> bytes option \<Rightarrow> MemDB \<Rightarrow> MemDB" where
  "SetNoLockSync key val db = db\<lparr>mdb := AList.update (nonNilBytes key) (nonNilBytes val) (mdb db)\<rparr>"

definition SetNoLock :: "bytes option \<Rightarrow> bytes option \<Rightarrow> MemDB \<Rightarrow> MemDB" where
  "SetNoLock key val db = SetNoLockSync key val db"

definition mem_Set :: "bytes option \<Rightarrow> bytes option \<Rightarrow> MemDB \<Rightarrow> MemDB" where
  "mem_Set key val db = SetNoLock key val db"

definition mem_SetSync :: "bytes option \<Rightarrow> bytes option \<Rightarrow> MemDB \<Rightarrow> MemDB" where
  "mem_SetSync key val db = SetNoLock key val db"

definition DeleteNoLockSync :: "bytes option \<Rightarrow> MemDB \<Rightarrow> MemDB" where
  "DeleteNoLockSync key db = db\<lparr>mdb := AList.delete (nonNilBytes key) (mdb db)\<rparr>"

definition DeleteNoLock :: "bytes option \<Rightarrow> MemDB \<Rightarrow> MemDB" where
  "DeleteNoLock key db = DeleteNoLockSync key db"

definition mem_Delete :: "bytes option \<Rightarrow> MemDB \<Rightarrow> MemDB" where
  "mem_Delete key db = DeleteNoLock key db"

definition mem_DeleteSync :: "bytes option \<Rightarrow> MemDB \<Rightarrow> MemDB" where
  "mem_DeleteSync key db = DeleteNoLock key db"

text \<open>The swap loop that reverses the sorted keys.\<close>

primrec swap_loop :: "nat \<Rightarrow> nat \<Rightarrow> bytes list \<Rightarrow> bytes list" where
  "swap_loop i 0 keys = keys"
| "swap_loop i (Suc n) keys =
     (let temp = keys ! i; nkeys = length keys;
          keys = keys[i := keys ! (nkeys - i - 1)]; keys = keys[nkeys - i - 1 := temp]
      in swap_loop (i + 1) n keys)"

definition getSortedKeys :: "bytes option \<Rightarrow> bytes option \<Rightarrow> bool \<Rightarrow> MemDB \<Rightarrow> bytes list" where
  "getSortedKeys start stop reverse db =
     (let keys = filter (\<lambda>key. IsKeyInDomain key start stop reverse) (map fst (mdb db));
          keys = sort keys
      in if reverse then swap_loop 0 (length keys div 2) keys else keys)"

section \<open>Handles\<close>

datatype DB = Mem | PrefixDB bytes DB

definition NewPrefixDB :: "DB \<Rightarrow> bytes \<Rightarrow> DB" where
  "NewPrefixDB db pre = PrefixDB pre db"

definition prefixed :: "bytes \<Rightarrow> bytes option \<Rightarrow> bytes" where
  "prefixed pre key = cp pre @ nonNilBytes key"

primrec db_Get :: "DB \<Rightarrow> bytes option \<Rightarrow> MemDB \<Rightarrow> bytes option" where
  "db_Get Mem key s = mem_Get key s"
| "db_Get (PrefixDB pre db) key s = db_Get db (Some (prefixed pre key)) s"

primrec db_Has :: "DB \<Rightarrow> bytes option \<Rightarrow> MemDB \<Rightarrow> bool" where
  "db_Has Mem key s = mem_Has key s"
| "db_Has (PrefixDB pre db) key s = db_Has db (Some (prefixed pre key)) s"

primrec db_Set :: "DB \<Rightarrow> bytes option \<Rightarrow> bytes option \<Rightarrow> MemDB \<Rightarrow> MemDB" where
  "db_Set Mem key val s = mem_Set key val s"
| "db_Set (PrefixDB pre db) key val s = db_Set db (Some (prefixed pre key)) val s"

primrec db_SetSync :: "DB \<Rightarrow> bytes option \<Rightarrow> bytes option \<Rightarrow> MemDB \<Rightarrow> MemDB" where
  "db_SetSync Mem key val s = mem_SetSync key val s"
| "db_SetSync (PrefixDB pre db) key val s = db_SetSync db (Some (prefixed pre key)) val s"

primrec db_Delete :: "DB \<Rightarrow> bytes option \<Rightarrow> MemDB \<Rightarrow> MemDB" where
  "db_Delete Mem key s = mem_Delete key s"
| "db_Delete (PrefixDB pre db) key s = db_Delete db (Some (prefixed pre key)) s"

primrec db_DeleteSync :: "DB \<Rightarrow> bytes option \<Rightarrow> MemDB \<Rightarrow> MemDB" where
  "db_DeleteSync Mem key s = mem_DeleteSync key s"
| "db_DeleteSync (PrefixDB pre db) key s = db_DeleteSync db (Some (prefixed pre key)) s"

section \<open>Batches\<close>

datatype opType = opTypeSet | opTypeDelete

record operation =
  op_type :: opType
  op_key :: "bytes option"
  op_value :: "bytes option"

definition NewMemBatch :: "operation list" where
  "NewMemBatch = []"

definition memBatch_Set :: "operation list \<Rightarrow> bytes option \<Rightarrow> bytes option \<Rightarrow> operation list" where
  "memBatch_Set ops key val = ops @ [\<lparr>op_type = opTypeSet, op_key = key, op_value = val\<rparr>]"

definition memBatch_Delete :: "operation list \<Rightarrow> bytes option \<Rightarrow> operation list" where
  "memBatch_Delete ops key = ops @ [\<lparr>op_type = opTypeDelete, op_key = key, op_value = None\<rparr>]"

datatype Batch = memBatch "operation list" | prefixBatch bytes Batch

primrec NewBatch :: "DB \<Rightarrow> Batch" where
  "NewBatch Mem = memBatch NewMemBatch"
| "NewBatch (PrefixDB pre db) = prefixBatch pre (NewBatch db)"

primrec batch_Set :: "Batch \<Rightarrow> bytes option \<Rightarrow> bytes option \<Rightarrow> Batch" where
  "batch_Set (memBatch ops) key val = memBatch (memBatch_Set ops key val)"
| "batch_Set (prefixBatch pre source) key val =
     prefixBatch pre (batch_Set source (Some (cp pre @ nonNilBytes key)) val)"

primrec batch_Delete :: "Batch \<Rightarrow> bytes option \<Rightarrow> Batch" where
  "batch_Delete (memBatch ops) key = memBatch (memBatch_Delete ops key)"
| "batch_Delete (prefixBatch pre source) key =
     prefixBatch pre (batch_Delete source (Some (cp pre @ nonNilBytes key)))"

text \<open>The loop of \<open>write\<close> from index \<open>i\<close> on, of \<open>n\<close> operations.\<close>

primrec write_loop :: "bool \<Rightarrow> nat \<Rightarrow> nat \<Rightarrow> operation list \<Rightarrow> MemDB \<Rightarrow> MemDB" where
  "write_loop doSync n i [] s = s"
| "write_loop doSync n i (op # ops) s =
     (if doSync \<and> i = n - 1 then
        (case op_type op of
           opTypeSet \<Rightarrow> SetNoLockSync (op_key op) (op_value op) s
         | opTypeDelete \<Rightarrow> DeleteNoLockSync (op_key op) s)
      else
        write_loop doSync n (i + 1) ops
          (case op_type op of
             opTypeSet \<Rightarrow> SetNoLock (op_key op) (op_value op) s
           | opTypeDelete \<Rightarrow> DeleteNoLock (op_key op) s))"

definition write_ops :: "bool \<Rightarrow> operation list \<Rightarrow> MemDB \<Rightarrow> MemDB" where
  "write_ops doSync ops s = write_loop doSync (length ops) 0 ops s"

definition memBatch_Write :: "operation list \<Rightarrow> MemDB \<Rightarrow> MemDB" where
  "memBatch_Write ops s = write_ops False ops s"

definition memBatch_WriteSync :: "operation list \<Rightarrow> MemDB \<Rightarrow> MemDB" where
  "memBatch_WriteSync ops s = write_ops True ops s"

primrec batch_Write :: "Batch \<Rightarrow> MemDB \<Rightarrow> MemDB" where
  "batch_Write (memBatch ops) s = memBatch_Write ops s"
| "batch_Write (prefixBatch pre source) s = batch_Write source s"

primrec batch_WriteSync :: "Batch \<Rightarrow> MemDB \<Rightarrow> MemDB" where
  "batch_WriteSync (memBatch ops) s = memBatch_WriteSync ops s"
| "batch_WriteSync (prefixBatch pre source) s = batch_WriteSync source s"

section \<open>Iterators\<close>

record memDBIterator =
  itr_cur :: nat
  itr_keys :: "bytes list"
  itr_start :: "bytes option"
  itr_end :: "bytes option"

definition newMemDBIterator :: "bytes list \<Rightarrow> bytes option \<Rightarrow> bytes option \<Rightarrow> memDBIterator" where
  "newMemDBIterator keys start stop = \<lparr>itr_cur = 0, itr_keys = keys, itr_start = start, itr_end = stop\<rparr>"

definition mem_Iterator :: "bytes option \<Rightarrow> bytes option \<Rightarrow> MemDB \<Rightarrow> memDBIterator" where
  "mem_Iterator start stop db = newMemDBIterator (getSortedKeys start stop False db) start stop"

definition mem_ReverseIterator :: "bytes option \<Rightarrow> bytes option \<Rightarrow> MemDB \<Rightarrow> memDBIterator" where
  "mem_ReverseIterator start stop db = newMemDBIterator (getSortedKeys start stop True db) start stop"

definition mem_itr_Domain :: "memDBIterator \<Rightarrow> bytes option \<times> bytes option" where
  "mem_itr_Domain itr = (itr_start itr, itr_end itr)"

definition mem_itr_Valid :: "memDBIterator \<Rightarrow> bool" where
  "mem_itr_Valid itr \<longleftrightarrow> 0 \<le> itr_cur itr \<and> itr_cur itr < length (itr_keys itr)"

definition mem_itr_Next :: "memDBIterator \<Rightarrow> memDBIterator option" where
  "mem_itr_Next itr = (if mem_itr_Valid itr then Some (itr\<lparr>itr_cur := itr_cur itr + 1\<rparr>) else None)"

definition mem_itr_Key :: "memDBIterator \<Rightarrow> bytes option" where
  "mem_itr_Key itr = (if mem_itr_Valid itr then Some (itr_keys itr ! itr_cur itr) else None)"

definition mem_itr_Value :: "memDBIterator \<Rightarrow> MemDB \<Rightarrow> bytes option option" where
  "mem_itr_Value itr db =
     (if mem_itr_Valid itr then (let key = itr_keys itr ! itr_cur itr in Some (mem_Get (Some key) db)) else None)"

definition mem_itr_Close :: "memDBIterator \<Rightarrow> memDBIterator" where
  "mem_itr_Close itr = itr\<lparr>itr_keys := []\<rparr>"

text \<open>A prefix iterator: prefix, start, end, source, and whether it was valid when it was made.
  Its methods have value receivers: they move the source, which is shared, and not the flag.\<close>

datatype Iterator = MemIter memDBIterator | PrefixIter bytes "bytes option" "bytes option" Iterator bool

primrec itr_Domain :: "Iterator \<Rightarrow> bytes option \<times> bytes option" where
  "itr_Domain (MemIter itr) = mem_itr_Domain itr"
| "itr_Domain (PrefixIter pre start stop source valid) = (start, stop)"

primrec itr_Valid :: "Iterator \<Rightarrow> bool" where
  "itr_Valid (MemIter itr) = mem_itr_Valid itr"
| "itr_Valid (PrefixIter pre start stop source valid) = (valid \<and> itr_Valid source)"

definition stripPrefix :: "bytes \<Rightarrow> bytes \<Rightarrow> bytes option" where
  "stripPrefix key pre =
     (if length key < length pre then None
      else if take (length pre) key \<noteq> pre then None
      else Some (drop (length pre) key))"

definition bytes_HasPrefix :: "bytes \<Rightarrow> bytes \<Rightarrow> bool" where
  "bytes_HasPrefix s p \<longleftrightarrow> length p \<le> length s \<and> take (length p) s = p"

primrec itr_Key :: "Iterator \<Rightarrow> bytes option" where
  "itr_Key (MemIter itr) = mem_itr_Key itr"
| "itr_Key (PrefixIter pre start stop source valid) =
     (if \<not> valid then None
      else case itr_Key source of None \<Rightarrow> None | Some key \<Rightarrow> stripPrefix key pre)"

primrec itr_Value :: "Iterator \<Rightarrow> MemDB \<Rightarrow> bytes option option" where
  "itr_Value (MemIter itr) s = mem_itr_Value itr s"
| "itr_Value (PrefixIter pre start stop source valid) s = (if \<not> valid then None else itr_Value source s)"

primrec itr_Close :: "Iterator \<Rightarrow> Iterator" where
  "itr_Close (MemIter itr) = MemIter (mem_itr_Close itr)"
| "itr_Close (PrefixIter pre start stop source valid) = PrefixIter pre start stop (itr_Close source) valid"

primrec itr_Next :: "Iterator \<Rightarrow> Iterator option" where
  "itr_Next (MemIter itr) = map_option MemIter (mem_itr_Next itr)"
| "itr_Next (PrefixIter pre start stop source valid) =
     (if \<not> valid then None
      else case itr_Next source of
             None \<Rightarrow> None
           | Some source \<Rightarrow>
               (if \<not> itr_Valid source then Some (PrefixIter pre start stop (itr_Close source) valid)
                else case itr_Key source of
                       None \<Rightarrow> None
                     | Some key \<Rightarrow>
                         (if \<not> bytes_HasPrefix key pre
                          then Some (PrefixIter pre start stop (itr_Close source) valid)
                          else Some (PrefixIter pre start stop source valid))))"

definition newPrefixIterator :: "bytes \<Rightarrow> bytes option \<Rightarrow> bytes option \<Rightarrow> Iterator \<Rightarrow> Iterator option" where
  "newPrefixIterator pre start stop source =
     (if \<not> itr_Valid source then Some (PrefixIter pre start stop source False)
      else case itr_Key source of
             None \<Rightarrow> None
           | Some key \<Rightarrow> Some (PrefixIter pre start stop source (bytes_HasPrefix key pre)))"

definition skipOne :: "Iterator \<Rightarrow> bytes option \<Rightarrow> Iterator option" where
  "skipOne itr skipKey =
     (if itr_Valid itr then
        (case itr_Key itr of
           None \<Rightarrow> None
         | Some key \<Rightarrow> (if key = nonNilBytes skipKey then itr_Next itr else Some itr))
      else Some itr)"

primrec db_Iterator :: "DB \<Rightarrow> bytes option \<Rightarrow> bytes option \<Rightarrow> MemDB \<Rightarrow> Iterator option" where
  "db_Iterator Mem start stop s = Some (MemIter (mem_Iterator start stop s))"
| "db_Iterator (PrefixDB pre db) start stop s =
     (let pstart = cp pre @ nonNilBytes start
      in case (if stop = None then cpIncr pre else Some (Some (cp pre @ nonNilBytes stop))) of
           None \<Rightarrow> None
         | Some pend \<Rightarrow>
             (case db_Iterator db (Some pstart) pend s of
                None \<Rightarrow> None
              | Some source \<Rightarrow> newPrefixIterator pre start stop source))"

primrec db_ReverseIterator :: "DB \<Rightarrow> bytes option \<Rightarrow> bytes option \<Rightarrow> MemDB \<Rightarrow> Iterator option" where
  "db_ReverseIterator Mem start stop s = Some (MemIter (mem_ReverseIterator start stop s))"
| "db_ReverseIterator (PrefixDB pre db) start stop s =
     (case (if start = None then cpIncr pre else Some (Some (cp pre @ nonNilBytes start))) of
        None \<Rightarrow> None
      | Some pstart \<Rightarrow>
          (case (if stop = None then cpDecr pre else Some (Some (cp pre @ nonNilBytes stop))) of
             None \<Rightarrow> None
           | Some pend \<Rightarrow>
               (case db_ReverseIterator db pstart pend s of
                  None \<Rightarrow> None
                | Some ritr \<Rightarrow>
                    (case (if start = None then
                             (case cpIncr pre of None \<Rightarrow> None | Some skipKey \<Rightarrow> skipOne ritr skipKey)
                           else Some ritr) of
                       None \<Rightarrow> None
                     | Some ritr \<Rightarrow> newPrefixIterator pre start stop ritr))))"

definition IteratePrefix :: "DB \<Rightarrow> bytes \<Rightarrow> MemDB \<Rightarrow> Iterator option" where
  "IteratePrefix db pre s =
     (if length pre = 0 then db_Iterator db None None s
      else case cpIncr pre of
             None \<Rightarrow> None
           | Some stop \<Rightarrow> db_Iterator db (Some (cp pre)) stop s)"

text \<open>The loop of the interface's documentation, \<open>for ; itr.Valid(); itr.Next()\<close>, reading the
  keys and the values; \<open>None\<close> when it panics or does not end within \<open>n\<close> rounds.\<close>

primrec iterate :: "nat \<Rightarrow> Iterator \<Rightarrow> MemDB \<Rightarrow> (bytes \<times> bytes option) list option" where
  "iterate 0 itr s = None"
| "iterate (Suc n) itr s =
     (if \<not> itr_Valid itr then Some []
      else case (itr_Key itr, itr_Value itr s, itr_Next itr) of
             (Some k, Some v, Some itr') \<Rightarrow>
               (case iterate n itr' s of None \<Rightarrow> None | Some kvs \<Rightarrow> Some ((k, v) # kvs))
           | _ \<Rightarrow> None)"

end
