(* ===== verification/DbLaws.thy ===== *)
theory DbLaws
  imports Db
begin

text \<open>
  Correctness of the key-value stores. The contract of a store is the locale \<open>kv_store\<close>; the
  in-memory database keeps it, a prefix on top of a store that keeps it keeps it again, and so
  every handle does. Iterators are specified by the keys they have still to deliver
  (\<open>itr_left\<close>).
\<close>

section \<open>The order of byte strings\<close>

lemma Compare_iff [simp]:
  "Compare a b < 0 \<longleftrightarrow> a < b" "Compare a b \<le> 0 \<longleftrightarrow> a \<le> b"
proof -
  have "(Compare a b < 0 \<longleftrightarrow> a < b) \<and> (Compare a b = 0 \<longleftrightarrow> a = b)"
    by (induction a b rule: Compare.induct) auto
  then show "Compare a b < 0 \<longleftrightarrow> a < b" "Compare a b \<le> 0 \<longleftrightarrow> a \<le> b" by (auto simp: le_less)
qed

lemma nonNilBytes_simps [simp]: "nonNilBytes None = []" "nonNilBytes (Some b) = b"
  by (simp_all add: nonNilBytes_def)

lemma cp_id [simp]: "cp bz = bz"
  by (simp add: cp_def map_nth)

lemma append_less_iff [simp]: "p @ a < p @ b \<longleftrightarrow> a < b" for p a b :: bytes
  by (induction p) simp_all

lemma append_le_iff [simp]: "p @ a \<le> p @ b \<longleftrightarrow> a \<le> b" for p a b :: bytes
  by (induction p) simp_all

lemma prefix_le: "prefix p k \<Longrightarrow> p \<le> (k :: bytes)"
  by (auto simp: prefix_def) (metis append_Nil2 append_le_iff Nil_le_Cons list.exhaust order_refl)

text \<open>The keys with a prefix are an interval of the order.\<close>

lemma not_prefix_above: "p \<le> x \<Longrightarrow> \<not> prefix p x \<Longrightarrow> x \<le> y \<Longrightarrow> \<not> prefix p (y :: bytes)"
proof (induction p arbitrary: x y)
  case (Cons a p)
  then show ?case by (cases x; cases y) (auto simp: prefix_Cons less_le_not_le)
qed simp

lemma bytes_HasPrefix_iff [simp]: "bytes_HasPrefix k p \<longleftrightarrow> prefix p k"
  by (auto simp: bytes_HasPrefix_def prefix_def) (metis append_take_drop_id)

section \<open>Increment and decrement\<close>

lemma incr_loop_append: "i \<le> length r \<Longrightarrow> incr_loop i (r @ t) = map_option (\<lambda>x. x @ t) (incr_loop i r)"
  by (induction i arbitrary: r t)
    (simp_all add: nth_append list_update_append1)

lemma decr_loop_append: "i \<le> length r \<Longrightarrow> decr_loop i (r @ t) = map_option (\<lambda>x. x @ t) (decr_loop i r)"
  by (induction i arbitrary: r t)
    (simp_all add: nth_append list_update_append1)

lemma incr_loop_snoc:
  "incr_loop (length (q @ [b])) (q @ [b]) =
     (if b < 0xFF then Some (q @ [b + 1]) else map_option (\<lambda>x. x @ [0]) (incr_loop (length q) q))"
proof -
  have "incr_loop (Suc (length q)) (q @ [b]) =
      (if b < 0xFF then Some (q @ [b + 1]) else if length q = 0 then None else incr_loop (length q) (q @ [0]))"
    by (simp add: nth_append list_update_append)
  then show ?thesis by (cases "q = []") (simp_all add: incr_loop_append)
qed

lemma decr_loop_snoc:
  "decr_loop (length (q @ [b])) (q @ [b]) =
     (if 0 < b then Some (q @ [b - 1]) else map_option (\<lambda>x. x @ [0xFF]) (decr_loop (length q) q))"
proof -
  have "decr_loop (Suc (length q)) (q @ [b]) =
      (if 0 < b then Some (q @ [b - 1]) else if length q = 0 then None else decr_loop (length q) (q @ [0xFF]))"
    by (simp add: nth_append list_update_append)
  then show ?thesis by (cases "q = []") (simp_all add: decr_loop_append)
qed

lemma byte_succ: "b < 0xFF \<Longrightarrow> b < b + 1" for b :: byte
  by (simp add: word_less_nat_alt unat_plus_if')

text \<open>A successful increment is above every key with the prefix and no shorter.\<close>

lemma incr_loop_above: "incr_loop (length p) p = Some e \<Longrightarrow> p @ x < e \<and> length e = length p"
proof (induction p arbitrary: e x rule: rev_induct)
  case (snoc b q)
  show ?case
  proof (cases "b < 0xFF")
    case True
    with snoc.prems have "e = q @ [b + 1]" by (simp only: incr_loop_snoc) simp
    with True byte_succ show ?thesis by simp
  next
    case False
    with snoc.prems obtain e' where "incr_loop (length q) q = Some e'" "e = e' @ [0]"
      by (auto simp only: incr_loop_snoc if_False map_option_eq_Some)
    moreover from snoc.IH [OF this(1), of "b # x"] have "q @ b # x < e'" "length e' = length q" by auto
    moreover have "e' \<le> e' @ [0]" by (rule prefix_le) simp
    ultimately show ?thesis by auto
  qed
qed simp

lemma less_append: "length a = length b \<Longrightarrow> a < b \<Longrightarrow> a @ x < b @ y" for a b x y :: bytes
  by (induction a b rule: list_induct2) auto

lemma decr_loop_below: "decr_loop (length p) p = Some e \<Longrightarrow> e < p \<and> length e = length p"
proof (induction p arbitrary: e rule: rev_induct)
  case (snoc b q)
  show ?case
  proof (cases "0 < b")
    case True
    then have "b - 1 < b" by (simp add: word_less_nat_alt unat_minus_one unat_gt_0)
    moreover from True snoc.prems have "e = q @ [b - 1]" by (simp only: decr_loop_snoc) simp
    ultimately show ?thesis by simp
  next
    case False
    with snoc.prems obtain e' where "decr_loop (length q) q = Some e'" "e = e' @ [0xFF]"
      by (auto simp only: decr_loop_snoc if_False map_option_eq_Some)
    moreover from snoc.IH [OF this(1)] have "e' < q" "length e' = length q" by auto
    ultimately show ?thesis by (auto intro: less_append)
  qed
qed simp

text \<open>Between a prefix whose last byte can be incremented and its increment lie only the keys with
  the prefix.\<close>

lemma below_incr:
  assumes "(b :: byte) < 0xFF" "k \<le> q @ [b + 1]" "k \<noteq> q @ [b + 1]" "\<not> prefix (q @ [b]) k"
  shows "k < q @ [b]"
  using assms(2-)
proof (induction q arbitrary: k)
  case Nil
  have "c \<le> b" if "c < b + 1" for c
    using that assms(1) by (simp add: word_less_nat_alt word_le_nat_alt unat_plus_if')
  with Nil show ?case by (cases k) (auto simp: prefix_Cons le_less)
next
  case (Cons a q)
  then show ?case by (cases k) (auto simp: prefix_Cons le_less)
qed

lemma cpIncr_last: "b < 0xFF \<Longrightarrow> cpIncr (q @ [b]) = Some (Some (q @ [b + 1]))"
  unfolding cpIncr_def cp_id by (simp only: incr_loop_snoc) simp

section \<open>Iterators\<close>

lemmas mem_itr_defs [simp] = mem_itr_Valid_def mem_itr_Next_def mem_itr_Key_def mem_itr_Value_def mem_itr_Close_def
  mem_Iterator_def mem_ReverseIterator_def

lemmas mem_batch_defs [simp] = NewMemBatch_def memBatch_Set_def memBatch_Delete_def memBatch_Write_def memBatch_WriteSync_def

primrec itr_left :: "Iterator \<Rightarrow> bytes list" where
  "itr_left (MemIter itr) = drop (itr_cur itr) (itr_keys itr)"
| "itr_left (PrefixIter pre start stop source valid) =
     (if valid then map (drop (length pre)) (takeWhile (prefix pre) (itr_left source)) else [])"

primrec itr_ok :: "Iterator \<Rightarrow> bool" where
  "itr_ok (MemIter itr) = True"
| "itr_ok (PrefixIter pre start stop source valid) =
     (itr_ok source \<and> (valid \<longrightarrow> itr_left source = [] \<or> prefix pre (hd (itr_left source))))"

lemma itr_Valid_iff: "itr_ok itr \<Longrightarrow> itr_Valid itr \<longleftrightarrow> itr_left itr \<noteq> []"
proof (induction itr)
  case (PrefixIter pre start stop source valid)
  then show ?case by (cases "itr_left source") auto
qed auto

lemma stripPrefix_prefix: "prefix p k \<Longrightarrow> stripPrefix k p = Some (drop (length p) k)"
  by (auto simp: stripPrefix_def prefix_def)

lemma itr_Key_left: "itr_ok itr \<Longrightarrow> itr_left itr = k # ks \<Longrightarrow> itr_Key itr = Some k"
proof (induction itr arbitrary: k ks)
  case (MemIter itr)
  then show ?case by simp (metis drop_eq_Nil linorder_not_le list.distinct(1) nth_via_drop)
next
  case (PrefixIter pre start stop source valid)
  then obtain k' ks' where "itr_left source = k' # ks'" "valid" by (cases "itr_left source") (auto split: if_splits)
  with PrefixIter show ?case by (auto simp: stripPrefix_prefix)
qed

lemma itr_Close_left [simp]: "itr_left (itr_Close itr) = []" "itr_ok itr \<Longrightarrow> itr_ok (itr_Close itr)"
  by (induction itr) auto

lemma itr_Next_left:
  "itr_ok itr \<Longrightarrow> itr_left itr = k # ks \<Longrightarrow> \<exists>itr'. itr_Next itr = Some itr' \<and> itr_ok itr' \<and> itr_left itr' = ks"
proof (induction itr arbitrary: k ks)
  case (MemIter itr)
  then have "itr_cur itr < length (itr_keys itr)" by (metis drop_eq_Nil itr_left.simps(1) linorder_not_le list.distinct(1))
  with MemIter show ?case by (simp add: drop_Suc) (metis drop_Suc list.sel(3) tl_drop)
next
  case (PrefixIter pre start stop source valid)
  then obtain k' ks' where l: "itr_left source = k' # ks'" and v: valid and ks: "prefix pre k'"
      "ks = map (drop (length pre)) (takeWhile (prefix pre) ks')"
    by (cases "itr_left source") (auto split: if_splits)
  obtain src where src: "itr_Next source = Some src" "itr_ok src" "itr_left src = ks'"
    using PrefixIter.IH [OF _ l] PrefixIter.prems by auto
  show ?case
  proof (cases ks')
    case Nil
    with src v ks show ?thesis by (auto simp: itr_Valid_iff)
  next
    case (Cons k2 ks2)
    with itr_Key_left [OF src(2)] src v ks show ?thesis by (auto simp: itr_Valid_iff)
  qed
qed

text \<open>The value at the head is that of the full key of the root.\<close>

primrec itr_path :: "Iterator \<Rightarrow> bytes" where
  "itr_path (MemIter itr) = []"
| "itr_path (PrefixIter pre start stop source valid) = itr_path source @ pre"

lemma itr_Value_left:
  "itr_ok itr \<Longrightarrow> itr_left itr = k # ks \<Longrightarrow> itr_Value itr s = Some (mem_Get (Some (itr_path itr @ k)) s)"
proof (induction itr arbitrary: k ks)
  case (MemIter itr)
  then have "itr_cur itr < length (itr_keys itr)" by (metis drop_eq_Nil itr_left.simps(1) linorder_not_le list.distinct(1))
  with MemIter show ?case by simp (metis nth_via_drop)
next
  case (PrefixIter pre start stop source valid)
  then obtain k' ks' where l: "itr_left source = k' # ks'" and v: valid and ks: "prefix pre k'" "k = drop (length pre) k'"
    by (cases "itr_left source") (auto split: if_splits)
  then have "k' = pre @ k" by (auto simp: prefix_def)
  with PrefixIter.IH [OF _ l] PrefixIter.prems v show ?case by simp
qed

lemma itr_Next_path: "itr_Next itr = Some itr' \<Longrightarrow> itr_path itr' = itr_path itr"
proof -
  have c: "itr_path (itr_Close i) = itr_path i" for i by (induction i) auto
  show "itr_Next itr = Some itr' \<Longrightarrow> itr_path itr' = itr_path itr"
    by (induction itr arbitrary: itr') (auto simp: c split: if_splits option.splits)
qed

text \<open>The loop over an iterator delivers what is left, in order, with the values of the state.\<close>

lemma iterate_left:
  "itr_ok itr \<Longrightarrow> length (itr_left itr) < n \<Longrightarrow>
     iterate n itr s = Some (map (\<lambda>k. (k, mem_Get (Some (itr_path itr @ k)) s)) (itr_left itr))"
proof (induction n arbitrary: itr)
  case (Suc n)
  show ?case
  proof (cases "itr_left itr")
    case Nil
    with Suc.prems show ?thesis by (simp add: itr_Valid_iff)
  next
    case (Cons k ks)
    with itr_Next_left [OF Suc.prems(1)] obtain itr' where
      n: "itr_Next itr = Some itr'" "itr_ok itr'" "itr_left itr' = ks" by blast
    with Cons Suc.prems Suc.IH [of itr'] show ?thesis
      by (simp add: itr_Valid_iff itr_Key_left itr_Value_left itr_Next_path [OF n(1)])
  qed
qed simp

section \<open>The contract of a store\<close>

definition in_dom :: "bytes option \<Rightarrow> bytes option \<Rightarrow> bytes \<Rightarrow> bool" where
  "in_dom start stop k \<longleftrightarrow> nonNilBytes start \<le> k \<and> (case stop of None \<Rightarrow> True | Some e \<Rightarrow> k < e)"

definition in_rdom :: "bytes option \<Rightarrow> bytes option \<Rightarrow> bytes \<Rightarrow> bool" where
  "in_rdom start stop k \<longleftrightarrow> (case start of None \<Rightarrow> True | Some b \<Rightarrow> k \<le> b) \<and> (case stop of None \<Rightarrow> True | Some e \<Rightarrow> e < k)"

definition delivers :: "Iterator option \<Rightarrow> bytes list \<Rightarrow> bool" where
  "delivers r ks \<longleftrightarrow> (\<exists>itr. r = Some itr \<and> itr_ok itr \<and> itr_left itr = ks)"

locale kv_store =
  fixes get :: "bytes option \<Rightarrow> 's \<Rightarrow> bytes option"
    and has :: "bytes option \<Rightarrow> 's \<Rightarrow> bool"
    and put :: "bytes option \<Rightarrow> bytes option \<Rightarrow> 's \<Rightarrow> 's"
    and del :: "bytes option \<Rightarrow> 's \<Rightarrow> 's"
    and iter :: "bytes option \<Rightarrow> bytes option \<Rightarrow> 's \<Rightarrow> Iterator option"
    and inv :: "'s \<Rightarrow> bool"
  assumes get_nil: "get k s = get (Some (nonNilBytes k)) s"
    and has_get: "has k s \<longleftrightarrow> get k s \<noteq> None"
    and get_put: "get k (put k' v s) = (if nonNilBytes k = nonNilBytes k' then Some (nonNilBytes v) else get k s)"
    and get_del: "get k (del k' s) = (if nonNilBytes k = nonNilBytes k' then None else get k s)"
    and put_inv: "inv s \<Longrightarrow> inv (put k v s)"
    and del_inv: "inv s \<Longrightarrow> inv (del k s)"
    and keys_finite: "finite {k. get (Some k) s \<noteq> None}"
    and iter_delivers: "inv s \<Longrightarrow>
      delivers (iter start stop s) (sorted_list_of_set {k. get (Some k) s \<noteq> None \<and> in_dom start stop k})"

text \<open>A store with iterators in descending order.\<close>

locale kv_store_rev = kv_store +
  fixes riter :: "bytes option \<Rightarrow> bytes option \<Rightarrow> 's \<Rightarrow> Iterator option"
    and rinv :: "'s \<Rightarrow> bool"
  assumes riter_delivers: "rinv s \<Longrightarrow>
      delivers (riter start stop s) (rev (sorted_list_of_set {k. get (Some k) s \<noteq> None \<and> in_rdom start stop k}))"

section \<open>A prefix on top of a store\<close>

lemma takeWhile_prefix_up:
  assumes "sorted (ks :: bytes list)" "\<forall>k \<in> set ks. p \<le> k"
  shows "takeWhile (prefix p) ks = filter (prefix p) ks"
  using assms
proof (induction ks)
  case (Cons k ks)
  then show ?case
    by (cases "prefix p k") (auto simp: not_prefix_above [of p k] intro!: filter_False [symmetric])
qed simp

lemma takeWhile_prefix_down:
  assumes "sorted (rev (ks :: bytes list))" "\<forall>k \<in> set ks. \<not> prefix p k \<longrightarrow> k < p"
  shows "takeWhile (prefix p) ks = filter (prefix p) ks"
  using assms
proof (induction ks)
  case (Cons k ks)
  have "\<not> prefix p y" if "\<not> prefix p k" "y \<in> set ks" for y
  proof
    assume "prefix p y"
    then have "p \<le> y" by (rule prefix_le)
    with Cons.prems that show False by (auto simp: sorted_append)
  qed
  with Cons show ?case
    by (cases "prefix p k") (auto simp: sorted_append intro!: filter_False [symmetric])
qed simp

lemma sorted_drop_prefix:
  "sorted (ks :: bytes list) \<Longrightarrow> \<forall>k \<in> set ks. prefix p k \<Longrightarrow> sorted (map (drop (length p)) ks)"
  by (induction ks) (fastforce simp: prefix_def)+

lemma distinct_drop_prefix:
  "distinct ks \<Longrightarrow> \<forall>k \<in> set ks. prefix p k \<Longrightarrow> distinct (map (drop (length p)) ks)"
  by (induction ks) (fastforce simp: prefix_def)+

text \<open>Stripping the prefix from the keys that have it gives the keys of the namespace.\<close>

lemma strip_sorted:
  assumes "finite A" "\<And>x :: bytes. p @ x \<in> A \<longleftrightarrow> x \<in> B"
  shows "map (drop (length p)) (filter (prefix p) (sorted_list_of_set A)) = sorted_list_of_set B"
proof -
  let ?l = "map (drop (length p)) (filter (prefix p) (sorted_list_of_set A))"
  have "set ?l = B" using assms by (force simp: prefix_def image_iff)
  moreover have "sorted ?l" by (rule sorted_drop_prefix) (auto intro: sorted_filter [where f = "\<lambda>x. x", simplified])
  moreover have "distinct ?l" by (rule distinct_drop_prefix) simp_all
  ultimately show ?thesis by (metis sorted_list_of_set.idem_if_sorted_distinct)
qed

lemma delivers_prefix:
  assumes "delivers r ks"
  shows "delivers (case r of None \<Rightarrow> None | Some source \<Rightarrow> newPrefixIterator p start stop source)
    (map (drop (length p)) (takeWhile (prefix p) ks))"
proof -
  obtain itr where i: "r = Some itr" "itr_ok itr" "itr_left itr = ks" using assms by (auto simp: delivers_def)
  show ?thesis
  proof (cases ks)
    case Nil
    with i show ?thesis by (auto simp: delivers_def newPrefixIterator_def itr_Valid_iff)
  next
    case (Cons k ks')
    with i itr_Key_left [of itr k ks'] show ?thesis by (auto simp: delivers_def newPrefixIterator_def itr_Valid_iff)
  qed
qed

lemma prefixed_eq [simp]: "prefixed p k = p @ nonNilBytes k"
  by (simp add: prefixed_def)

lemma cpIncr_end:
  assumes "p \<noteq> []"
  obtains pend where "(if stop = None then cpIncr p else Some (Some (cp p @ nonNilBytes stop))) = Some pend"
    "\<And>start x. in_dom (Some (p @ nonNilBytes start)) pend (p @ x) \<longleftrightarrow> in_dom start stop x"
proof (cases stop)
  case None
  then show ?thesis
    using that [of "incr_loop (length p) p"] assms incr_loop_above [of p]
    by (auto simp: cpIncr_def in_dom_def split: option.splits)
next
  case (Some e)
  then show ?thesis using that [of "Some (p @ e)"] by (simp add: in_dom_def)
qed

context kv_store
begin

lemma finite_dom: "finite {k. get (Some k) s \<noteq> None \<and> P k}"
  using keys_finite [of s] by (rule finite_subset [rotated]) auto

lemma prefixed_iter:
  assumes "inv s" "p \<noteq> []"
  shows "delivers
     (let pstart = cp p @ nonNilBytes start
      in case (if stop = None then cpIncr p else Some (Some (cp p @ nonNilBytes stop))) of
           None \<Rightarrow> None
         | Some pend \<Rightarrow>
             (case iter (Some pstart) pend s of
                None \<Rightarrow> None
              | Some source \<Rightarrow> newPrefixIterator p start stop source))
     (sorted_list_of_set {k. get (Some (p @ k)) s \<noteq> None \<and> in_dom start stop k})"
proof -
  obtain pend where pend: "(if stop = None then cpIncr p else Some (Some (cp p @ nonNilBytes stop))) = Some pend"
    "\<And>start x. in_dom (Some (p @ nonNilBytes start)) pend (p @ x) \<longleftrightarrow> in_dom start stop x"
    using cpIncr_end [OF assms(2)] by blast
  let ?A = "{k. get (Some k) s \<noteq> None \<and> in_dom (Some (p @ nonNilBytes start)) pend k}"
  have "p \<le> k" if "k \<in> ?A" for k
    using that prefix_le [of p "p @ nonNilBytes start"] by (auto simp: in_dom_def)
  then have "takeWhile (prefix p) (sorted_list_of_set ?A) = filter (prefix p) (sorted_list_of_set ?A)"
    using finite_dom by (intro takeWhile_prefix_up) auto
  moreover have "map (drop (length p)) (filter (prefix p) (sorted_list_of_set ?A)) =
      sorted_list_of_set {k. get (Some (p @ k)) s \<noteq> None \<and> in_dom start stop k}"
    by (rule strip_sorted [OF finite_dom]) (simp add: pend(2))
  ultimately show ?thesis
    using delivers_prefix [OF iter_delivers [OF assms(1)], of p start stop "Some (p @ nonNilBytes start)" pend]
    by (simp only: pend(1) [unfolded cp_id] option.case Let_def cp_id)
qed

lemma prefixed_store:
  "kv_store (\<lambda>k. get (Some (prefixed p k))) (\<lambda>k. has (Some (prefixed p k)))
     (\<lambda>k. put (Some (prefixed p k))) (\<lambda>k. del (Some (prefixed p k)))
     (\<lambda>start stop s. let pstart = cp p @ nonNilBytes start
      in case (if stop = None then cpIncr p else Some (Some (cp p @ nonNilBytes stop))) of
           None \<Rightarrow> None
         | Some pend \<Rightarrow>
             (case iter (Some pstart) pend s of
                None \<Rightarrow> None
              | Some source \<Rightarrow> newPrefixIterator p start stop source))
     (\<lambda>s. inv s \<and> p \<noteq> [])"
proof unfold_locales
  fix s
  have "finite ((\<lambda>k. p @ k) -` {k. get (Some k) s \<noteq> None})"
    by (rule finite_vimageI [OF keys_finite]) (simp add: inj_def)
  then show "finite {k. get (Some (prefixed p (Some k))) s \<noteq> None}" by (simp add: vimage_def)
  show "inv s \<and> p \<noteq> [] \<Longrightarrow> delivers
     (let pstart = cp p @ nonNilBytes start
      in case (if stop = None then cpIncr p else Some (Some (cp p @ nonNilBytes stop))) of
           None \<Rightarrow> None
         | Some pend \<Rightarrow>
             (case iter (Some pstart) pend s of
                None \<Rightarrow> None
              | Some source \<Rightarrow> newPrefixIterator p start stop source))
     (sorted_list_of_set {k. get (Some (prefixed p (Some k))) s \<noteq> None \<and> in_dom start stop k})" for start stop
    using prefixed_iter by simp
qed (simp_all add: has_get get_put get_del put_inv del_inv)

text \<open>A client that applies a list of writes: the last write to a key decides.\<close>

lemma get_writes:
  "get k (fold (\<lambda>(k, v). case v of Some w \<Rightarrow> put k w | None \<Rightarrow> del k) ws s) =
     (case find (\<lambda>(k', v). nonNilBytes k' = nonNilBytes k) (rev ws) of
        Some (k', v) \<Rightarrow> map_option nonNilBytes v
      | None \<Rightarrow> get k s)"
proof (induction ws arbitrary: s rule: rev_induct)
  case (snoc w ws)
  then show ?case by (cases w) (auto simp: get_put get_del split: option.splits)
qed simp

end

section \<open>Descending order\<close>

lemma delivers_skipOne:
  assumes "delivers r ks"
  shows "delivers (case r of None \<Rightarrow> None | Some itr \<Rightarrow> skipOne itr sk)
    (if ks \<noteq> [] \<and> hd ks = nonNilBytes sk then tl ks else ks)"
proof -
  obtain itr where i: "r = Some itr" "itr_ok itr" "itr_left itr = ks" using assms by (auto simp: delivers_def)
  show ?thesis
  proof (cases ks)
    case Nil
    with i show ?thesis by (auto simp: delivers_def skipOne_def itr_Valid_iff)
  next
    case (Cons k ks')
    with i itr_Key_left [of itr k ks'] itr_Next_left [of itr k ks'] show ?thesis
      by (auto simp: delivers_def skipOne_def itr_Valid_iff)
  qed
qed

text \<open>The first key at the increment of the prefix is skipped; then come the keys with the prefix.\<close>

lemma takeWhile_skip:
  assumes "sorted (rev ks)" "distinct ks" "\<forall>k \<in> set ks. k \<le> q @ [b + 1]" "(b :: byte) < 0xFF"
  shows "takeWhile (prefix (q @ [b])) (if ks \<noteq> [] \<and> hd ks = q @ [b + 1] then tl ks else ks) =
    filter (prefix (q @ [b])) ks"
proof -
  let ?ks = "if ks \<noteq> [] \<and> hd ks = q @ [b + 1] then tl ks else ks"
  have e: "\<not> prefix (q @ [b]) (q @ [b + 1])" by simp
  have s: "sorted (rev ?ks)" using assms(1) by (cases ks) (auto simp: sorted_append)
  have "k \<noteq> q @ [b + 1] \<and> k \<le> q @ [b + 1]" if "k \<in> set ?ks" for k
  proof (cases ks)
    case (Cons x xs)
    with assms(1-3) that show ?thesis by (auto simp: sorted_append split: if_splits dest: antisym)
  qed (use that in simp)
  then have "takeWhile (prefix (q @ [b])) ?ks = filter (prefix (q @ [b])) ?ks"
    using below_incr [OF assms(4)] by (intro takeWhile_prefix_down [OF s]) blast
  also have "\<dots> = filter (prefix (q @ [b])) ks"
    using e by (cases ks) auto
  finally show ?thesis .
qed

lemma cpDecr_end:
  assumes "p \<noteq> []"
  obtains pend where "(if stop = None then cpDecr p else Some (Some (cp p @ nonNilBytes stop))) = Some pend"
    "\<And>x. (case pend of None \<Rightarrow> True | Some e \<Rightarrow> e < p @ x) \<longleftrightarrow> (case stop of None \<Rightarrow> True | Some e \<Rightarrow> e < x)"
proof (cases stop)
  case None
  have "d < p @ x" if "decr_loop (length p) p = Some d" for d x
    using decr_loop_below [OF that] prefix_le [of p "p @ x"] by (auto intro: less_le_trans)
  with None that [of "decr_loop (length p) p"] assms show ?thesis
    by (auto simp: cpDecr_def split: option.splits)
next
  case (Some e)
  then show ?thesis using that [of "Some (p @ e)"] by simp
qed

lemma strip_sorted_rev:
  assumes "finite A" "\<And>x :: bytes. p @ x \<in> A \<longleftrightarrow> x \<in> B"
  shows "map (drop (length p)) (filter (prefix p) (rev (sorted_list_of_set A))) = rev (sorted_list_of_set B)"
  using strip_sorted [OF assms] by (simp add: rev_filter [symmetric] rev_map [symmetric])

context kv_store_rev
begin

lemma prefixed_riter:
  assumes "rinv s" "p = q @ [b]" "b < 0xFF"
  shows "delivers
     (case (if start = None then cpIncr p else Some (Some (cp p @ nonNilBytes start))) of
        None \<Rightarrow> None
      | Some pstart \<Rightarrow>
          (case (if stop = None then cpDecr p else Some (Some (cp p @ nonNilBytes stop))) of
             None \<Rightarrow> None
           | Some pend \<Rightarrow>
               (case riter pstart pend s of
                  None \<Rightarrow> None
                | Some ritr \<Rightarrow>
                    (case (if start = None then
                             (case cpIncr p of None \<Rightarrow> None | Some skipKey \<Rightarrow> skipOne ritr skipKey)
                           else Some ritr) of
                       None \<Rightarrow> None
                     | Some ritr \<Rightarrow> newPrefixIterator p start stop ritr))))
     (rev (sorted_list_of_set {k. get (Some (p @ k)) s \<noteq> None \<and> in_rdom start stop k}))"
proof -
  have pne: "p \<noteq> []" using assms(2) by simp
  obtain pend where pend: "(if stop = None then cpDecr p else Some (Some (cp p @ nonNilBytes stop))) = Some pend"
    "\<And>x. (case pend of None \<Rightarrow> True | Some e \<Rightarrow> e < p @ x) \<longleftrightarrow> (case stop of None \<Rightarrow> True | Some e \<Rightarrow> e < x)"
    using cpDecr_end [OF pne] by blast
  have incr: "cpIncr p = Some (Some (q @ [b + 1]))" using cpIncr_last [OF assms(3)] assms(2) by simp
  have above: "p @ x < q @ [b + 1]" for x
    using incr_loop_above [of p "q @ [b + 1]" x] incr pne by (simp add: cpIncr_def)
  define pstart where "pstart = (case start of None \<Rightarrow> q @ [b + 1] | Some st \<Rightarrow> p @ st)"
  let ?A = "{k. get (Some k) s \<noteq> None \<and> in_rdom (Some pstart) pend k}"
  let ?ks = "rev (sorted_list_of_set ?A)"
  have ks: "sorted (rev ?ks)" "distinct ?ks" "\<forall>k \<in> set ?ks. k \<le> pstart" using finite_dom by (auto simp: in_rdom_def)
  have d: "delivers (riter (Some pstart) pend s) ?ks" by (rule riter_delivers [OF assms(1)])
  then obtain ritr where ritr: "riter (Some pstart) pend s = Some ritr" by (auto simp: delivers_def)
  have dom: "in_rdom (Some pstart) pend (p @ x) \<longleftrightarrow> in_rdom start stop x" for x
    using above [of x] pend(2) [of x] by (cases start) (auto simp: in_rdom_def pstart_def)
  have strip: "map (drop (length p)) (filter (prefix p) ?ks) =
      rev (sorted_list_of_set {k. get (Some (p @ k)) s \<noteq> None \<and> in_rdom start stop k})"
    by (rule strip_sorted_rev [OF finite_dom]) (simp add: dom)
  show ?thesis
  proof (cases start)
    case None
    then have ps: "pstart = q @ [b + 1]" by (simp add: pstart_def)
    then have "takeWhile (prefix p) (if ?ks \<noteq> [] \<and> hd ?ks = q @ [b + 1] then tl ?ks else ?ks) = filter (prefix p) ?ks"
      unfolding assms(2) using ks by (intro takeWhile_skip [OF _ _ _ assms(3)]) simp_all
    then have r: "delivers (case (case Some ritr of None \<Rightarrow> None | Some itr \<Rightarrow> skipOne itr (Some (q @ [b + 1]))) of
          None \<Rightarrow> None | Some ritr \<Rightarrow> newPrefixIterator p start stop ritr)
        (rev (sorted_list_of_set {k. get (Some (p @ k)) s \<noteq> None \<and> in_rdom start stop k}))"
      using delivers_prefix [OF delivers_skipOne [OF d [unfolded ritr], of "Some (q @ [b + 1])"], of p start stop] strip
      by (simp only: nonNilBytes_simps)
    show ?thesis
      using r ritr by (simp only: None pend(1) incr ps option.case if_True simp_thms)
  next
    case (Some st)
    then have ps: "pstart = p @ st" by (simp add: pstart_def)
    have "takeWhile (prefix p) ?ks = filter (prefix p) ?ks"
    proof (rule takeWhile_prefix_down [OF ks(1)], intro ballI impI)
      fix k assume k: "k \<in> set ?ks" "\<not> prefix p k"
      show "k < p"
      proof (rule ccontr)
        assume "\<not> k < p"
        then have "p \<le> k" by (simp add: not_less)
        moreover have "k \<le> p @ st" using k(1) ks(3) unfolding ps by blast
        ultimately have "\<not> prefix p (p @ st)" by (rule not_prefix_above [OF _ k(2)])
        then show False by simp
      qed
    qed
    then show ?thesis
      using delivers_prefix [OF d [unfolded ritr], of p start stop] strip ritr
      by (simp only: Some pend(1) [unfolded cp_id] ps option.case option.distinct if_False cp_id nonNilBytes_simps)
  qed
qed

end

section \<open>The in-memory database\<close>

definition mem_inv :: "MemDB \<Rightarrow> bool" where
  "mem_inv s \<longleftrightarrow> distinct (map fst (mdb s))"

lemma length_swap_loop [simp]: "length (swap_loop i m ks) = length ks"
  by (induction m arbitrary: i ks) (simp_all add: Let_def)

lemma swap_loop_nth:
  assumes "2 * (i + m) \<le> length ks" "j < length ks"
  shows "swap_loop i m ks ! j =
    (if i \<le> j \<and> j < i + m \<or> i \<le> length ks - 1 - j \<and> length ks - 1 - j < i + m
     then ks ! (length ks - 1 - j) else ks ! j)"
  using assms
proof (induction m arbitrary: i ks)
  case (Suc m)
  let ?ks = "ks[i := ks ! (length ks - i - 1), length ks - i - 1 := ks ! i]"
  have "swap_loop (i + 1) m ?ks ! j =
    (if i + 1 \<le> j \<and> j < i + 1 + m \<or> i + 1 \<le> length ?ks - 1 - j \<and> length ?ks - 1 - j < i + 1 + m
     then ?ks ! (length ?ks - 1 - j) else ?ks ! j)"
    by (rule Suc.IH) (use Suc.prems in simp_all)
  moreover have "swap_loop i (Suc m) ks = swap_loop (i + 1) m ?ks" by (simp add: Let_def)
  ultimately show ?case using Suc.prems by (auto simp: nth_list_update)
qed auto

lemma swap_loop_rev: "swap_loop 0 (length ks div 2) ks = rev ks"
proof (rule nth_equalityI)
  fix j assume "j < length (swap_loop 0 (length ks div 2) ks)"
  then have j: "j < length ks" by simp
  show "swap_loop 0 (length ks div 2) ks ! j = rev ks ! j"
  proof (cases "j < length ks div 2 \<or> length ks - 1 - j < length ks div 2")
    case True
    with j show ?thesis by (subst swap_loop_nth) (auto simp: rev_nth)
  next
    case False
    with j have "length ks - 1 - j = j" by linarith
    with j show ?thesis by (subst swap_loop_nth) (auto simp: rev_nth)
  qed
qed simp

lemma IsKeyInDomain_iff [simp]:
  "IsKeyInDomain k start stop False \<longleftrightarrow> in_dom start stop k"
  "IsKeyInDomain k start stop True \<longleftrightarrow> in_rdom start stop k"
  by (auto simp: IsKeyInDomain_def in_dom_def in_rdom_def not_less not_le split: option.splits)

lemma sort_keys:
  assumes "mem_inv s"
  shows "sort (filter P (map fst (mdb s))) = sorted_list_of_set {k. mem_Get (Some k) s \<noteq> None \<and> P k}"
proof -
  have "{k. mem_Get (Some k) s \<noteq> None \<and> P k} = set (filter P (map fst (mdb s)))"
    by (auto simp: mem_Get_def map_of_eq_None_iff dom_map_of_conv_image_fst)
  moreover have "distinct (filter P (map fst (mdb s)))" using assms by (simp add: mem_inv_def)
  ultimately show ?thesis by (simp only: sorted_list_of_set_sort_remdups distinct_remdups_id)
qed

lemmas mem_ops = mem_Get_def mem_Has_def mem_Set_def mem_SetSync_def SetNoLock_def SetNoLockSync_def
  mem_Delete_def mem_DeleteSync_def DeleteNoLock_def DeleteNoLockSync_def

interpretation mem: kv_store_rev mem_Get mem_Has mem_Set mem_Delete "db_Iterator Mem" mem_inv "db_ReverseIterator Mem" mem_inv
proof unfold_locales
  fix s
  have "{k. mem_Get (Some k) s \<noteq> None} = fst ` set (mdb s)"
    by (auto simp: mem_Get_def dom_map_of_conv_image_fst map_of_eq_None_iff)
  then show "finite {k. mem_Get (Some k) s \<noteq> None}" by simp
  fix start stop
  assume i: "mem_inv s"
  show "delivers (db_Iterator Mem start stop s) (sorted_list_of_set {k. mem_Get (Some k) s \<noteq> None \<and> in_dom start stop k})"
    using sort_keys [OF i, of "in_dom start stop"]
    by (simp add: delivers_def newMemDBIterator_def getSortedKeys_def)
  show "delivers (db_ReverseIterator Mem start stop s) (rev (sorted_list_of_set {k. mem_Get (Some k) s \<noteq> None \<and> in_rdom start stop k}))"
    using sort_keys [OF i, of "in_rdom start stop"]
    by (simp add: delivers_def newMemDBIterator_def getSortedKeys_def swap_loop_rev)
qed (auto simp: mem_ops mem_inv_def update_conv' delete_conv' distinct_update distinct_delete)

section \<open>Handles\<close>

text \<open>Prefixes that iterate: not empty, and for descending iterators not ending in \<open>0xFF\<close>.\<close>

primrec handle_ok :: "DB \<Rightarrow> bool" where
  "handle_ok Mem = True"
| "handle_ok (PrefixDB p db) = (handle_ok db \<and> p \<noteq> [])"

primrec handle_rev_ok :: "DB \<Rightarrow> bool" where
  "handle_rev_ok Mem = True"
| "handle_rev_ok (PrefixDB p db) = (handle_rev_ok db \<and> p \<noteq> [] \<and> last p < 0xFF)"

primrec handle_path :: "DB \<Rightarrow> bytes" where
  "handle_path Mem = []"
| "handle_path (PrefixDB p db) = handle_path db @ p"

lemma handle_store: "kv_store (db_Get h) (db_Has h) (db_Set h) (db_Delete h) (db_Iterator h) (\<lambda>s. mem_inv s \<and> handle_ok h)"
proof (induction h)
  case Mem
  have "db_Get Mem = mem_Get" "db_Has Mem = mem_Has" "db_Set Mem = mem_Set" "db_Delete Mem = mem_Delete" by (auto simp: fun_eq_iff)
  then show ?case using mem.kv_store_axioms by (simp only: handle_ok.simps simp_thms)
next
  case (PrefixDB p db)
  have "kv_store (\<lambda>k. db_Get db (Some (prefixed p k))) (\<lambda>k. db_Has db (Some (prefixed p k)))
      (\<lambda>k. db_Set db (Some (prefixed p k))) (\<lambda>k. db_Delete db (Some (prefixed p k)))
      (\<lambda>start stop s. db_Iterator (PrefixDB p db) start stop s)
      (\<lambda>s. (mem_inv s \<and> handle_ok db) \<and> p \<noteq> [])"
    using kv_store.prefixed_store [OF PrefixDB, of p] by (simp only: db_Iterator.simps)
  moreover have "db_Get (PrefixDB p db) = (\<lambda>k. db_Get db (Some (prefixed p k)))" "db_Has (PrefixDB p db) = (\<lambda>k. db_Has db (Some (prefixed p k)))"
    "db_Set (PrefixDB p db) = (\<lambda>k. db_Set db (Some (prefixed p k)))" "db_Delete (PrefixDB p db) = (\<lambda>k. db_Delete db (Some (prefixed p k)))"
    by (auto simp: fun_eq_iff)
  ultimately show ?case by (simp only: handle_ok.simps conj_assoc)
qed

interpretation handle: kv_store "db_Get h" "db_Has h" "db_Set h" "db_Delete h" "db_Iterator h" "\<lambda>s. mem_inv s \<and> handle_ok h"
  for h
  by (rule handle_store)

lemma handle_store_rev:
  "kv_store_rev (db_Get h) (db_Has h) (db_Set h) (db_Delete h) (db_Iterator h) (\<lambda>s. mem_inv s \<and> handle_ok h)
     (db_ReverseIterator h) (\<lambda>s. mem_inv s \<and> handle_rev_ok h)"
proof (induction h)
  case Mem
  have "db_Get Mem = mem_Get" "db_Has Mem = mem_Has" "db_Set Mem = mem_Set" "db_Delete Mem = mem_Delete" by (auto simp: fun_eq_iff)
  then show ?case using mem.kv_store_rev_axioms by (simp only: handle_ok.simps handle_rev_ok.simps simp_thms)
next
  case (PrefixDB p db)
  show ?case
  proof (rule kv_store_rev.intro [OF handle_store], unfold_locales)
    fix s start stop
    assume i: "mem_inv s \<and> handle_rev_ok (PrefixDB p db)"
    then have p: "p = butlast p @ [last p]" "last p < 0xFF" "mem_inv s \<and> handle_rev_ok db" by simp_all
    show "delivers (db_ReverseIterator (PrefixDB p db) start stop s)
        (rev (sorted_list_of_set {k. db_Get (PrefixDB p db) (Some k) s \<noteq> None \<and> in_rdom start stop k}))"
      using kv_store_rev.prefixed_riter [OF PrefixDB p(3,1,2), of start stop]
      by (simp only: db_ReverseIterator.simps db_Get.simps prefixed_eq nonNilBytes_simps)
  qed
qed

interpretation handle_rev: kv_store_rev "db_Get h" "db_Has h" "db_Set h" "db_Delete h" "db_Iterator h" "\<lambda>s. mem_inv s \<and> handle_ok h"
  "db_ReverseIterator h" "\<lambda>s. mem_inv s \<and> handle_rev_ok h"
  for h
  by (rule handle_store_rev)

text \<open>Every operation of a handle is the operation of the root on the full key.\<close>

lemma handle_root:
  "db_Get h k s = mem_Get (Some (handle_path h @ nonNilBytes k)) s"
  "db_Has h k s = mem_Has (Some (handle_path h @ nonNilBytes k)) s"
  "db_Set h k v s = mem_Set (Some (handle_path h @ nonNilBytes k)) v s"
  "db_SetSync h k v s = mem_Set (Some (handle_path h @ nonNilBytes k)) v s"
  "db_Delete h k s = mem_Delete (Some (handle_path h @ nonNilBytes k)) s"
  "db_DeleteSync h k s = mem_Delete (Some (handle_path h @ nonNilBytes k)) s"
  by (induction h arbitrary: k) (simp_all add: mem_ops)

lemma itr_path_new:
  "newPrefixIterator p start stop src = Some itr \<Longrightarrow> itr_path itr = itr_path src @ p"
  by (auto simp: newPrefixIterator_def split: if_splits option.splits)

lemma itr_path_Iterator: "db_Iterator h start stop s = Some itr \<Longrightarrow> itr_path itr = handle_path h"
  by (induction h arbitrary: start stop itr)
    (auto simp: newMemDBIterator_def Let_def itr_path_new split: option.splits if_splits)

lemma itr_path_skipOne: "skipOne i k = Some i' \<Longrightarrow> itr_path i' = itr_path i"
  by (auto simp: skipOne_def itr_Next_path split: if_splits option.splits)

lemma itr_path_ReverseIterator: "db_ReverseIterator h start stop s = Some itr \<Longrightarrow> itr_path itr = handle_path h"
proof (induction h arbitrary: start stop itr)
  case (PrefixDB p db)
  then show ?case
    by (auto simp: itr_path_new split: option.splits if_splits dest!: itr_path_skipOne)
qed (simp add: newMemDBIterator_def)

section \<open>Batches\<close>

primrec batch_ops :: "Batch \<Rightarrow> operation list" where
  "batch_ops (memBatch ops) = ops"
| "batch_ops (prefixBatch p b) = batch_ops b"

primrec batch_path :: "Batch \<Rightarrow> bytes" where
  "batch_path (memBatch ops) = []"
| "batch_path (prefixBatch p b) = batch_path b @ p"

definition apply_op :: "operation \<Rightarrow> MemDB \<Rightarrow> MemDB" where
  "apply_op op s = (case op_type op of opTypeSet \<Rightarrow> mem_Set (op_key op) (op_value op) s
     | opTypeDelete \<Rightarrow> mem_Delete (op_key op) s)"

lemma write_loop_fold: "i + length ops = n \<Longrightarrow> write_loop sync n i ops s = fold apply_op ops s"
proof (induction ops arbitrary: i s)
  case (Cons op ops)
  then have "i = n - 1 \<longleftrightarrow> ops = []" by auto
  with Cons show ?case by (auto simp: apply_op_def mem_ops split: opType.splits)
qed simp

lemma batch_Write_fold: "batch_Write b s = fold apply_op (batch_ops b) s" "batch_WriteSync b s = fold apply_op (batch_ops b) s"
  by (induction b) (simp_all add: write_ops_def write_loop_fold)

lemma NewBatch_ops [simp]: "batch_ops (NewBatch h) = []" "batch_path (NewBatch h) = handle_path h"
  by (induction h) simp_all

lemma mem_Set_nil: "mem_Set (Some (nonNilBytes k)) v s = mem_Set k v s" "mem_Delete (Some (nonNilBytes k)) s = mem_Delete k s"
  by (simp_all add: mem_ops)

lemma batch_Set_ops [simp]:
  "batch_path (batch_Set b k v) = batch_path b"
  "fold apply_op (batch_ops (batch_Set b k v)) s = mem_Set (Some (batch_path b @ nonNilBytes k)) v (fold apply_op (batch_ops b) s)"
  by (induction b arbitrary: k) (simp_all add: apply_op_def mem_Set_nil)

lemma batch_Delete_ops [simp]:
  "batch_path (batch_Delete b k) = batch_path b"
  "fold apply_op (batch_ops (batch_Delete b k)) s = mem_Delete (Some (batch_path b @ nonNilBytes k)) (fold apply_op (batch_ops b) s)"
  by (induction b arbitrary: k) (simp_all add: apply_op_def mem_Set_nil)

text \<open>A list of writes: \<open>Some\<close> value to set, \<open>None\<close> to delete.\<close>

definition add_write :: "bytes option \<times> bytes option option \<Rightarrow> Batch \<Rightarrow> Batch" where
  "add_write w b = (case w of (k, Some v) \<Rightarrow> batch_Set b k v | (k, None) \<Rightarrow> batch_Delete b k)"

lemma batch_writes:
  "batch_path b = handle_path h \<Longrightarrow>
   fold apply_op (batch_ops (fold add_write ws b)) s =
     fold (\<lambda>(k, v). case v of Some w \<Rightarrow> db_Set h k w | None \<Rightarrow> db_Delete h k) ws (fold apply_op (batch_ops b) s)"
proof (induction ws arbitrary: b)
  case (Cons w ws)
  obtain k v where w: "w = (k, v)" by (cases w)
  show ?case
    using Cons by (cases v) (simp_all add: w add_write_def handle_root)
qed simp

section \<open>Reachable states\<close>

inductive mem_reach :: "MemDB \<Rightarrow> bool" where
  init: "mem_reach NewMemDB"
| Set: "mem_reach s \<Longrightarrow> mem_reach (db_Set h k v s)"
| SetSync: "mem_reach s \<Longrightarrow> mem_reach (db_SetSync h k v s)"
| Delete: "mem_reach s \<Longrightarrow> mem_reach (db_Delete h k s)"
| DeleteSync: "mem_reach s \<Longrightarrow> mem_reach (db_DeleteSync h k s)"
| Write: "mem_reach s \<Longrightarrow> mem_reach (batch_Write b s)"
| WriteSync: "mem_reach s \<Longrightarrow> mem_reach (batch_WriteSync b s)"

lemma apply_op_inv: "mem_inv s \<Longrightarrow> mem_inv (fold apply_op ops s)"
  by (induction ops arbitrary: s) (auto simp: apply_op_def mem.put_inv mem.del_inv split: opType.splits)

lemma mem_reach_inv: "mem_reach s \<Longrightarrow> mem_inv s"
  by (induction rule: mem_reach.induct)
    (simp_all add: handle_root mem.put_inv mem.del_inv batch_Write_fold apply_op_inv, simp add: mem_inv_def NewMemDB_def)

section \<open>Properties\<close>

text \<open>C32. A prefix database behaves as the root database on the full keys: a value set or deleted
  through one handle is seen through another exactly when prefix and key together are the same,
  so databases with different prefixes of the same length do not interfere.\<close>

theorem db_shared_state:
  "db_Get h k (db_Set h' k' v s) =
     (if handle_path h @ nonNilBytes k = handle_path h' @ nonNilBytes k' then Some (nonNilBytes v) else db_Get h k s) \<and>
   db_Get h k (db_Delete h' k' s) =
     (if handle_path h @ nonNilBytes k = handle_path h' @ nonNilBytes k' then None else db_Get h k s) \<and>
   (db_Has h k s \<longleftrightarrow> db_Get h k s \<noteq> None)"
  by (simp add: handle_root mem.get_put mem.get_del mem.has_get)

lemma sorted_card: "finite A \<Longrightarrow> length (sorted_list_of_set A) = card A"
  by simp

lemma iterate_delivers:
  assumes "delivers r ks" "\<And>itr. r = Some itr \<Longrightarrow> itr_path itr = handle_path h" "length ks < n"
  shows "\<exists>itr. r = Some itr \<and> iterate n itr s = Some (map (\<lambda>k. (k, db_Get h (Some k) s)) ks)"
proof -
  obtain itr where i: "r = Some itr" "itr_ok itr" "itr_left itr = ks" using assms(1) by (auto simp: delivers_def)
  with iterate_left [OF i(2), of n s] assms(2,3) show ?thesis by (simp add: handle_root)
qed

text \<open>C8. Ascending iteration: in every reachable state, the loop over \<open>Iterator(start, end)\<close> of a
  handle with non-empty prefixes ends, without a panic, and delivers exactly the keys of the handle
  from \<open>start\<close> up to but not including \<open>end\<close>, in ascending order, each with its value.\<close>

theorem Iterator_correct:
  assumes "mem_reach s" and "handle_ok h"
    and "card {k. db_Has h (Some k) s \<and> in_dom start stop k} < n"
  shows "\<exists>itr. db_Iterator h start stop s = Some itr \<and>
    iterate n itr s = Some (map (\<lambda>k. (k, db_Get h (Some k) s))
      (sorted_list_of_set {k. db_Has h (Some k) s \<and> in_dom start stop k}))"
proof (rule iterate_delivers)
  show "delivers (db_Iterator h start stop s) (sorted_list_of_set {k. db_Has h (Some k) s \<and> in_dom start stop k})"
    using handle.iter_delivers [of s h start stop] mem_reach_inv [OF assms(1)] assms(2) by (simp add: handle.has_get)
  show "length (sorted_list_of_set {k. db_Has h (Some k) s \<and> in_dom start stop k}) < n" using assms(3) by simp
qed (rule itr_path_Iterator)

text \<open>Two databases in one: \<open>a\<close> and \<open>b\<close>, keys 1 and 2 in the first.\<close>

definition sample_db :: MemDB where
  "sample_db = db_Set (PrefixDB [98] Mem) (Some [1]) (Some [7])
     (db_Set (PrefixDB [97] Mem) (Some [2]) (Some [6]) (db_Set (PrefixDB [97] Mem) (Some [1]) (Some [5]) NewMemDB))"

lemma sample_db_reach: "mem_reach sample_db"
  unfolding sample_db_def by (intro mem_reach.intros)

lemma sample_db_keys: "db_Has (PrefixDB [97] Mem) (Some k) sample_db \<longleftrightarrow> k \<in> {[1], [2]}"
  by (auto simp: sample_db_def handle_root mem_ops NewMemDB_def)

lemma sample_db_dom:
  "{k. db_Has (PrefixDB [97] Mem) (Some k) sample_db \<and> in_dom None None k} = {[1], [2]}"
  "{k. db_Has (PrefixDB [97] Mem) (Some k) sample_db \<and> in_rdom None None k} = {[1], [2]}"
  unfolding sample_db_keys by (auto simp: in_dom_def in_rdom_def)

lemma sample_sorted: "sorted_list_of_set {[1], [2] :: bytes} = [[1], [2]]"
  using sorted_list_of_set_sort_remdups [of "[[1], [2] :: bytes]"] by simp

theorem Iterator_correct_witness:
  "\<exists>itr. db_Iterator (PrefixDB [97] Mem) None None sample_db = Some itr \<and>
    iterate 3 itr sample_db = Some [([1], Some [5]), ([2], Some [6])]"
proof -
  have c: "card {[1], [2] :: bytes} = 2" by simp
  have g: "db_Get (PrefixDB [97] Mem) (Some [1]) sample_db = Some [5]" "db_Get (PrefixDB [97] Mem) (Some [2]) sample_db = Some [6]"
    by code_simp+
  show ?thesis
    using Iterator_correct [OF sample_db_reach, of "PrefixDB [97] Mem" None None 3]
    unfolding sample_db_dom c sample_sorted by (simp only: list.map g handle_ok.simps) simp
qed

text \<open>C20. Descending iteration, for handles whose prefixes are not empty and do not end in \<open>0xFF\<close>: the loop over
  \<open>ReverseIterator(start, end)\<close> delivers exactly the keys from \<open>start\<close> (included) down to
  but not including \<open>end\<close>, in descending order, each with its value.\<close>

theorem ReverseIterator_correct:
  assumes "mem_reach s" and "handle_rev_ok h"
    and "card {k. db_Has h (Some k) s \<and> in_rdom start stop k} < n"
  shows "\<exists>itr. db_ReverseIterator h start stop s = Some itr \<and>
    iterate n itr s = Some (map (\<lambda>k. (k, db_Get h (Some k) s))
      (rev (sorted_list_of_set {k. db_Has h (Some k) s \<and> in_rdom start stop k})))"
proof (rule iterate_delivers)
  show "delivers (db_ReverseIterator h start stop s) (rev (sorted_list_of_set {k. db_Has h (Some k) s \<and> in_rdom start stop k}))"
    using handle_rev.riter_delivers [of s h start stop] mem_reach_inv [OF assms(1)] assms(2) by (simp add: handle.has_get)
  show "length (rev (sorted_list_of_set {k. db_Has h (Some k) s \<and> in_rdom start stop k})) < n" using assms(3) by simp
qed (rule itr_path_ReverseIterator)

theorem ReverseIterator_correct_witness:
  "\<exists>itr. db_ReverseIterator (PrefixDB [97] Mem) None None sample_db = Some itr \<and>
    iterate 3 itr sample_db = Some [([2], Some [6]), ([1], Some [5])]"
proof -
  have c: "card {[1], [2] :: bytes} = 2" by simp
  have g: "db_Get (PrefixDB [97] Mem) (Some [1]) sample_db = Some [5]" "db_Get (PrefixDB [97] Mem) (Some [2]) sample_db = Some [6]"
    by code_simp+
  have "handle_rev_ok (PrefixDB [97] Mem)" by simp
  with ReverseIterator_correct [OF sample_db_reach, of "PrefixDB [97] Mem" None None 3]
  show ?thesis
    unfolding sample_db_dom c sample_sorted by (simp add: g del: db_Get.simps)
qed

text \<open>C21. Batches: writing a batch, synchronously or not, has the effect of its sets and deletes
  through the handle one after the other; of several writes to a key the last one counts.\<close>

theorem batch_last_write:
  "db_Get h k (batch_Write (fold add_write ws (NewBatch h)) s) =
     (case find (\<lambda>(k', v). nonNilBytes k' = nonNilBytes k) (rev ws) of
        Some (k', v) \<Rightarrow> map_option nonNilBytes v
      | None \<Rightarrow> db_Get h k s) \<and>
   batch_WriteSync (fold add_write ws (NewBatch h)) s = batch_Write (fold add_write ws (NewBatch h)) s"
proof -
  have "batch_Write (fold add_write ws (NewBatch h)) s =
      fold (\<lambda>(k, v). case v of Some w \<Rightarrow> db_Set h k w | None \<Rightarrow> db_Delete h k) ws s"
    using batch_writes [of "NewBatch h" h ws s] by (simp add: batch_Write_fold)
  then show ?thesis by (simp add: handle.get_writes) (simp add: batch_Write_fold)
qed

section \<open>Iteration over a prefix\<close>

text \<open>The number of bytes \<open>0xFF\<close> at the end of a prefix, and the keys without the prefix that lie
  below its increment: the increment with some of the zeros that the carry left behind cut off.\<close>

definition carry :: "bytes \<Rightarrow> nat" where
  "carry p = length (takeWhile (\<lambda>b. b = 0xFF) (rev p))"

definition strays :: "bytes \<Rightarrow> bytes list" where
  "strays p = (case cpIncr p of
     Some (Some e) \<Rightarrow> map (\<lambda>l. take l e) [length p - carry p ..< length p] | _ \<Rightarrow> [])"

lemma ff_cases:
  obtains n where "p = replicate n (0xFF :: byte)" | q c n where "p = q @ [c] @ replicate n 0xFF" "c \<noteq> 0xFF"
proof (induction p arbitrary: thesis rule: rev_induct)
  case Nil
  show ?case by (rule Nil(1) [of 0]) simp
next
  case (snoc b p)
  show ?case
  proof (cases "b = 0xFF")
    case True
    show ?thesis
    proof (rule snoc.IH)
      fix n assume "p = replicate n 0xFF"
      with True have "p @ [b] = replicate (Suc n) 0xFF" by (simp add: replicate_append_same)
      then show thesis by (rule snoc.prems(1))
    next
      fix q c n assume "p = q @ [c] @ replicate n 0xFF" "c \<noteq> 0xFF"
      with True have "p @ [b] = q @ [c] @ replicate (Suc n) 0xFF" by (simp add: replicate_append_same)
      then show thesis using \<open>c \<noteq> 0xFF\<close> by (rule snoc.prems(2))
    qed
  next
    case False
    then show ?thesis by (intro snoc.prems(2) [of p b 0]) simp_all
  qed
qed

lemma byte_less_ff: "b < 0xFF \<longleftrightarrow> b \<noteq> (0xFF :: byte)"
proof -
  have m: "(0xFF :: byte) = - 1" by simp
  show ?thesis unfolding m using word_order.not_eq_extremum [of b] by blast
qed

lemma incr_loop_ff: "incr_loop (length (q @ replicate n 0xFF)) (q @ replicate n 0xFF) =
    map_option (\<lambda>x. x @ replicate n 0) (incr_loop (length q) q)"
proof (induction n)
  case (Suc n)
  have "incr_loop (length ((q @ replicate n 0xFF) @ [0xFF])) ((q @ replicate n 0xFF) @ [0xFF]) =
      map_option (\<lambda>x. x @ replicate (Suc n) 0) (incr_loop (length q) q)"
    unfolding incr_loop_snoc Suc by (simp add: option.map_comp comp_def replicate_append_same)
  then show ?case by (simp add: replicate_append_same)
qed (simp add: option.map_ident)

lemma cpIncr_all_ff: "cpIncr (replicate (Suc n) 0xFF) = Some None"
  using incr_loop_ff [of "[]" "Suc n"] by (simp add: cpIncr_def)

lemma cpIncr_carry: "c \<noteq> 0xFF \<Longrightarrow> cpIncr (q @ [c] @ replicate n 0xFF) = Some (Some (q @ [c + 1] @ replicate n 0))"
  using incr_loop_ff [of "q @ [c]" n] incr_loop_snoc [of q c] by (simp add: cpIncr_def byte_less_ff)

lemma carry_ff: "c \<noteq> 0xFF \<Longrightarrow> carry (q @ [c] @ replicate n 0xFF) = n"
  by (simp add: carry_def takeWhile_append)

lemma strays_carry:
  "c \<noteq> 0xFF \<Longrightarrow> strays (q @ [c] @ replicate n 0xFF) = map (\<lambda>j. q @ [c + 1] @ replicate j 0) [0 ..< n]"
proof -
  assume c: "c \<noteq> 0xFF"
  have "strays (q @ [c] @ replicate n 0xFF) =
      map (\<lambda>l. take l (q @ [c + 1] @ replicate n 0)) [Suc (length q) ..< Suc (length q) + n]"
    unfolding strays_def cpIncr_carry [OF c] carry_ff [OF c] by simp
  also have "[Suc (length q) ..< Suc (length q) + n] = map (\<lambda>j. j + Suc (length q)) [0 ..< n]"
    by (simp only: map_add_upt add.commute)
  finally show ?thesis by (simp add: comp_def)
qed

lemma strays_ff: "strays (replicate n 0xFF) = []"
  using cpIncr_all_ff by (cases n) (simp_all add: strays_def cpIncr_def [of "[]"])

lemma ff_le: "replicate n 0xFF \<le> x \<longleftrightarrow> prefix (replicate n 0xFF) (x :: bytes)"
proof (induction n arbitrary: x)
  case (Suc n)
  have "\<not> (0xFF :: byte) < y" for y using byte_less_ff [of y] by auto
  with Suc show ?case by (cases x) auto
qed simp

lemma less_zeros: "x < replicate n 0 \<longleftrightarrow> (\<exists>j < n. x = replicate j (0 :: byte))"
proof (induction n arbitrary: x)
  case (Suc n)
  show ?case
  proof (cases x)
    case Nil
    then show ?thesis by force
  next
    case (Cons b y)
    have "(\<exists>j < Suc n. b # y = replicate j 0) \<longleftrightarrow> b = 0 \<and> (\<exists>j < n. y = replicate j 0)"
      by (simp add: Ex_less_Suc2) blast
    with Cons Suc show ?thesis by simp
  qed
qed simp

lemma between_prefix: "q \<le> k \<Longrightarrow> k \<le> q @ z \<Longrightarrow> prefix q (k :: bytes)"
  using not_prefix_above [of q k "q @ z"] by auto

text \<open>The keys from a prefix up to its increment.\<close>

lemma carry_dom:
  assumes c: "c \<noteq> (0xFF :: byte)"
  shows "q @ [c] @ replicate n 0xFF \<le> k \<and> k < q @ [c + 1] @ replicate n 0 \<longleftrightarrow>
    prefix (q @ [c] @ replicate n 0xFF) k \<or> (\<exists>j < n. k = q @ [c + 1] @ replicate j 0)"
    (is "?p \<le> k \<and> k < ?e \<longleftrightarrow> ?r")
proof
  have lt: "c < c + 1" using c byte_succ by (simp add: byte_less_ff)
  assume k: "?p \<le> k \<and> k < ?e"
  show ?r
  proof (cases "q @ [c + 1] \<le> k")
    case True
    then have "prefix (q @ [c + 1]) k" using between_prefix [of "q @ [c + 1]" k "replicate n 0"] k by (simp add: less_imp_le)
    then obtain y where y: "k = (q @ [c + 1]) @ y" by (auto simp: prefix_def)
    with k have "y < replicate n 0" by simp
    then show ?thesis unfolding y less_zeros by auto
  next
    case False
    moreover have "q @ [c] \<le> k"
      using k prefix_le [of "q @ [c]" "(q @ [c]) @ replicate n 0xFF"] order_trans [of "q @ [c]" ?p k] by simp
    ultimately have b: "k \<le> q @ [c + 1]" "k \<noteq> q @ [c + 1]" "\<not> k < q @ [c]" by auto
    have "prefix (q @ [c]) k"
      by (rule ccontr) (use below_incr [OF _ b(1, 2)] b(3) c in \<open>simp add: byte_less_ff\<close>)
    then obtain y where y: "k = (q @ [c]) @ y" by (auto simp: prefix_def)
    with k have "replicate n 0xFF \<le> y" by simp
    then show ?thesis unfolding y ff_le by (simp add: prefix_def) 
  qed
next
  have lt: "c < c + 1" using c byte_succ by (simp add: byte_less_ff)
  assume ?r
  then show "?p \<le> k \<and> k < ?e"
  proof
    assume p: "prefix ?p k"
    then obtain y where "k = ?p @ y" by (auto simp: prefix_def)
    with lt prefix_le [OF p] show ?thesis by simp
  next
    assume "\<exists>j < n. k = q @ [c + 1] @ replicate j 0"
    then obtain j where j: "j < n" "k = q @ [c + 1] @ replicate j 0" by blast
    then have "replicate j (0 :: byte) < replicate n 0" using less_zeros by blast
    with lt show ?thesis by (simp add: j(2))
  qed
qed

lemma incr_dom:
  assumes "p \<noteq> []" "cpIncr p = Some e"
  shows "in_dom (Some p) e k \<longleftrightarrow> prefix p k \<or> k \<in> set (strays p)"
proof (rule ff_cases [of p])
  fix n assume p: "p = replicate n 0xFF"
  with assms have "e = None" using cpIncr_all_ff by (cases n) auto
  then show ?thesis unfolding p strays_ff by (simp add: in_dom_def ff_le)
next
  fix q c n assume p: "p = q @ [c] @ replicate n 0xFF" and c: "c \<noteq> 0xFF"
  with assms(2) cpIncr_carry [OF c] have e: "e = Some (q @ [c + 1] @ replicate n 0)" by simp
  have "k \<in> set (strays p) \<longleftrightarrow> (\<exists>j < n. k = q @ [c + 1] @ replicate j 0)" unfolding p strays_carry [OF c] by auto
  then show ?thesis using carry_dom [OF c, of q n k] unfolding in_dom_def e p by simp
qed

lemma strays_short: "k \<in> set (strays p) \<Longrightarrow> length k < length p"
  by (rule ff_cases [of p]) (auto simp: strays_ff strays_carry simp del: append.simps)

lemma strays_Nil_iff: "strays p = [] \<longleftrightarrow> p = [] \<or> last p \<noteq> 0xFF \<or> (\<forall>b \<in> set p. b = 0xFF)"
proof (rule ff_cases [of p])
  fix q c n assume p: "p = q @ [c] @ replicate n 0xFF" and c: "c \<noteq> 0xFF"
  then show ?thesis unfolding p strays_carry [OF c] by (cases n) (auto simp: replicate_append_same [symmetric])
qed (simp add: strays_ff)

text \<open>C33. \<open>IteratePrefix\<close> on any database whose own prefixes are not empty, for every prefix: the loop
  over its iterator ends and delivers, in ascending order and with their values, the keys that have the
  prefix, and besides them exactly the strays that the database has. There is a stray exactly when the
  prefix ends in \<open>0xFF\<close> and has another byte as well; none of them has the prefix.\<close>

theorem IteratePrefix_exact:
  assumes "mem_reach s" and "handle_ok h"
    and "card {k. db_Has h (Some k) s \<and> (prefix p k \<or> k \<in> set (strays p))} < n"
  shows "(\<exists>itr. IteratePrefix h p s = Some itr \<and>
      iterate n itr s = Some (map (\<lambda>k. (k, db_Get h (Some k) s))
        (sorted_list_of_set {k. db_Has h (Some k) s \<and> (prefix p k \<or> k \<in> set (strays p))}))) \<and>
    (strays p \<noteq> [] \<longleftrightarrow> p \<noteq> [] \<and> last p = 0xFF \<and> (\<exists>b \<in> set p. b \<noteq> 0xFF)) \<and>
    (\<forall>k \<in> set (strays p). \<not> prefix p k)"
proof (intro conjI)
  let ?ks = "sorted_list_of_set {k. db_Has h (Some k) s \<and> (prefix p k \<or> k \<in> set (strays p))}"
  obtain start stop where it: "IteratePrefix h p s = db_Iterator h start stop s"
    and dom: "\<And>k. in_dom start stop k \<longleftrightarrow> prefix p k \<or> k \<in> set (strays p)"
  proof (cases "p = []")
    case True
    show ?thesis by (rule that [of None None]) (simp_all add: True IteratePrefix_def in_dom_def)
  next
    case False
    then obtain e where e: "cpIncr p = Some e" by (simp add: cpIncr_def)
    show ?thesis by (rule that [of "Some p" e]) (simp_all add: False e IteratePrefix_def incr_dom)
  qed
  have "delivers (IteratePrefix h p s) ?ks"
    using handle.iter_delivers [of s h start stop] mem_reach_inv [OF assms(1)] assms(2)
    by (simp add: handle.has_get it dom)
  then show "\<exists>itr. IteratePrefix h p s = Some itr \<and> iterate n itr s = Some (map (\<lambda>k. (k, db_Get h (Some k) s)) ?ks)"
    by (rule iterate_delivers) (use assms(3) in \<open>simp_all add: it itr_path_Iterator\<close>)
  show "strays p \<noteq> [] \<longleftrightarrow> p \<noteq> [] \<and> last p = 0xFF \<and> (\<exists>b \<in> set p. b \<noteq> 0xFF)"
    using strays_Nil_iff [of p] by blast
  show "\<forall>k \<in> set (strays p). \<not> prefix p k"
    using strays_short prefix_length_le by fastforce
qed

theorem IteratePrefix_exact_witness:
  "let t = mem_Set (Some [97, 2]) (Some [9]) (mem_Set (Some [97, 1, 0xFF, 5]) (Some [8]) NewMemDB)
   in \<exists>itr. IteratePrefix (PrefixDB [97] Mem) [1, 0xFF] t = Some itr \<and> iterate 3 itr t = Some [([1, 0xFF, 5], Some [8]), ([2], Some [9])]"
proof -
  let ?t = "mem_Set (Some [97, 2]) (Some [9]) (mem_Set (Some [97, 1, 0xFF, 5]) (Some [8]) NewMemDB)"
  have r: "mem_reach ?t"
    using mem_reach.Set [OF mem_reach.Set [OF mem_reach.init, of Mem], of Mem] by simp
  have s: "strays [1, 0xFF] = [[2]]" by (simp add: strays_def cpIncr_def carry_def)
  have k: "{k. db_Has (PrefixDB [97] Mem) (Some k) ?t \<and> (prefix [1, 0xFF] k \<or> k \<in> set (strays [1, 0xFF]))} = {[1, 0xFF, 5], [2]}"
    by (auto simp: s mem_ops NewMemDB_def)
  have o: "sorted_list_of_set {[1, 0xFF, 5], [2] :: bytes} = [[1, 0xFF, 5], [2]]"
    using sorted_list_of_set_sort_remdups [of "[[1, 0xFF, 5], [2] :: bytes]"] by simp
  have g: "db_Get (PrefixDB [97] Mem) (Some [1, 0xFF, 5]) ?t = Some [8]" "db_Get (PrefixDB [97] Mem) (Some [2]) ?t = Some [9]"
    by code_simp+
  from IteratePrefix_exact [OF r, of "PrefixDB [97] Mem" "[1, 0xFF]" 3]
  show ?thesis unfolding k o Let_def by (simp add: g del: db_Get.simps)
qed

section \<open>Panics of iterators\<close>

text \<open>Which iterators panic, for a stack of handles from the outermost prefix inwards. Without an end
  the prefix is incremented; the overflow of a prefix of bytes \<open>0xFF\<close> leaves the handle below without
  an end as well.\<close>

primrec iter_panics :: "DB \<Rightarrow> bytes option \<Rightarrow> bool" where
  "iter_panics Mem stop = False"
| "iter_panics (PrefixDB p db) stop = (stop = None \<and> (p = [] \<or> list_all (\<lambda>b. b = 0xFF) p \<and> iter_panics db None))"

primrec riter_panics :: "DB \<Rightarrow> bool \<Rightarrow> bool \<Rightarrow> bool" where
  "riter_panics Mem no_start no_end = False"
| "riter_panics (PrefixDB p db) no_start no_end =
     (p = [] \<and> (no_start \<or> no_end) \<or>
      riter_panics db (no_start \<and> list_all (\<lambda>b. b = 0xFF) p) (no_end \<and> list_all (\<lambda>b. b = 0) p))"

lemma iter_panics_Some: "\<not> iter_panics h (Some e)"
  by (cases h) simp_all

lemma delivers_Some: "delivers r ks \<Longrightarrow> r \<noteq> None"
  by (auto simp: delivers_def)

lemma cpIncr_None_iff: "cpIncr p = Some None \<longleftrightarrow> p \<noteq> [] \<and> list_all (\<lambda>b. b = 0xFF) p"
proof (rule ff_cases [of p])
  fix n assume p: "p = replicate n 0xFF"
  then show ?thesis using cpIncr_all_ff by (cases n) (auto simp: cpIncr_def [of "[]"] list_all_iff)
next
  fix q c n assume p: "p = q @ [c] @ replicate n 0xFF" and c: "c \<noteq> 0xFF"
  show ?thesis unfolding p cpIncr_carry [OF c] using c by simp
qed

lemma decr_loop_None: "decr_loop (length p) p = None \<longleftrightarrow> list_all (\<lambda>b. b = 0) p"
proof (induction p rule: rev_induct)
  case (snoc b p)
  then show ?case by (simp only: decr_loop_snoc) (simp add: word_gt_0)
qed simp

lemma Iterator_delivers:
  assumes "mem_inv s" "\<not> iter_panics h stop"
  shows "delivers (db_Iterator h start stop s) (sorted_list_of_set {k. db_Get h (Some k) s \<noteq> None \<and> in_dom start stop k})"
  using assms(2)
proof (induction h arbitrary: start stop)
  case Mem
  then show ?case using mem.iter_delivers [OF assms(1)] by simp
next
  case (PrefixDB p db)
  obtain pend where pend: "(if stop = None then cpIncr p else Some (Some (cp p @ nonNilBytes stop))) = Some pend"
    "\<And>start x. in_dom (Some (p @ nonNilBytes start)) pend (p @ x) \<longleftrightarrow> in_dom start stop x" "\<not> iter_panics db pend"
  proof (cases stop)
    case None
    with PrefixDB.prems have p: "p \<noteq> []" "list_all (\<lambda>b. b = 0xFF) p \<longrightarrow> \<not> iter_panics db None" by auto
    obtain pend where e: "(if stop = None then cpIncr p else Some (Some (cp p @ nonNilBytes stop))) = Some pend"
      "\<And>start x. in_dom (Some (p @ nonNilBytes start)) pend (p @ x) \<longleftrightarrow> in_dom start stop x"
      using cpIncr_end [OF p(1)] by blast
    have "\<not> iter_panics db pend"
    proof (cases pend)
      case None
      with e(1) \<open>stop = None\<close> p cpIncr_None_iff [of p] show ?thesis by simp
    next
      case (Some e)
      then show ?thesis by (simp add: iter_panics_Some)
    qed
    with e show ?thesis by (rule that)
  next
    case (Some e)
    then show ?thesis by (intro that [of "Some (p @ e)"]) (simp_all add: in_dom_def iter_panics_Some)
  qed
  let ?A = "{k. db_Get db (Some k) s \<noteq> None \<and> in_dom (Some (p @ nonNilBytes start)) pend k}"
  have fin: "finite ?A" by (rule handle.finite_dom)
  have "p \<le> k" if "k \<in> ?A" for k
    using that prefix_le [of p "p @ nonNilBytes start"] by (auto simp: in_dom_def)
  then have "takeWhile (prefix p) (sorted_list_of_set ?A) = filter (prefix p) (sorted_list_of_set ?A)"
    using fin by (intro takeWhile_prefix_up) auto
  moreover have "map (drop (length p)) (filter (prefix p) (sorted_list_of_set ?A)) =
      sorted_list_of_set {k. db_Get (PrefixDB p db) (Some k) s \<noteq> None \<and> in_dom start stop k}"
    by (rule strip_sorted [OF fin]) (simp add: pend(2))
  ultimately show ?case
    using delivers_prefix [OF PrefixDB.IH [OF pend(3)], of p start stop "Some (p @ nonNilBytes start)"]
    by (simp only: db_Iterator.simps pend(1) [unfolded cp_id] option.case Let_def cp_id)
qed

lemma Iterator_panics: "iter_panics h stop \<Longrightarrow> db_Iterator h start stop s = None"
proof (induction h arbitrary: start stop)
  case (PrefixDB p db)
  then show ?case
    using cpIncr_None_iff [of p] by (cases "p = []") (auto simp: cpIncr_def [of "[]"] Let_def)
qed simp

lemma ReverseIterator_panics:
  assumes "mem_inv s"
  shows "if riter_panics h (start = None) (stop = None) then db_ReverseIterator h start stop s = None
    else \<exists>ks. delivers (db_ReverseIterator h start stop s) ks"
proof (induction h arbitrary: start stop)
  case Mem
  show ?case using mem.riter_delivers [OF assms] by auto
next
  case (PrefixDB p db)
  show ?case
  proof (cases "p = [] \<and> (start = None \<or> stop = None)")
    case True
    then show ?thesis by (cases start) (auto simp: cpIncr_def cpDecr_def)
  next
    case False
    obtain pstart where ps: "(if start = None then cpIncr p else Some (Some (cp p @ nonNilBytes start))) = Some pstart"
      "pstart = None \<longleftrightarrow> start = None \<and> list_all (\<lambda>b. b = 0xFF) p"
      using False cpIncr_None_iff [of p] by (cases start) (auto simp: cpIncr_def)
    obtain pend where pe: "(if stop = None then cpDecr p else Some (Some (cp p @ nonNilBytes stop))) = Some pend"
      "pend = None \<longleftrightarrow> stop = None \<and> list_all (\<lambda>b. b = 0) p"
      using False decr_loop_None [of p] by (cases stop) (auto simp: cpDecr_def)
    have it: "db_ReverseIterator (PrefixDB p db) start stop s =
        (case (case db_ReverseIterator db pstart pend s of None \<Rightarrow> None
           | Some ritr \<Rightarrow> (if start = None then skipOne ritr pstart else Some ritr)) of
           None \<Rightarrow> None | Some ritr \<Rightarrow> newPrefixIterator p start stop ritr)"
      unfolding db_ReverseIterator.simps ps(1) pe(1) using ps(1) by (cases start) (auto split: option.splits)
    have pan: "riter_panics (PrefixDB p db) (start = None) (stop = None) \<longleftrightarrow> riter_panics db (pstart = None) (pend = None)"
      using False unfolding ps(2) pe(2) riter_panics.simps by blast
    show ?thesis
    proof (cases "riter_panics db (pstart = None) (pend = None)")
      case True
      with PrefixDB.IH [of pstart pend] show ?thesis unfolding pan it by simp
    next
      case ok: False
      with PrefixDB.IH [of pstart pend] obtain ks where d: "delivers (db_ReverseIterator db pstart pend s) ks" by auto
      have "\<exists>ks. delivers (case db_ReverseIterator db pstart pend s of None \<Rightarrow> None
           | Some ritr \<Rightarrow> (if start = None then skipOne ritr pstart else Some ritr)) ks"
        using d delivers_skipOne [OF d, of pstart] by (cases start) (auto simp: delivers_def)
      with ok delivers_prefix show ?thesis unfolding pan it by fastforce
    qed
  qed
qed

text \<open>C34. Which iterators panic. \<open>Iterator\<close> panics exactly when it has no end and, from the outermost
  handle inwards, an empty prefix comes after prefixes of bytes \<open>0xFF\<close> only: the bounds of the database
  are incremented, and \<open>cpIncr\<close> refuses the empty slice. In all other cases, empty prefixes included, the
  loop over it ends and delivers exactly the keys of the domain. \<open>ReverseIterator\<close> panics exactly when
  an empty prefix is met without a start or without an end.\<close>

theorem iterator_panics:
  assumes "mem_reach s"
  shows "(if iter_panics h stop then db_Iterator h start stop s = None
     else \<exists>itr. db_Iterator h start stop s = Some itr \<and>
       iterate (Suc (card {k. db_Has h (Some k) s \<and> in_dom start stop k})) itr s =
         Some (map (\<lambda>k. (k, db_Get h (Some k) s)) (sorted_list_of_set {k. db_Has h (Some k) s \<and> in_dom start stop k}))) \<and>
    (db_ReverseIterator h start stop s = None \<longleftrightarrow> riter_panics h (start = None) (stop = None))"
proof
  have inv: "mem_inv s" by (rule mem_reach_inv [OF assms])
  let ?ks = "sorted_list_of_set {k. db_Has h (Some k) s \<and> in_dom start stop k}"
  show "if iter_panics h stop then db_Iterator h start stop s = None
     else \<exists>itr. db_Iterator h start stop s = Some itr \<and>
       iterate (Suc (card {k. db_Has h (Some k) s \<and> in_dom start stop k})) itr s = Some (map (\<lambda>k. (k, db_Get h (Some k) s)) ?ks)"
  proof (cases "iter_panics h stop")
    case False
    then have "delivers (db_Iterator h start stop s) ?ks" using Iterator_delivers [OF inv] by (simp add: handle.has_get)
    then have "\<exists>itr. db_Iterator h start stop s = Some itr \<and>
        iterate (Suc (length ?ks)) itr s = Some (map (\<lambda>k. (k, db_Get h (Some k) s)) ?ks)"
      by (rule iterate_delivers) (rule itr_path_Iterator, assumption, rule lessI)
    with False show ?thesis by (simp only: if_False length_sorted_list_of_set)
  qed (simp add: Iterator_panics)
  show "db_ReverseIterator h start stop s = None \<longleftrightarrow> riter_panics h (start = None) (stop = None)"
    using ReverseIterator_panics [OF inv, of h start stop] delivers_Some by (auto split: if_splits)
qed

theorem iterator_panics_witness:
  "db_Iterator (PrefixDB [0xFF] (PrefixDB [] Mem)) (Some [1]) None sample_db = None \<and>
   db_Iterator (PrefixDB [97] (PrefixDB [] Mem)) None None sample_db \<noteq> None \<and>
   db_ReverseIterator (PrefixDB [97] (PrefixDB [] Mem)) None None sample_db \<noteq> None"
  using iterator_panics [OF sample_db_reach, of "PrefixDB [0xFF] (PrefixDB [] Mem)" None "Some [1]"]
    iterator_panics [OF sample_db_reach, of "PrefixDB [97] (PrefixDB [] Mem)" None None]
  by (simp del: db_Iterator.simps db_ReverseIterator.simps) blast

end
