(* ===== verification/BitArray.thy ===== *)
theory BitArray
  imports GoStrings
begin

text \<open>
  \<^verbatim>\<open>src/tendermint/tmlibs/common/bit_array.go\<close>, the bit arrays of the consensus code, with
  the helpers of \<^verbatim>\<open>math.go\<close> they use. A bit array is nil (\<open>None\<close>) or a number of bits
  and a slice of 64-bit words. Indices are Go integers: division and remainder truncate, and an index
  outside the slice is a panic (the outer \<open>None\<close>). The mutexes are left out: an operation of two
  arrays is modelled for two different ones (\<open>Sub\<close> of an array with itself would wait for its own
  mutex).
\<close>

section \<open>Helpers of math.go\<close>

definition MaxInt :: "int \<Rightarrow> int \<Rightarrow> int" where
  "MaxInt a b = (if a > b then a else b)"

definition MinInt :: "int \<Rightarrow> int \<Rightarrow> int" where
  "MinInt a b = (if a < b then a else b)"

text \<open>The loop of \<open>ExpUint64\<close>, on the exponent that is halved.\<close>

function exp_loop :: "u64 \<Rightarrow> u64 \<Rightarrow> u64 \<Rightarrow> u64" where
  "exp_loop accum a b =
     (if 0 < b then exp_loop (if b AND 1 = 1 then accum * a else accum) (a * a) (drop_bit 1 b) else accum)"
  by pat_completeness auto

termination exp_loop
proof (relation "measure (\<lambda>(accum, a, b). unat b)")
  fix accum a b :: u64 assume "0 < b"
  then have "0 < unat b" by (simp add: unat_gt_0)
  then show "((if b AND 1 = 1 then accum * a else accum, a * a, drop_bit 1 b), accum, a, b) \<in> measure (\<lambda>(accum, a, b). unat b)"
    by (simp add: drop_bit_eq_div unat_div)
qed simp

declare exp_loop.simps [simp del]

definition ExpUint64 :: "u64 \<Rightarrow> u64 \<Rightarrow> u64" where
  "ExpUint64 a b = exp_loop 1 a b"

section \<open>Bit arrays\<close>

record BitArray =
  Bits :: int
  Elems :: "u64 list"

definition NewBitArray :: "int \<Rightarrow> BitArray option" where
  "NewBitArray bits =
     (if bits \<le> 0 then None
      else Some \<lparr>Bits = bits, Elems = replicate (nat ((bits + 63) div 64)) 0\<rparr>)"

definition ba_Size :: "BitArray option \<Rightarrow> int" where
  "ba_Size bA = (case bA of None \<Rightarrow> 0 | Some a \<Rightarrow> Bits a)"

text \<open>Go's truncating division, an element of a slice, and \<open>uint64(1) << uint(i % 64)\<close>.\<close>

definition quot64 :: "int \<Rightarrow> int" where
  "quot64 i = (if 0 \<le> i then i div 64 else - ((- i) div 64))"

definition rem64 :: "int \<Rightarrow> int" where
  "rem64 i = i - 64 * quot64 i"

definition bit_mask :: "int \<Rightarrow> u64" where
  "bit_mask i = (if 0 \<le> rem64 i then push_bit (nat (rem64 i)) 1 else 0)"

definition in_range :: "int \<Rightarrow> 'a list \<Rightarrow> bool" where
  "in_range i xs \<longleftrightarrow> 0 \<le> i \<and> i < int (length xs)"

definition getIndex :: "int \<Rightarrow> BitArray \<Rightarrow> bool option" where
  "getIndex i bA =
     (if i \<ge> Bits bA then Some False
      else if \<not> in_range (quot64 i) (Elems bA) then None
      else Some (0 < Elems bA ! nat (quot64 i) AND bit_mask i))"

definition GetIndex :: "int \<Rightarrow> BitArray option \<Rightarrow> bool option" where
  "GetIndex i bA = (case bA of None \<Rightarrow> Some False | Some a \<Rightarrow> getIndex i a)"

definition setIndex :: "int \<Rightarrow> bool \<Rightarrow> BitArray \<Rightarrow> (bool \<times> BitArray) option" where
  "setIndex i v bA =
     (if i \<ge> Bits bA then Some (False, bA)
      else if \<not> in_range (quot64 i) (Elems bA) then None
      else let j = nat (quot64 i)
           in Some (True, bA\<lparr>Elems := (Elems bA)[j := (if v then Elems bA ! j OR bit_mask i
                                                     else Elems bA ! j AND NOT (bit_mask i))]\<rparr>))"

definition SetIndex :: "int \<Rightarrow> bool \<Rightarrow> BitArray option \<Rightarrow> (bool \<times> BitArray option) option" where
  "SetIndex i v bA =
     (case bA of
        None \<Rightarrow> Some (False, None)
      | Some a \<Rightarrow> map_option (\<lambda>(ok, a). (ok, Some a)) (setIndex i v a))"

definition ba_copy :: "BitArray \<Rightarrow> BitArray" where
  "ba_copy bA = \<lparr>Bits = Bits bA, Elems = Elems bA\<rparr>"

definition ba_Copy :: "BitArray option \<Rightarrow> BitArray option" where
  "ba_Copy bA = (case bA of None \<Rightarrow> None | Some a \<Rightarrow> Some (ba_copy a))"

text \<open>\<open>copy\<close> into a new slice of the length for \<open>bits\<close>.\<close>

definition copyBits :: "int \<Rightarrow> BitArray \<Rightarrow> BitArray" where
  "copyBits bits bA =
     (let n = nat ((bits + 63) div 64)
      in \<lparr>Bits = bits, Elems = take n (Elems bA) @ replicate (n - length (Elems bA)) 0\<rparr>)"

text \<open>\<open>for i := 0; i < len(c.Elems); i++ { c.Elems[i] = f(c.Elems[i], o.Elems[i]) }\<close>.\<close>

primrec zip_loop :: "(u64 \<Rightarrow> u64 \<Rightarrow> u64) \<Rightarrow> u64 list \<Rightarrow> u64 list \<Rightarrow> u64 list option" where
  "zip_loop f [] oA = Some []"
| "zip_loop f (c # cs) oA =
     (case oA of [] \<Rightarrow> None | x # xs \<Rightarrow> map_option (\<lambda>r. f c x # r) (zip_loop f cs xs))"

definition ba_Or :: "BitArray option \<Rightarrow> BitArray option \<Rightarrow> BitArray option option" where
  "ba_Or bA oA =
     (case bA of
        None \<Rightarrow> Some (ba_Copy oA)
      | Some a \<Rightarrow>
          (case oA of
             None \<Rightarrow> Some (ba_Copy bA)
           | Some b \<Rightarrow>
               (let c = copyBits (MaxInt (Bits a) (Bits b)) a
                in map_option (\<lambda>es. Some (c\<lparr>Elems := es\<rparr>)) (zip_loop (OR) (Elems c) (Elems b)))))"

definition ba_and :: "BitArray \<Rightarrow> BitArray \<Rightarrow> BitArray option" where
  "ba_and a b =
     (let c = copyBits (MinInt (Bits a) (Bits b)) a
      in map_option (\<lambda>es. c\<lparr>Elems := es\<rparr>) (zip_loop (AND) (Elems c) (Elems b)))"

definition ba_And :: "BitArray option \<Rightarrow> BitArray option \<Rightarrow> BitArray option option" where
  "ba_And bA oA =
     (case (bA, oA) of (Some a, Some b) \<Rightarrow> map_option Some (ba_and a b) | _ \<Rightarrow> Some None)"

definition ba_Not :: "BitArray option \<Rightarrow> BitArray option" where
  "ba_Not bA = (case bA of None \<Rightarrow> None | Some a \<Rightarrow> Some ((ba_copy a)\<lparr>Elems := map NOT (Elems (ba_copy a))\<rparr>))"

text \<open>The two loops of \<open>Sub\<close>: over the words of \<open>o\<close> but the last, and over the bits of the
  last.\<close>

primrec sub_words :: "nat \<Rightarrow> u64 list \<Rightarrow> u64 list" where
  "sub_words 0 c = c"
| "sub_words (Suc n) c = (sub_words n c)[n := sub_words n c ! n AND NOT (sub_words n c ! n)]"

primrec sub_bits :: "nat \<Rightarrow> int \<Rightarrow> BitArray \<Rightarrow> BitArray \<Rightarrow> BitArray option" where
  "sub_bits 0 idx c b = Some c"
| "sub_bits (Suc n) idx c b =
     (case getIndex idx c of
        None \<Rightarrow> None
      | Some x \<Rightarrow>
          (case (if x then map_option Not (GetIndex idx (Some b)) else Some False) of
             None \<Rightarrow> None
           | Some v \<Rightarrow>
               (case setIndex idx v c of
                  None \<Rightarrow> None
                | Some (_, c) \<Rightarrow> sub_bits n (idx + 1) c b)))"

definition ba_Sub :: "BitArray option \<Rightarrow> BitArray option \<Rightarrow> BitArray option option" where
  "ba_Sub bA oA =
     (case (bA, oA) of
        (Some a, Some b) \<Rightarrow>
          (if Bits a > Bits b then
             (let c = ba_copy a; i = length (Elems b) - 1
              in if length (Elems c) < i then None
                 else let c = c\<lparr>Elems := sub_words i (Elems c)\<rparr>
                      in if Elems b = [] then Some (Some c)
                         else map_option Some (sub_bits (nat (Bits b - int i * 64)) (int i * 64) c b))
           else map_option Some (ba_and a (the (ba_Not (Some b)))))
      | _ \<Rightarrow> Some None)"

definition ba_IsEmpty :: "BitArray option \<Rightarrow> bool" where
  "ba_IsEmpty bA = (case bA of None \<Rightarrow> True | Some a \<Rightarrow> list_all (\<lambda>e. \<not> 0 < e) (Elems a))"

definition ba_IsFull :: "BitArray option \<Rightarrow> bool option" where
  "ba_IsFull bA =
     (case bA of
        None \<Rightarrow> Some True
      | Some a \<Rightarrow>
          (if Elems a = [] then None
           else if list_ex (\<lambda>e. NOT e \<noteq> 0) (butlast (Elems a)) then Some False
           else let lastElemBits = (Bits a + 63) mod 64 + 1; lastElem = last (Elems a)
                in Some ((lastElem + 1) AND (push_bit (nat lastElemBits) 1 - 1) = 0)))"

text \<open>\<open>RandIntn\<close> is a parameter: \<open>rnd k n\<close> is its result for the bound \<open>n\<close> at the
  \<open>k\<close>-th element visited. A return is \<open>Some\<close>; running off a loop is \<open>None\<close>.\<close>

primrec pick_bit :: "u64 \<Rightarrow> nat \<Rightarrow> nat \<Rightarrow> nat \<Rightarrow> nat \<Rightarrow> nat option" where
  "pick_bit e bound start j 0 = None"
| "pick_bit e bound start j (Suc n) =
     (let bitIdx = (j + start) mod bound
      in if 0 < e AND push_bit bitIdx 1 then Some bitIdx else pick_bit e bound start (j + 1) n)"

datatype pick = Picked int | NoneSet | PanicSanity

primrec pick_elem :: "(nat \<Rightarrow> nat \<Rightarrow> nat) \<Rightarrow> BitArray \<Rightarrow> nat \<Rightarrow> nat \<Rightarrow> nat \<Rightarrow> pick" where
  "pick_elem rnd a start i 0 = NoneSet"
| "pick_elem rnd a start i (Suc n) =
     (let len = length (Elems a); elemIdx = (i + start) mod len; e = Elems a ! elemIdx
      in if elemIdx < len - 1 then
           (if 0 < e then
              (case pick_bit e 64 (rnd i 64) 0 64 of
                 Some b \<Rightarrow> Picked (64 * int elemIdx + int b)
               | None \<Rightarrow> PanicSanity)
            else pick_elem rnd a start (i + 1) n)
         else
           (let elemBits = (if Bits a mod 64 = 0 then 64 else nat (Bits a mod 64))
            in case pick_bit e elemBits (rnd i elemBits) 0 elemBits of
                 Some b \<Rightarrow> Picked (64 * int elemIdx + int b)
               | None \<Rightarrow> pick_elem rnd a start (i + 1) n))"

definition PickRandom :: "nat \<Rightarrow> (nat \<Rightarrow> nat \<Rightarrow> nat) \<Rightarrow> BitArray option \<Rightarrow> pick" where
  "PickRandom randElemStart rnd bA =
     (case bA of
        None \<Rightarrow> NoneSet
      | Some a \<Rightarrow>
          (if length (Elems a) = 0 then NoneSet
           else pick_elem rnd a randElemStart 0 (length (Elems a))))"

definition bit_char :: "BitArray \<Rightarrow> int \<Rightarrow> char option" where
  "bit_char bA i = map_option (\<lambda>v. if v then CHR ''x'' else CHR ''_'') (getIndex i bA)"

primrec string_loop :: "string \<Rightarrow> BitArray \<Rightarrow> int \<Rightarrow> nat \<Rightarrow> string list \<Rightarrow> string \<Rightarrow> (string list \<times> string) option" where
  "string_loop indent bA i 0 lines bits = Some (lines, bits)"
| "string_loop indent bA i (Suc n) lines bits =
     (case bit_char bA i of
        None \<Rightarrow> None
      | Some c \<Rightarrow>
          (let bits = bits @ [c];
               (lines, bits) = (if i mod 100 = 99 then (lines @ [bits], []) else (lines, bits));
               bits = (if i mod 10 = 9 then bits @ indent else bits);
               bits = (if i mod 50 = 49 then bits @ indent else bits)
           in string_loop indent bA (i + 1) n lines bits))"

definition stringIndented :: "string \<Rightarrow> BitArray \<Rightarrow> string option" where
  "stringIndented indent bA =
     map_option (\<lambda>(lines, bits).
         ''BA{'' @ show_int (Bits bA) @ '':'' @
         join_with indent (if length bits > 0 then lines @ [bits] else lines) @ ''}'')
       (string_loop indent bA 0 (nat (Bits bA)) [] [])"

definition StringIndented :: "string \<Rightarrow> BitArray option \<Rightarrow> string option" where
  "StringIndented indent bA = (case bA of None \<Rightarrow> Some ''nil-BitArray'' | Some a \<Rightarrow> stringIndented indent a)"

definition ba_String :: "BitArray option \<Rightarrow> string option" where
  "ba_String bA = StringIndented [] bA"

text \<open>\<open>LittleEndian.PutUint64\<close>, and \<open>copy(bytes[i*8:], elemBytes[:])\<close>, which panics when
  \<open>i*8\<close> is past the end.\<close>

definition PutUint64LE :: "u64 \<Rightarrow> bytes" where
  "PutUint64LE v = map (\<lambda>k. ucast (drop_bit (8 * k) v)) [0 ..< 8]"

definition copy_from :: "nat \<Rightarrow> bytes \<Rightarrow> bytes \<Rightarrow> bytes option" where
  "copy_from k src dst =
     (if length dst < k then None
      else Some (take k dst @ take (length dst - k) src @ drop (k + length src) dst))"

primrec bytes_loop :: "nat \<Rightarrow> u64 list \<Rightarrow> bytes \<Rightarrow> bytes option" where
  "bytes_loop i [] bs = Some bs"
| "bytes_loop i (e # es) bs =
     (case copy_from (i * 8) (PutUint64LE e) bs of None \<Rightarrow> None | Some bs \<Rightarrow> bytes_loop (i + 1) es bs)"

definition ba_Bytes :: "BitArray \<Rightarrow> bytes option" where
  "ba_Bytes bA = bytes_loop 0 (Elems bA) (replicate (nat ((Bits bA + 7) div 8)) 0)"

definition ba_Update :: "BitArray option \<Rightarrow> BitArray option \<Rightarrow> BitArray option" where
  "ba_Update bA oA =
     (case (bA, oA) of
        (Some a, Some b) \<Rightarrow>
          Some (a\<lparr>Elems := take (length (Elems a)) (Elems b) @ drop (length (Elems b)) (Elems a)\<rparr>)
      | _ \<Rightarrow> bA)"

primrec bit_string :: "BitArray \<Rightarrow> int \<Rightarrow> nat \<Rightarrow> string option" where
  "bit_string bA i 0 = Some []"
| "bit_string bA i (Suc n) =
     (case bit_char bA i of
        None \<Rightarrow> None
      | Some c \<Rightarrow> map_option (\<lambda>r. c # r) (bit_string bA (i + 1) n))"

definition ba_MarshalJSON :: "BitArray option \<Rightarrow> string option" where
  "ba_MarshalJSON bA =
     (case bA of
        None \<Rightarrow> Some ''null''
      | Some a \<Rightarrow> map_option (\<lambda>bits. CHR 0x22 # bits @ [CHR 0x22]) (bit_string a 0 (nat (Bits a))))"

text \<open>The match of \<open>\A"([_x]*)"\z\<close>.\<close>

definition json_match :: "string \<Rightarrow> string option" where
  "json_match b =
     (if length b \<ge> 2 \<and> hd b = CHR 0x22 \<and> last b = CHR 0x22
         \<and> list_all (\<lambda>c. c = CHR ''_'' \<or> c = CHR ''x'') (butlast (tl b))
      then Some (butlast (tl b)) else None)"

datatype json_error = BadFormat string

primrec set_loop :: "string \<Rightarrow> int \<Rightarrow> BitArray option \<Rightarrow> BitArray option option" where
  "set_loop [] i bA = Some bA"
| "set_loop (c # cs) i bA =
     (if c = CHR ''x'' then
        (case SetIndex i True bA of None \<Rightarrow> None | Some (_, bA) \<Rightarrow> set_loop cs (i + 1) bA)
      else set_loop cs (i + 1) bA)"

text \<open>\<open>*bA = *bA2\<close> panics when \<open>bA2\<close> is nil.\<close>

definition ba_UnmarshalJSON :: "string \<Rightarrow> (json_error + BitArray) option" where
  "ba_UnmarshalJSON b =
     (if b = ''null'' then Some (Inr \<lparr>Bits = 0, Elems = []\<rparr>)
      else case json_match b of
             None \<Rightarrow> Some (Inl (BadFormat b))
           | Some bits \<Rightarrow>
               (case set_loop bits 0 (NewBitArray (int (length bits))) of
                  Some (Some bA2) \<Rightarrow> Some (Inr bA2)
                | _ \<Rightarrow> None))"

end
