(* ===== verification/BitArrayLaws.thy ===== *)
theory BitArrayLaws
  imports BitArray
begin

text \<open>
  Correctness of the bit arrays: a bit array stands for the set of its indices whose bit is one
  (\<open>members\<close>), and the operations are checked against sets. \<open>ba_wf\<close> is the shape the
  constructor makes; \<open>ba_clean\<close> says in addition that no bit behind the last one is set.
\<close>

section \<open>Exponentiation\<close>

lemma exp_loop_power: "exp_loop accum a b = accum * a ^ unat b"
proof (induction accum a b rule: exp_loop.induct)
  case (1 accum a b)
  show ?case
  proof (cases "0 < b")
    case True
    have u: "unat b = 2 * unat (drop_bit 1 b) + (if b AND 1 = 1 then 1 else 0)"
    proof -
      have "unat (drop_bit 1 b) = unat b div 2" by (simp add: drop_bit_eq_div unat_div)
      moreover have "b AND 1 = 1 \<longleftrightarrow> odd (unat b)"
        using bit_unsigned_iff [of b 0, where 'a = nat] by (simp add: bit_0 and_one_eq odd_iff_mod_2_eq_one)
      ultimately show ?thesis by (cases "odd (unat b)") simp_all
    qed
    have sq: "(if P then accum * a else accum) * (a * a) ^ m = accum * a ^ (2 * m + (if P then 1 else 0))" for P m
      by (cases P) (simp_all add: power_add mult_2 power_mult_distrib mult.assoc)
    have "exp_loop accum a b = exp_loop (if b AND 1 = 1 then accum * a else accum) (a * a) (drop_bit 1 b)"
      using True by (subst exp_loop.simps) simp
    also have "\<dots> = (if b AND 1 = 1 then accum * a else accum) * (a * a) ^ unat (drop_bit 1 b)"
      by (rule "1.IH" [OF True])
    also have "\<dots> = accum * a ^ (2 * unat (drop_bit 1 b) + (if b AND 1 = 1 then 1 else 0))" by (rule sq)
    also have "\<dots> = accum * a ^ unat b" by (simp only: u [symmetric])
    finally show ?thesis .
  next
    case False
    then show ?thesis by (subst exp_loop.simps) (simp add: word_gt_0)
  qed
qed

text \<open>\<open>ExpUint64\<close> ends for every exponent and computes the power modulo \<open>2\<close> to the
  \<open>64\<close>.\<close>

theorem ExpUint64_correct: "unat (ExpUint64 a b) = unat a ^ unat b mod 2 ^ 64"
proof -
  have "ExpUint64 a b = a ^ unat b" by (simp add: ExpUint64_def exp_loop_power)
  also have "\<dots> = of_nat (unat a ^ unat b)" by simp
  finally show ?thesis by (simp only: unat_of_nat take_bit_eq_mod) simp
qed

section \<open>Words and indices\<close>

definition ba_wf :: "BitArray \<Rightarrow> bool" where
  "ba_wf a \<longleftrightarrow> 0 < Bits a \<and> length (Elems a) = nat ((Bits a + 63) div 64)"

definition bat :: "u64 list \<Rightarrow> nat \<Rightarrow> bool" where
  "bat es n \<longleftrightarrow> n div 64 < length es \<and> bit (es ! (n div 64)) (n mod 64)"

definition ba_clean :: "BitArray \<Rightarrow> bool" where
  "ba_clean a \<longleftrightarrow> ba_wf a \<and> (\<forall>n. bat (Elems a) n \<longrightarrow> int n < Bits a)"

definition members :: "BitArray \<Rightarrow> nat set" where
  "members a = {n. int n < Bits a \<and> bat (Elems a) n}"

lemma quot_rem64 [simp]: "quot64 (int n) = int (n div 64)" "rem64 (int n) = int (n mod 64)"
  by (simp_all add: quot64_def rem64_def zdiv_int minus_div_mult_eq_mod [symmetric] zmod_int)

lemma bit_mask_int [simp]: "bit_mask (int n) = 2 ^ (n mod 64)"
  by (simp add: bit_mask_def)

lemma wf_index: "ba_wf a \<Longrightarrow> int n < Bits a \<Longrightarrow> n div 64 < length (Elems a)"
  by (simp add: ba_wf_def)

lemma and_push_bit_pos: "0 < w AND 2 ^ k \<longleftrightarrow> bit w k" for w :: u64
  by (simp add: bit_iff_and_push_bit_not_eq_0 word_gt_0)

lemma getIndex_int:
  assumes "ba_wf a"
  shows "getIndex (int n) a = Some (n \<in> members a)"
  using wf_index [OF assms, of n] by (auto simp: getIndex_def in_range_def and_push_bit_pos members_def bat_def)

lemma GetIndex_int [simp]: "ba_wf a \<Longrightarrow> GetIndex (int n) (Some a) = Some (n \<in> members a)"
  by (simp add: GetIndex_def getIndex_int)

lemma bat_update:
  assumes "n div 64 < length es"
  shows "bat (es[n div 64 := es ! (n div 64) OR 2 ^ (n mod 64)]) m \<longleftrightarrow> m = n \<or> bat es m"
    "bat (es[n div 64 := es ! (n div 64) AND NOT (2 ^ (n mod 64))]) m \<longleftrightarrow> m \<noteq> n \<and> bat es m"
proof -
  have eq: "m = n \<longleftrightarrow> m div 64 = n div 64 \<and> m mod 64 = n mod 64"
    by (metis div_mod_decomp)
  show "bat (es[n div 64 := es ! (n div 64) OR 2 ^ (n mod 64)]) m \<longleftrightarrow> m = n \<or> bat es m"
    "bat (es[n div 64 := es ! (n div 64) AND NOT (2 ^ (n mod 64))]) m \<longleftrightarrow> m \<noteq> n \<and> bat es m"
    using assms unfolding eq by (auto simp: bat_def nth_list_update bit_simps)
qed

lemma setIndex_int:
  assumes "ba_wf a" "int n < Bits a"
  obtains a' where "setIndex (int n) v a = Some (True, a')" "Bits a' = Bits a" "length (Elems a') = length (Elems a)"
    "\<And>m. bat (Elems a') m \<longleftrightarrow> (if m = n then v else bat (Elems a) m)"
proof -
  have n: "n div 64 < length (Elems a)" by (rule wf_index [OF assms])
  show ?thesis
    by (rule that [of "a\<lparr>Elems := (Elems a)[n div 64 := (if v then Elems a ! (n div 64) OR 2 ^ (n mod 64)
                                                     else Elems a ! (n div 64) AND NOT (2 ^ (n mod 64)))]\<rparr>"])
      (use assms n in \<open>auto simp: setIndex_def in_range_def bat_update Let_def\<close>)
qed

lemma setIndex_outside: "Bits a \<le> i \<Longrightarrow> setIndex i v a = Some (False, a)"
  by (simp add: setIndex_def)

text \<open>C13. Setting a bit: inside the array the call succeeds, sets exactly that bit and keeps the
  shape of the array and the cleanliness of its last word; outside it reports failure and changes
  nothing. Reading an index gives the membership in the set of ones, and never panics.\<close>

theorem SetIndex_correct:
  assumes "ba_wf a"
  shows "\<exists>a'. SetIndex (int n) v (Some a) = Some (int n < Bits a, Some a') \<and> ba_wf a' \<and> Bits a' = Bits a \<and>
    (ba_clean a \<longrightarrow> ba_clean a') \<and>
    (\<forall>m. GetIndex (int m) (Some a') = (if m = n \<and> int n < Bits a then Some v else GetIndex (int m) (Some a)))"
proof (cases "int n < Bits a")
  case True
  obtain a' where a': "setIndex (int n) v a = Some (True, a')" "Bits a' = Bits a" "length (Elems a') = length (Elems a)"
    "\<And>m. bat (Elems a') m \<longleftrightarrow> (if m = n then v else bat (Elems a) m)" using setIndex_int [OF assms True, of v] by blast
  have wf: "ba_wf a'" using assms a'(2,3) by (simp add: ba_wf_def)
  then show ?thesis using a' True assms
    by (auto simp: SetIndex_def members_def ba_clean_def intro!: exI [of _ a'] split: if_splits)
next
  case False
  with assms show ?thesis by (auto simp: SetIndex_def setIndex_outside)
qed

definition sample_ba :: BitArray where
  "sample_ba = \<lparr>Bits = 70, Elems = [5, 32]\<rparr>"

lemma sample_ba_wf: "ba_wf sample_ba"
  by (simp add: ba_wf_def sample_ba_def)

theorem SetIndex_correct_witness:
  "\<exists>a'. SetIndex 66 True (Some sample_ba) = Some (True, Some a') \<and> ba_wf a'"
  using SetIndex_correct [OF sample_ba_wf, of 66 True] by (auto simp: sample_ba_def)

section \<open>Set operations\<close>

lemma zip_loop_Some:
  "length cs \<le> length xs \<Longrightarrow> \<exists>es. zip_loop f cs xs = Some es \<and> length es = length cs \<and>
     (\<forall>i < length cs. es ! i = f (cs ! i) (xs ! i))"
proof (induction cs arbitrary: xs)
  case (Cons c cs)
  then obtain x xs' where xs: "xs = x # xs'" "length cs \<le> length xs'" by (cases xs) auto
  from Cons.IH [OF xs(2)] show ?case by (auto simp: xs(1) less_Suc_eq_0_disj)
qed simp

lemma zip_loop_None: "length xs < length cs \<Longrightarrow> zip_loop f cs xs = None"
proof (induction cs arbitrary: xs)
  case (Cons c cs)
  then show ?case by (cases xs) auto
qed simp

lemma Bits_copyBits [simp]: "Bits (copyBits n a) = n"
  by (simp add: copyBits_def Let_def)

lemma length_copyBits: "length (Elems (copyBits n a)) = nat ((n + 63) div 64)"
  by (simp add: copyBits_def Let_def)

lemma copyBits_nth:
  "i < nat ((n + 63) div 64) \<Longrightarrow> Elems (copyBits n a) ! i = (if i < length (Elems a) then Elems a ! i else 0)"
  by (simp add: copyBits_def Let_def nth_append)

lemma words_mono: "m \<le> n \<Longrightarrow> nat ((m + 63) div 64) \<le> nat ((n + 63) div 64)" for m n :: int
  by (intro nat_mono zdiv_mono1) simp_all

lemma ba_and_correct:
  assumes "ba_wf a" "ba_wf b"
  shows "\<exists>c. ba_and a b = Some c \<and> ba_wf c \<and> Bits c = min (Bits a) (Bits b) \<and> members c = members a \<inter> members b \<and>
    (\<forall>n. bat (Elems c) n \<longrightarrow> bat (Elems a) n \<and> bat (Elems b) n)"
proof -
  define m where "m = MinInt (Bits a) (Bits b)"
  have m: "m = min (Bits a) (Bits b)" by (simp add: m_def MinInt_def)
  let ?w = "nat ((m + 63) div 64)"
  have w: "?w \<le> length (Elems a)" "?w \<le> length (Elems b)"
    using assms words_mono [of m "Bits a"] words_mono [of m "Bits b"] by (simp_all add: ba_wf_def m)
  obtain es where es: "zip_loop (AND) (Elems (copyBits m a)) (Elems b) = Some es" "length es = ?w"
      "\<forall>i < ?w. es ! i = Elems a ! i AND Elems b ! i"
    using zip_loop_Some [of "Elems (copyBits m a)" "Elems b" "(AND)"] w
    by (auto simp: length_copyBits copyBits_nth)
  have bat: "bat es n \<longleftrightarrow> n div 64 < ?w \<and> bat (Elems a) n \<and> bat (Elems b) n" for n
    using es(2,3) w by (auto simp: bat_def bit_and_iff)
  have in_w: "n div 64 < ?w" if "int n < m" for n using that by simp
  let ?c = "(copyBits m a)\<lparr>Elems := es\<rparr>"
  have c: "Bits ?c = m" "Elems ?c = es" by simp_all
  have "ba_and a b = Some ?c" using es(1) by (simp add: ba_and_def Let_def m_def)
  moreover have "ba_wf ?c" using assms es(2) by (simp add: ba_wf_def c m)
  moreover have "members ?c = members a \<inter> members b" using in_w by (auto simp: members_def c bat m)
  ultimately show ?thesis using c m bat by auto
qed

lemma ba_or_correct:
  assumes "ba_clean a" "ba_clean b"
  shows "if length (Elems b) < length (Elems a) then ba_Or (Some a) (Some b) = None
    else \<exists>c. ba_Or (Some a) (Some b) = Some (Some c) \<and> ba_clean c \<and> Bits c = max (Bits a) (Bits b) \<and>
      members c = members a \<union> members b"
proof -
  define m where "m = MaxInt (Bits a) (Bits b)"
  have m: "m = max (Bits a) (Bits b)" by (simp add: m_def MaxInt_def)
  let ?w = "nat ((m + 63) div 64)"
  have wf: "ba_wf a" "ba_wf b" using assms by (simp_all add: ba_clean_def)
  have w: "length (Elems a) \<le> ?w" "length (Elems b) \<le> ?w" "?w = max (length (Elems a)) (length (Elems b))"
    using wf words_mono [of "Bits a" m] words_mono [of "Bits b" m] by (auto simp: ba_wf_def m max_def)
  let ?c = "copyBits m a"
  show ?thesis
  proof (cases "length (Elems b) < length (Elems a)")
    case True
    then have "zip_loop (OR) (Elems ?c) (Elems b) = None"
      using w by (intro zip_loop_None) (simp add: length_copyBits)
    with True show ?thesis by (simp add: ba_Or_def Let_def m_def)
  next
    case False
    with w have lb: "?w = length (Elems b)" by simp
    obtain es where es: "zip_loop (OR) (Elems ?c) (Elems b) = Some es" "length es = ?w"
        "\<forall>i < ?w. es ! i = (if i < length (Elems a) then Elems a ! i else 0) OR Elems b ! i"
      using zip_loop_Some [of "Elems ?c" "Elems b" "(OR)"] lb
      by (auto simp: length_copyBits copyBits_nth)
    have bat: "bat es n \<longleftrightarrow> bat (Elems a) n \<or> bat (Elems b) n" for n
      using es(2,3) w lb by (auto simp: bat_def bit_or_iff split: if_splits)
    let ?r = "?c\<lparr>Elems := es\<rparr>"
    have r: "Bits ?r = m" "Elems ?r = es" by simp_all
    have "ba_Or (Some a) (Some b) = Some (Some ?r)" using es(1) by (simp add: ba_Or_def Let_def m_def)
    moreover have "ba_wf ?r" using wf es(2) by (simp add: ba_wf_def m less_max_iff_disj)
    moreover from this have "ba_clean ?r"
      using assms by (auto simp: ba_clean_def m bat less_max_iff_disj)
    moreover have "members ?r = members a \<union> members b"
      using assms by (auto simp: members_def m bat ba_clean_def less_max_iff_disj)
    ultimately show ?thesis using False m by auto
  qed
qed

lemma ba_not_correct:
  assumes "ba_wf a"
  shows "\<exists>c. ba_Not (Some a) = Some c \<and> ba_wf c \<and> Bits c = Bits a \<and> members c = {n. int n < Bits a} - members a"
proof -
  let ?c = "(ba_copy a)\<lparr>Elems := map NOT (Elems a)\<rparr>"
  have "bat (map NOT (Elems a)) n \<longleftrightarrow> n div 64 < length (Elems a) \<and> \<not> bat (Elems a) n" for n
    by (auto simp: bat_def bit_not_iff)
  then have "members ?c = {n. int n < Bits a} - members a"
    using wf_index [OF assms] by (auto simp: members_def ba_copy_def)
  moreover have "ba_wf ?c" using assms by (simp add: ba_wf_def ba_copy_def)
  ultimately show ?thesis by (auto simp: ba_Not_def ba_copy_def)
qed

subsection \<open>Differences\<close>

lemma sub_words_nth:
  "n \<le> length c \<Longrightarrow> length (sub_words n c) = length c \<and> (\<forall>i < length c. sub_words n c ! i = (if i < n then 0 else c ! i))"
  by (induction n) (auto simp: nth_list_update less_Suc_eq)

lemma bat_sub_words:
  assumes "k \<le> length c"
  shows "bat (sub_words k c) n \<longleftrightarrow> 64 * k \<le> n \<and> bat c n"
proof (cases "n div 64 < length c")
  case True
  then have "sub_words k c ! (n div 64) = (if n div 64 < k then 0 else c ! (n div 64))" "length (sub_words k c) = length c"
    using sub_words_nth [OF assms] by blast+
  moreover have "n div 64 < k \<longleftrightarrow> \<not> 64 * k \<le> n" by linarith
  ultimately show ?thesis by (simp add: bat_def)
qed (use sub_words_nth [OF assms] in \<open>simp add: bat_def\<close>)

lemma sub_bits_correct:
  assumes "ba_wf c" "ba_wf b" "int (i + k) \<le> Bits c"
  shows "\<exists>d. sub_bits k (int i) c b = Some d \<and> ba_wf d \<and> Bits d = Bits c \<and>
    (\<forall>n. bat (Elems d) n \<longleftrightarrow> bat (Elems c) n \<and> (i \<le> n \<and> n < i + k \<longrightarrow> n \<notin> members b))"
  using assms
proof (induction k arbitrary: i c)
  case (Suc k)
  let ?v = "if i \<in> members c then i \<notin> members b else False"
  have i: "int i < Bits c" using Suc.prems(3) by simp
  obtain d where d: "setIndex (int i) ?v c = Some (True, d)" "Bits d = Bits c" "length (Elems d) = length (Elems c)"
    "\<And>n. bat (Elems d) n \<longleftrightarrow> (if n = i then ?v else bat (Elems c) n)"
    using setIndex_int [OF Suc.prems(1) i, of ?v] by blast
  have wf: "ba_wf d" using Suc.prems(1) d(2, 3) by (simp add: ba_wf_def)
  obtain e where e: "sub_bits k (int (Suc i)) d b = Some e" "ba_wf e" "Bits e = Bits d"
    "\<And>n. bat (Elems e) n \<longleftrightarrow> bat (Elems d) n \<and> (Suc i \<le> n \<and> n < Suc i + k \<longrightarrow> n \<notin> members b)"
    using Suc.IH [OF wf Suc.prems(2), of "Suc i"] Suc.prems(3) d(2) by auto
  have 1: "sub_bits (Suc k) (int i) c b = Some e"
    using d(1) e(1) Suc.prems(1, 2) by (auto simp: getIndex_int add.commute)
  have 2: "bat (Elems e) n \<longleftrightarrow> bat (Elems c) n \<and> (i \<le> n \<and> n < i + Suc k \<longrightarrow> n \<notin> members b)" for n
  proof (cases "n = i")
    case True
    have "i \<in> members c \<longleftrightarrow> bat (Elems c) i" using i by (simp add: members_def)
    with True show ?thesis by (simp add: e(4) d(4))
  next
    case False
    then have "Suc i \<le> n \<longleftrightarrow> i \<le> n" by auto
    with False show ?thesis by (simp add: e(4) d(4))
  qed
  show ?case by (rule exI [of _ e]) (simp only: 1 2 e(2, 3) d(2) simp_thms)
qed auto

lemma ba_sub_longer:
  assumes "ba_wf a" "ba_wf b" "Bits b < Bits a"
  shows "\<exists>c. ba_Sub (Some a) (Some b) = Some (Some c) \<and> ba_wf c \<and> Bits c = Bits a \<and>
    members c = {n \<in> members a - members b. 64 * (length (Elems b) - 1) \<le> n} \<and>
    (\<forall>n. bat (Elems c) n \<longrightarrow> bat (Elems a) n)"
proof -
  define k where "k = length (Elems b) - 1"
  have lb: "length (Elems b) = Suc k" "int k * 64 < Bits b" "Bits b \<le> int k * 64 + 64"
    using assms(2) by (auto simp: k_def ba_wf_def)
  have la: "k \<le> length (Elems a)"
    using assms words_mono [of "Bits b" "Bits a"] unfolding k_def ba_wf_def by linarith
  let ?c = "(ba_copy a)\<lparr>Elems := sub_words k (Elems a)\<rparr>"
  have wf: "ba_wf ?c" using assms(1) sub_words_nth [OF la] by (simp add: ba_wf_def ba_copy_def)
  define m where "m = nat (Bits b - int k * 64)"
  have m: "int (k * 64 + m) = Bits b" using lb(2) by (simp add: m_def)
  obtain d where d: "sub_bits m (int (k * 64)) ?c b = Some d" "ba_wf d" "Bits d = Bits a"
    "\<And>n. bat (Elems d) n \<longleftrightarrow> bat (sub_words k (Elems a)) n \<and> (k * 64 \<le> n \<and> n < k * 64 + m \<longrightarrow> n \<notin> members b)"
    using sub_bits_correct [OF wf assms(2), of "k * 64" m] assms(3) m by (auto simp: ba_copy_def)
  have n: "n < k * 64 + m" if "n \<in> members b" for n using that m by (auto simp: members_def)
  have "ba_Sub (Some a) (Some b) = Some (Some d)"
    using assms(3) la lb(1) d(1) by (auto simp: ba_Sub_def Let_def ba_copy_def m_def)
  moreover have "members d = {n \<in> members a - members b. 64 * k \<le> n}"
    using n by (auto simp: members_def d(3, 4) bat_sub_words [OF la])
  ultimately show ?thesis using d bat_sub_words [OF la] unfolding k_def [symmetric] by blast
qed

lemma ba_sub_correct:
  assumes "ba_clean a" "ba_clean b"
  shows "\<exists>c. ba_Sub (Some a) (Some b) = Some (Some c) \<and> ba_clean c \<and> Bits c = Bits a \<and>
    members c = (if Bits a \<le> Bits b then members a - members b
      else {n \<in> members a - members b. 64 * (length (Elems b) - 1) \<le> n})"
proof (cases "Bits a \<le> Bits b")
  case le: True
  have wf: "ba_wf a" "ba_wf b" using assms by (simp_all add: ba_clean_def)
  obtain nb where nb: "ba_Not (Some b) = Some nb" "ba_wf nb" "Bits nb = Bits b" "members nb = {n. int n < Bits b} - members b"
    using ba_not_correct [OF wf(2)] by blast
  obtain d where d: "ba_and a nb = Some d" "ba_wf d" "Bits d = min (Bits a) (Bits nb)" "members d = members a \<inter> members nb"
    "\<forall>n. bat (Elems d) n \<longrightarrow> bat (Elems a) n" using ba_and_correct [OF wf(1) nb(2)] by blast
  have "members a \<subseteq> {n. int n < Bits b}" using le by (auto simp: members_def)
  then have "members d = members a - members b" unfolding d(4) nb(4) by blast
  moreover have "ba_Sub (Some a) (Some b) = Some (Some d)" using le d(1) nb(1) by (simp add: ba_Sub_def)
  moreover have "Bits d = Bits a" using d(3) nb(3) le by simp
  moreover from this have "ba_clean d" using d(2, 5) assms(1) by (simp add: ba_clean_def)
  ultimately show ?thesis using le by auto
next
  case False
  then obtain c where "ba_Sub (Some a) (Some b) = Some (Some c)" "ba_wf c" "Bits c = Bits a"
    "members c = {n \<in> members a - members b. 64 * (length (Elems b) - 1) \<le> n}" "\<forall>n. bat (Elems c) n \<longrightarrow> bat (Elems a) n"
    using ba_sub_longer [of a b] assms by (auto simp: ba_clean_def)
  moreover from this have "ba_clean c" using assms(1) by (simp add: ba_clean_def)
  ultimately show ?thesis using False by auto
qed

subsection \<open>All four operations\<close>

text \<open>C16. \<open>And\<close> and \<open>Not\<close> are intersection and complement of the sets of ones, with the sizes the
  comments promise. \<open>Or\<close> is the union, and panics exactly when the other array has fewer words. \<open>Sub\<close>
  is the difference when the array is not longer than the other. When it is longer, the ones of the
  words before the last word of the other array are lost, whatever the other array holds there, and the
  rest is the difference. \<open>And\<close>, \<open>Or\<close> and \<open>Sub\<close> keep the unused bits of the last word clean.\<close>

theorem set_operations:
  assumes "ba_clean a" and "ba_clean b"
  shows "(\<exists>c. ba_And (Some a) (Some b) = Some (Some c) \<and> ba_clean c \<and> Bits c = min (Bits a) (Bits b) \<and>
        members c = members a \<inter> members b) \<and>
    (if length (Elems b) < length (Elems a) then ba_Or (Some a) (Some b) = None
     else \<exists>c. ba_Or (Some a) (Some b) = Some (Some c) \<and> ba_clean c \<and> Bits c = max (Bits a) (Bits b) \<and>
       members c = members a \<union> members b) \<and>
    (\<exists>c. ba_Not (Some a) = Some c \<and> Bits c = Bits a \<and> members c = {n. int n < Bits a} - members a) \<and>
    (\<exists>c. ba_Sub (Some a) (Some b) = Some (Some c) \<and> ba_clean c \<and> Bits c = Bits a \<and>
       members c = (if Bits a \<le> Bits b then members a - members b
         else {n \<in> members a - members b. 64 * (length (Elems b) - 1) \<le> n}))"
proof (intro conjI)
  have wf: "ba_wf a" "ba_wf b" using assms by (simp_all add: ba_clean_def)
  obtain c where c: "ba_and a b = Some c" "ba_wf c" "Bits c = min (Bits a) (Bits b)" "members c = members a \<inter> members b"
    "\<forall>n. bat (Elems c) n \<longrightarrow> bat (Elems a) n \<and> bat (Elems b) n" using ba_and_correct [OF wf] by blast
  then have "ba_clean c" using assms by (auto simp: ba_clean_def)
  with c show "\<exists>c. ba_And (Some a) (Some b) = Some (Some c) \<and> ba_clean c \<and> Bits c = min (Bits a) (Bits b) \<and>
        members c = members a \<inter> members b" by (auto simp: ba_And_def)
  show "if length (Elems b) < length (Elems a) then ba_Or (Some a) (Some b) = None
    else \<exists>c. ba_Or (Some a) (Some b) = Some (Some c) \<and> ba_clean c \<and> Bits c = max (Bits a) (Bits b) \<and>
      members c = members a \<union> members b" by (rule ba_or_correct [OF assms])
  show "\<exists>c. ba_Not (Some a) = Some c \<and> Bits c = Bits a \<and> members c = {n. int n < Bits a} - members a"
    using ba_not_correct [OF wf(1)] by blast
qed (rule ba_sub_correct [OF assms])

lemma sample_ba_clean: "ba_clean sample_ba"
proof -
  have "int n < 70" if "bat [5, 32] n" for n
  proof (rule ccontr)
    assume "\<not> int n < 70"
    then have n: "70 \<le> n" by simp
    from that have "n div 64 < 2" by (simp add: bat_def)
    with n have d1: "n div 64 = 1" by linarith
    with n have d2: "6 \<le> n mod 64" using div_mult_mod_eq [of n 64] by linarith
    from d1 that have "bit (32 :: u64) (n mod 64)" by (simp add: bat_def)
    then have "n mod 64 = 5" using bit_exp_iff [where 'a = "64 word", of 5 "n mod 64"] by simp
    with d2 show False by simp
  qed
  then show ?thesis using sample_ba_wf by (simp add: ba_clean_def sample_ba_def)
qed

theorem set_operations_witness:
  "\<exists>c. ba_Or (Some sample_ba) (Some sample_ba) = Some (Some c) \<and> ba_clean c"
  using set_operations [OF sample_ba_clean sample_ba_clean] by (simp only: less_irrefl if_False) blast

section \<open>Emptiness and fullness\<close>

lemma ex_bat: "(\<exists>n. bat es n) \<longleftrightarrow> (\<exists>e \<in> set es. e \<noteq> 0)"
proof
  assume "\<exists>n. bat es n"
  then obtain n where n: "n div 64 < length es" "bit (es ! (n div 64)) (n mod 64)" by (auto simp: bat_def)
  then have "es ! (n div 64) \<noteq> 0" by auto
  with n(1) show "\<exists>e \<in> set es. e \<noteq> 0" by (meson nth_mem)
next
  assume "\<exists>e \<in> set es. e \<noteq> 0"
  then obtain i where i: "i < length es" "es ! i \<noteq> 0" by (auto simp: in_set_conv_nth)
  then obtain k where k: "bit (es ! i) k" by (auto simp: bit_eq_iff)
  then have "k < 64" by (auto dest: bit_imp_le_length)
  with i k have "bat es (i * 64 + k)" by (simp add: bat_def)
  then show "\<exists>n. bat es n" ..
qed

lemma all_ones: "w = - 1 \<longleftrightarrow> (\<forall>k < 64. bit w k)" for w :: u64
  by (auto simp: bit_eq_iff)

lemma not_eq_0: "NOT w = 0 \<longleftrightarrow> w = - 1" for w :: u64
  by (auto simp: bit_eq_iff bit_not_iff)

lemma low_ones:
  assumes "0 < k" "k \<le> 64"
  shows "((w :: u64) + 1) AND (push_bit k 1 - 1) = 0 \<longleftrightarrow> (\<forall>j < k. bit w j)"
proof -
  have m: "push_bit k 1 - 1 = (mask k :: u64)" by (simp add: mask_eq_decr_exp)
  have dvd: "(2 :: nat) ^ k dvd 2 ^ 64" using assms(2) by (rule le_imp_power_dvd)
  have "(w + 1) AND mask k = 0 \<longleftrightarrow> unat (take_bit k (w + 1)) = 0"
    by (simp add: take_bit_eq_mask unat_eq_zero)
  also have "\<dots> \<longleftrightarrow> (unat w + 1) mod 2 ^ k = 0"
  proof -
    have "unat (take_bit k (w + 1)) = unat (w + 1) mod 2 ^ k"
      by (simp only: unsigned_take_bit_eq) (simp add: take_bit_eq_mod)
    also have "\<dots> = (unat w + 1) mod 2 ^ k"
      using dvd by (simp add: unat_word_ariths(1) mod_mod_cancel)
    finally show ?thesis by simp
  qed
  also have "\<dots> \<longleftrightarrow> unat w mod 2 ^ k = 2 ^ k - 1"
    by (auto simp: mod_Suc)
  also have "\<dots> \<longleftrightarrow> take_bit k (unat w) = mask k"
    by (simp add: take_bit_eq_mod mask_eq_exp_minus_1)
  also have "\<dots> \<longleftrightarrow> (\<forall>j < k. bit w j)"
    using assms by (auto simp: bit_eq_iff bit_simps)
  finally show ?thesis by (simp only: m)
qed

lemma last_word:
  assumes "ba_wf a"
  shows "Elems a \<noteq> []" "0 < nat ((Bits a + 63) mod 64 + 1)" "nat ((Bits a + 63) mod 64 + 1) \<le> 64"
    "nat (Bits a) = 64 * (length (Elems a) - 1) + nat ((Bits a + 63) mod 64 + 1)"
proof -
  have p: "0 < Bits a" "length (Elems a) = nat ((Bits a + 63) div 64)" using assms by (auto simp: ba_wf_def)
  define q r where "q = (Bits a + 63) div 64" and "r = (Bits a + 63) mod 64"
  have d: "1 \<le> q" using p(1) by (simp add: q_def)
  have m: "Bits a + 63 = 64 * q + r" by (simp add: q_def r_def)
  have l: "0 \<le> r" "r < 64" by (simp_all add: r_def)
  have len: "length (Elems a) = nat q" using p(2) by (simp add: q_def)
  show "Elems a \<noteq> []" using len d by auto
  show "0 < nat ((Bits a + 63) mod 64 + 1)" "nat ((Bits a + 63) mod 64 + 1) \<le> 64"
    using l by (simp_all flip: r_def)
  have "Bits a = 64 * (q - 1) + (r + 1)" using m by simp
  then have "nat (Bits a) = nat (64 * (q - 1)) + nat (r + 1)" using d l by (simp only:) (subst nat_add_distrib, simp_all)
  also have "nat (64 * (q - 1)) = 64 * (nat q - 1)" using d by (subst nat_mult_distrib) (simp_all add: nat_diff_distrib)
  finally show "nat (Bits a) = 64 * (length (Elems a) - 1) + nat ((Bits a + 63) mod 64 + 1)"
    by (simp add: len flip: r_def)
qed

lemma IsFull_members:
  assumes "ba_wf a"
  shows "ba_IsFull (Some a) = Some (members a = {n. int n < Bits a})"
proof -
  let ?l = "nat ((Bits a + 63) mod 64 + 1)" and ?k = "length (Elems a) - 1"
  note w = last_word [OF assms]
  have full: "members a = {n. int n < Bits a} \<longleftrightarrow> (\<forall>n < nat (Bits a). bat (Elems a) n)"
    unfolding members_def set_eq_iff mem_Collect_eq zless_nat_eq_int_zless by blast
  have last: "last (Elems a) = Elems a ! ?k" using w(1) by (rule last_conv_nth)
  have "(\<forall>n < nat (Bits a). bat (Elems a) n) \<longleftrightarrow>
      (\<forall>i < ?k. Elems a ! i = - 1) \<and> (\<forall>j < ?l. bit (last (Elems a)) j)"
  proof (intro iffI conjI allI impI)
    assume all: "\<forall>n < nat (Bits a). bat (Elems a) n"
    show "Elems a ! i = - 1" if "i < ?k" for i
      unfolding all_ones
    proof (intro allI impI)
      fix k :: nat assume k: "k < 64"
      have "i * 64 + k < 64 * ?k" using that k by linarith
      then have "bat (Elems a) (i * 64 + k)" using all w(4) by simp
      then show "bit (Elems a ! i) k" using k by (simp add: bat_def)
    qed
    show "bit (last (Elems a)) j" if "j < ?l" for j
    proof -
      have "bat (Elems a) (?k * 64 + j)" using all w(4) that by simp
      moreover have "j < 64" using that w(3) by linarith
      ultimately show ?thesis by (simp add: bat_def last)
    qed
  next
    fix n assume *: "(\<forall>i < ?k. Elems a ! i = - 1) \<and> (\<forall>j < ?l. bit (last (Elems a)) j)" and n: "n < nat (Bits a)"
    have len: "0 < length (Elems a)" using w(1) by simp
    show "bat (Elems a) n"
    proof (cases "n div 64 < ?k")
      case True
      then show ?thesis using * by (simp add: bat_def)
    next
      case False
      have "n < 64 * ?k + 64" using n w(3,4) by linarith
      then have k: "n div 64 = ?k" using False by linarith
      then have "n mod 64 < ?l" using n w(4) div_mult_mod_eq [of n 64] by linarith
      with * k len show ?thesis by (simp add: bat_def last)
    qed
  qed
  moreover have "list_ex (\<lambda>e. NOT e \<noteq> 0) (butlast (Elems a)) \<longleftrightarrow> \<not> (\<forall>i < ?k. Elems a ! i = - 1)"
  proof -
    have "NOT (butlast (Elems a) ! i) \<noteq> 0 \<longleftrightarrow> Elems a ! i \<noteq> - 1" if "i < ?k" for i
      using that by (simp add: nth_butlast not_eq_0)
    then show ?thesis unfolding list_ex_length length_butlast by blast
  qed
  ultimately show ?thesis
    using low_ones [OF w(2,3), of "last (Elems a)"] w(1)
    by (simp add: ba_IsFull_def Let_def full del: push_bit_of_1)
qed

lemma IsEmpty_Not:
  assumes "ba_clean a"
  shows "ba_IsEmpty (ba_Not (Some a)) \<longleftrightarrow> Bits a mod 64 = 0 \<and> members a = {n. int n < Bits a}"
proof -
  let ?l = "length (Elems a)"
  have l: "0 < Bits a" "Bits a \<le> 64 * int ?l" "64 * int ?l < Bits a + 64" using assms by (auto simp: ba_clean_def ba_wf_def)
  have in_l: "n div 64 < ?l \<longleftrightarrow> int n < 64 * int ?l" for n by linarith
  have mem: "members a = {n. bat (Elems a) n}" using assms by (auto simp: members_def ba_clean_def)
  have "bat (map NOT (Elems a)) n \<longleftrightarrow> n div 64 < ?l \<and> \<not> bat (Elems a) n" for n
    by (auto simp: bat_def bit_not_iff)
  then have "ba_IsEmpty (ba_Not (Some a)) \<longleftrightarrow> (\<forall>n. n div 64 < ?l \<longrightarrow> n \<in> members a)"
    using ex_bat [of "map NOT (Elems a)"] unfolding mem
    by (auto simp: ba_IsEmpty_def ba_Not_def ba_copy_def list_all_iff word_gt_0)
  also have "\<dots> \<longleftrightarrow> Bits a mod 64 = 0 \<and> members a = {n. int n < Bits a}"
  proof
    assume all: "\<forall>n. n div 64 < ?l \<longrightarrow> n \<in> members a"
    have "64 * int ?l \<le> Bits a"
    proof (rule ccontr)
      assume "\<not> 64 * int ?l \<le> Bits a"
      then have "nat (Bits a) div 64 < ?l" using l(1) unfolding in_l by simp
      with all have "nat (Bits a) \<in> members a" by blast
      then show False using l(1) by (simp add: members_def)
    qed
    with l(2) have "Bits a = 64 * int ?l" by simp
    with all show "Bits a mod 64 = 0 \<and> members a = {n. int n < Bits a}" unfolding in_l by (auto simp: members_def)
  next
    assume r: "Bits a mod 64 = 0 \<and> members a = {n. int n < Bits a}"
    then obtain q where "Bits a = 64 * q" by auto
    with l(2, 3) have "Bits a = 64 * int ?l" by simp
    with r show "\<forall>n. n div 64 < ?l \<longrightarrow> n \<in> members a" unfolding in_l by auto
  qed
  finally show ?thesis .
qed

text \<open>C35. \<open>IsEmpty\<close> says whether the array has no ones, for an array with a clean last word;
  \<open>IsFull\<close> says whether all bits are ones, also when the size is a multiple of 64; neither panics. But
  \<open>Not\<close> sets the unused bits of the last word, and \<open>IsEmpty\<close> reads them: the complement of a full
  array is reported as empty exactly when the size is a multiple of 64.\<close>

theorem IsEmpty_IsFull_correct:
  assumes "ba_clean a"
  shows "(ba_IsEmpty (Some a) \<longleftrightarrow> members a = {}) \<and> ba_IsFull (Some a) = Some (members a = {n. int n < Bits a}) \<and>
    (ba_IsEmpty (ba_Not (Some a)) \<longleftrightarrow> Bits a mod 64 = 0 \<and> members a = {n. int n < Bits a})"
proof (intro conjI)
  have "members a = {n. bat (Elems a) n}" using assms by (auto simp: members_def ba_clean_def)
  then show "ba_IsEmpty (Some a) \<longleftrightarrow> members a = {}"
    using ex_bat [of "Elems a"] by (auto simp: ba_IsEmpty_def list_all_iff word_gt_0)
  show "ba_IsFull (Some a) = Some (members a = {n. int n < Bits a})"
    using assms by (intro IsFull_members) (simp add: ba_clean_def)
qed (rule IsEmpty_Not [OF assms])

theorem IsEmpty_IsFull_correct_witness: "\<not> ba_IsEmpty (Some sample_ba) \<and> ba_IsFull (Some sample_ba) = Some False"
proof -
  have 0: "0 \<in> members sample_ba" "1 \<notin> members sample_ba"
    by (simp_all add: members_def bat_def sample_ba_def bit_iff_odd_drop_bit)
  moreover have "1 \<in> {n. int n < Bits sample_ba}" by (simp add: sample_ba_def)
  ultimately have "members sample_ba \<noteq> {}" "(members sample_ba = {n. int n < Bits sample_ba}) = False" by blast+
  with IsEmpty_IsFull_correct [OF sample_ba_clean] show ?thesis by simp
qed

section \<open>Random choice\<close>

lemma pick_bit_cases:
  assumes "0 < bound"
  shows "case pick_bit e bound start j n of
      Some b \<Rightarrow> b < bound \<and> bit e b
    | None \<Rightarrow> (\<forall>i < n. \<not> bit e ((j + i + start) mod bound))"
proof (induction n arbitrary: j)
  case (Suc n)
  show ?case
  proof (cases "bit e ((j + start) mod bound)")
    case True
    with assms show ?thesis by (simp add: Let_def and_push_bit_pos)
  next
    case False
    with Suc [of "j + 1"] show ?thesis
      by (auto simp: Let_def and_push_bit_pos less_Suc_eq_0_disj split: option.splits)
  qed
qed simp

text \<open>One turn around visits every index.\<close>

lemma turn:
  assumes "i < (n :: nat)"
  obtains j where "j < n" "(j + start) mod n = i"
proof
  let ?s = "start mod n"
  show "(i + (n - ?s)) mod n < n" using assms by simp
  have "((i + (n - ?s)) mod n + start) mod n = (i + (n - ?s) + ?s) mod n"
    by (simp add: mod_add_left_eq mod_add_right_eq)
  also have "i + (n - ?s) + ?s = i + n"
    using assms mod_less_divisor [of n start] by linarith
  finally show "((i + (n - ?s)) mod n + start) mod n = i" using assms by simp
qed

lemma pick_bit_all:
  assumes "0 < bound"
  shows "pick_bit e bound start 0 bound = None \<longleftrightarrow> (\<forall>b < bound. \<not> bit e b)"
proof (cases "pick_bit e bound start 0 bound")
  case None
  then have n: "\<forall>i < bound. \<not> bit e ((i + start) mod bound)"
    using pick_bit_cases [OF assms, where e = e and start = start and j = 0 and n = bound] by simp
  have "\<not> bit e b" if "b < bound" for b
    using turn [OF that, of start] n by metis
  with None show ?thesis by simp
next
  case (Some b)
  with pick_bit_cases [OF assms, where e = e and start = start and j = 0 and n = bound] show ?thesis by auto
qed

definition elem_bits :: "BitArray \<Rightarrow> nat \<Rightarrow> nat" where
  "elem_bits a i = (if i < length (Elems a) - 1 then 64 else if Bits a mod 64 = 0 then 64 else nat (Bits a mod 64))"

lemma elem_bits_pos: "0 < elem_bits a i" "elem_bits a i \<le> 64"
proof -
  have "0 \<le> Bits a mod 64" "Bits a mod 64 < 64" by simp_all
  then show "0 < elem_bits a i" "elem_bits a i \<le> 64" by (auto simp: elem_bits_def)
qed

lemma members_elem:
  assumes "ba_wf a"
  shows "n \<in> members a \<longleftrightarrow> n div 64 < length (Elems a) \<and> n mod 64 < elem_bits a (n div 64) \<and> bit (Elems a ! (n div 64)) (n mod 64)"
proof -
  note w = last_word [OF assms]
  have eb: "nat ((Bits a + 63) mod 64 + 1) = (if Bits a mod 64 = 0 then 64 else nat (Bits a mod 64))"
  proof (cases "Bits a mod 64 = 0")
    case True
    then have "(Bits a mod 64 + 63) mod 64 = 63" by simp
    then have "(Bits a + 63) mod 64 = 63" by (simp only: mod_add_left_eq)
    with True show ?thesis by simp
  next
    case False
    have "0 \<le> Bits a mod 64" "Bits a mod 64 < 64" by simp_all
    with False have "0 \<le> Bits a mod 64 - 1" "Bits a mod 64 - 1 < 64" by linarith+
    then have "(Bits a mod 64 - 1 + 64) mod 64 = Bits a mod 64 - 1"
      unfolding mod_add_self2 by (rule mod_pos_pos_trivial)
    then have "(Bits a mod 64 + 63) mod 64 = Bits a mod 64 - 1" by (simp add: algebra_simps)
    then have "(Bits a + 63) mod 64 = Bits a mod 64 - 1" by (simp only: mod_add_left_eq)
    with False show ?thesis by simp
  qed
  have "int n < Bits a \<longleftrightarrow> n < nat (Bits a)" by auto
  moreover have "n < nat (Bits a) \<longleftrightarrow> n mod 64 < elem_bits a (n div 64)" if "n div 64 < length (Elems a)"
  proof (cases "n div 64 < length (Elems a) - 1")
    case True
    then have "n < 64 * (length (Elems a) - 1)" by linarith
    with True w(4) show ?thesis by (simp add: elem_bits_def)
  next
    case False
    with that have k: "n div 64 = length (Elems a) - 1" by linarith
    have n: "n = 64 * (length (Elems a) - 1) + n mod 64" using div_mult_mod_eq [of n 64] unfolding k by linarith
    have e: "elem_bits a (n div 64) = nat ((Bits a + 63) mod 64 + 1)" unfolding elem_bits_def k eb by simp
    show ?thesis unfolding w(4) e using n by linarith
  qed
  ultimately show ?thesis by (auto simp: members_def bat_def)
qed

definition elem_empty :: "BitArray \<Rightarrow> nat \<Rightarrow> bool" where
  "elem_empty a k \<longleftrightarrow> (\<forall>b < elem_bits a k. \<not> bit (Elems a ! k) b)"

text \<open>Whether the word is compared with zero first or not, an element gives a bit or is empty.\<close>

lemma pick_elem_Suc:
  assumes "ba_wf a" "k = (i + start) mod length (Elems a)"
  shows "(\<exists>b < elem_bits a k. bit (Elems a ! k) b \<and> pick_elem rnd a start i (Suc n) = Picked (64 * int k + int b)) \<or>
    elem_empty a k \<and> pick_elem rnd a start i (Suc n) = pick_elem rnd a start (i + 1) n"
proof -
  let ?e = "Elems a ! k" and ?p = "pick_bit (Elems a ! k) (elem_bits a k) (rnd i (elem_bits a k)) 0 (elem_bits a k)"
  have z: "\<exists>b < 64. bit ?e b" if "?e \<noteq> 0"
    using that by (auto simp: bit_eq_iff)
  show ?thesis
  proof (cases ?p)
    case None
    then have em: "elem_empty a k" using pick_bit_all [OF elem_bits_pos(1)] by (simp add: elem_empty_def)
    have "\<not> 0 < ?e" if "k < length (Elems a) - 1"
      using z em that by (auto simp: elem_empty_def elem_bits_def word_gt_0)
    with None em show ?thesis
      by (cases "k < length (Elems a) - 1") (simp_all add: Let_def elem_bits_def flip: assms(2))
  next
    case (Some b)
    then have b: "b < elem_bits a k" "bit ?e b"
      using pick_bit_cases [OF elem_bits_pos(1) [of a k], where e = ?e and start = "rnd i (elem_bits a k)" and j = 0 and n = "elem_bits a k"]
      by simp_all
    then have "0 < ?e" by (auto simp: word_gt_0)
    with Some have "pick_elem rnd a start i (Suc n) = Picked (64 * int k + int b)"
      by (cases "k < length (Elems a) - 1") (simp_all add: Let_def elem_bits_def flip: assms(2))
    with b show ?thesis by blast
  qed
qed

lemma pick_elem_cases:
  assumes "ba_wf a"
  shows "(\<exists>m \<in> members a. pick_elem rnd a start i n = Picked (int m)) \<or>
    (\<forall>j < n. elem_empty a ((i + j + start) mod length (Elems a))) \<and> pick_elem rnd a start i n = NoneSet"
proof (induction n arbitrary: i)
  case (Suc n)
  define k where "k = (i + start) mod length (Elems a)"
  have len: "0 < length (Elems a)" using last_word(1) [OF assms] by simp
  consider b where "b < elem_bits a k" "bit (Elems a ! k) b" "pick_elem rnd a start i (Suc n) = Picked (64 * int k + int b)"
    | "elem_empty a k" "pick_elem rnd a start i (Suc n) = pick_elem rnd a start (i + 1) n"
    using pick_elem_Suc [OF assms k_def] by blast
  then show ?case
  proof cases
    case 1
    have k: "k < length (Elems a)" using len by (simp add: k_def)
    have b: "b < 64" using 1(1) elem_bits_pos(2) [of a k] by linarith
    have "64 * k + b \<in> members a" unfolding members_elem [OF assms] using 1(1,2) b k by simp
    with 1(3) show ?thesis by (metis of_nat_add of_nat_mult of_nat_numeral)
  next
    case 2
    have "elem_empty a ((i + j + start) mod length (Elems a))"
      if "\<forall>j < n. elem_empty a ((i + 1 + j + start) mod length (Elems a))" "j < Suc n" for j
      using that 2(1) by (cases j) (auto simp: k_def)
    with Suc [of "i + 1"] 2(2) show ?thesis by metis
  qed
qed simp

text \<open>C26. \<open>PickRandom\<close> returns an index whose bit is one, whatever random numbers it draws, when
  there is one, and reports that there is none otherwise; the panic of its inner loop is not reached,
  and unused bits of the last word are never picked.\<close>

theorem PickRandom_correct:
  assumes "ba_wf a"
  shows "if members a = {} then PickRandom start rnd (Some a) = NoneSet
    else \<exists>m \<in> members a. PickRandom start rnd (Some a) = Picked (int m)"
proof -
  let ?n = "length (Elems a)"
  have len: "Elems a \<noteq> []" by (rule last_word(1) [OF assms])
  then have p: "PickRandom start rnd (Some a) = pick_elem rnd a start 0 ?n" by (simp add: PickRandom_def)
  consider m where "m \<in> members a" "pick_elem rnd a start 0 ?n = Picked (int m)"
    | "\<forall>j < ?n. elem_empty a ((j + start) mod ?n)" "pick_elem rnd a start 0 ?n = NoneSet"
    using pick_elem_cases [OF assms, of rnd start 0 ?n] by auto
  then show ?thesis
  proof cases
    case 1
    then show ?thesis using p by auto
  next
    case 2
    have "elem_empty a k" if "k < ?n" for k using turn [OF that, of start] 2(1) by metis
    then have "members a = {}" unfolding set_eq_iff members_elem [OF assms] elem_empty_def by auto
    with p 2(2) show ?thesis by simp
  qed
qed

theorem PickRandom_correct_witness: "\<exists>m \<in> members sample_ba. PickRandom 1 (\<lambda>_ _. 3) (Some sample_ba) = Picked (int m)"
proof -
  have "0 \<in> members sample_ba" by (simp add: members_def bat_def sample_ba_def)
  then have "(members sample_ba = {}) = False" by blast
  with PickRandom_correct [OF sample_ba_wf, of 1 "\<lambda>_ _. 3"] show ?thesis by simp
qed

section \<open>Bytes\<close>

lemma length_PutUint64LE [simp]: "length (PutUint64LE e) = 8"
  by (simp add: PutUint64LE_def)

lemma copy_from_nth:
  assumes "k \<le> length dst"
  shows "\<exists>r. copy_from k src dst = Some r \<and> length r = length dst \<and>
    (\<forall>j < length dst. r ! j = (if k \<le> j \<and> j < k + length src then src ! (j - k) else dst ! j))"
  using assms by (auto simp: copy_from_def nth_append min_def)

lemma bytes_loop_nth:
  assumes "\<forall>k < length es. (i + k) * 8 \<le> length bs"
  shows "\<exists>r. bytes_loop i es bs = Some r \<and> length r = length bs \<and>
    (\<forall>j < length bs. r ! j =
       (if i * 8 \<le> j \<and> j < (i + length es) * 8 then PutUint64LE (es ! (j div 8 - i)) ! (j mod 8) else bs ! j))"
  using assms
proof (induction es arbitrary: i bs)
  case (Cons e es)
  have "i * 8 \<le> length bs" using Cons.prems by force
  then obtain b1 where b1: "copy_from (i * 8) (PutUint64LE e) bs = Some b1" "length b1 = length bs"
      "\<forall>j < length bs. b1 ! j = (if i * 8 \<le> j \<and> j < i * 8 + 8 then PutUint64LE e ! (j - i * 8) else bs ! j)"
    using copy_from_nth [of "i * 8" bs "PutUint64LE e"] by auto
  have "\<forall>k < length es. (i + 1 + k) * 8 \<le> length b1"
    using Cons.prems b1(2) by (metis add.assoc add.commute length_Cons not_less_eq plus_1_eq_Suc)
  then obtain r where r: "bytes_loop (i + 1) es b1 = Some r" "length r = length b1"
      "\<forall>j < length b1. r ! j =
        (if (i + 1) * 8 \<le> j \<and> j < (i + 1 + length es) * 8 then PutUint64LE (es ! (j div 8 - (i + 1))) ! (j mod 8) else b1 ! j)"
    using Cons.IH [of "i + 1" b1] by blast
  have "r ! j = (if i * 8 \<le> j \<and> j < (i + length (e # es)) * 8 then PutUint64LE ((e # es) ! (j div 8 - i)) ! (j mod 8) else bs ! j)"
    if j: "j < length bs" for j
  proof -
    consider "j < i * 8" | "i * 8 \<le> j" "j < i * 8 + 8" | "(i + 1) * 8 \<le> j" "j < (i + 1 + length es) * 8" | "(i + 1 + length es) * 8 \<le> j"
      by fastforce
    then show ?thesis
    proof cases
      case 2
      then have d: "j div 8 = i" by (simp add: div_nat_eqI)
      moreover have "j mod 8 = j - i * 8" unfolding modulo_nat_def d by simp
      ultimately show ?thesis using 2 r(3) b1(2,3) j by simp
    next
      case 3
      then have "i + 1 \<le> j div 8" by (simp add: less_eq_div_iff_mult_less_eq)
      then have "j div 8 - i = Suc (j div 8 - (i + 1))" by simp
      with 3 r(3) b1(2) j show ?thesis by simp
    qed (use r(3) b1(2,3) j in simp_all)
  qed
  with b1 r show ?case by auto
qed auto

text \<open>C36. \<open>Bytes\<close> does not panic and packs the bits in order: bit \<open>n\<close> of the array is bit
  \<open>n mod 8\<close> of byte \<open>n div 8\<close>, in as many bytes as the size needs.\<close>

theorem Bytes_correct:
  assumes "ba_wf a"
  shows "\<exists>bs. ba_Bytes a = Some bs \<and> length bs = nat ((Bits a + 7) div 8) \<and>
    (\<forall>n. int n < Bits a \<longrightarrow> (bit (bs ! (n div 8)) (n mod 8) \<longleftrightarrow> n \<in> members a))"
proof -
  let ?L = "nat ((Bits a + 7) div 8)"
  have "\<forall>k < length (Elems a). (0 + k) * 8 \<le> length (replicate ?L (0 :: byte))"
  proof (intro allI impI)
    fix k assume "k < length (Elems a)"
    then have "64 * k \<le> nat (Bits a)" using last_word [OF assms] by linarith
    then show "(0 + k) * 8 \<le> length (replicate ?L (0 :: byte))" by simp
  qed
  from bytes_loop_nth [OF this] obtain bs where bs: "ba_Bytes a = Some bs" "length bs = ?L"
      "\<forall>j < ?L. bs ! j = (if j < length (Elems a) * 8 then PutUint64LE (Elems a ! (j div 8)) ! (j mod 8) else 0)"
    by (auto simp: ba_Bytes_def)
  have "bit (bs ! (n div 8)) (n mod 8) \<longleftrightarrow> n \<in> members a" if n: "int n < Bits a" for n
  proof -
    have w: "n div 64 < length (Elems a)" by (rule wf_index [OF assms n])
    have d: "n div 8 < ?L" using n by linarith
    have d64: "n div 8 div 8 = n div 64" by (simp add: div_mult2_eq [symmetric])
    have "n div 8 < length (Elems a) * 8" using w by linarith
    then have "bs ! (n div 8) = ucast (drop_bit (8 * (n div 8 mod 8)) (Elems a ! (n div 64)))"
      using bs(3) d by (simp add: d64 PutUint64LE_def)
    moreover have "8 * (n div 8 mod 8) + n mod 8 = n mod 64" by (simp add: mod_mult2_eq [of n 8 8, simplified])
    moreover have "n mod 8 < Suc (Suc (Suc (Suc (Suc (Suc (Suc (Suc 0)))))))" using mod_less_divisor [of 8 n] by linarith
    ultimately have "bit (bs ! (n div 8)) (n mod 8) \<longleftrightarrow> bit (Elems a ! (n div 64)) (n mod 64)"
      by (simp add: bit_simps add.commute)
    then show ?thesis using n w by (simp add: members_def bat_def)
  qed
  with bs show ?thesis by blast
qed

theorem Bytes_correct_witness: "\<exists>bs. ba_Bytes sample_ba = Some bs \<and> length bs = 9 \<and> bit (bs ! 8) 5"
proof -
  have "69 \<in> members sample_ba" by (simp add: members_def bat_def sample_ba_def bit_iff_odd_drop_bit)
  moreover obtain bs where "ba_Bytes sample_ba = Some bs" "length bs = nat ((Bits sample_ba + 7) div 8)"
    and b: "\<forall>n. int n < Bits sample_ba \<longrightarrow> (bit (bs ! (n div 8)) (n mod 8) \<longleftrightarrow> n \<in> members sample_ba)"
    using Bytes_correct [OF sample_ba_wf] by blast
  moreover have "Bits sample_ba = 70" by (simp add: sample_ba_def)
  ultimately show ?thesis using spec [OF b, of 69] by auto
qed

section \<open>JSON\<close>

lemma ba_clean_eqI:
  assumes "ba_clean a" "ba_clean b" "Bits a = Bits b" "members a = members b"
  shows "a = (b :: BitArray)"
proof (rule BitArray.equality)
  have len: "length (Elems a) = length (Elems b)" using assms by (simp add: ba_clean_def ba_wf_def)
  have bat: "bat (Elems a) n \<longleftrightarrow> bat (Elems b) n" for n
    using assms by (auto simp: ba_clean_def members_def set_eq_iff)
  show "Elems a = Elems b"
  proof (rule nth_equalityI [OF len])
    fix i assume i: "i < length (Elems a)"
    show "Elems a ! i = Elems b ! i"
    proof (rule bit_word_eqI)
      fix k assume "k < LENGTH(64)"
      then show "bit (Elems a ! i) k \<longleftrightarrow> bit (Elems b ! i) k" using bat [of "i * 64 + k"] i len by (simp add: bat_def)
    qed
  qed
qed (use assms(3) in simp_all)

lemma NewBitArray_clean:
  assumes "0 < n"
  obtains a where "NewBitArray n = Some a" "ba_clean a" "Bits a = n" "members a = {}"
proof (rule that)
  let ?a = "\<lparr>Bits = n, Elems = replicate (nat ((n + 63) div 64)) 0\<rparr>"
  show "NewBitArray n = Some ?a" using assms by (simp add: NewBitArray_def)
  show "ba_clean ?a" "members ?a = {}" using assms by (auto simp: ba_clean_def ba_wf_def bat_def members_def)
qed simp

lemma set_loop_clean:
  assumes "ba_clean a" "int (i + length cs) \<le> Bits a"
  shows "\<exists>r. set_loop cs (int i) (Some a) = Some (Some r) \<and> ba_clean r \<and> Bits r = Bits a \<and>
    members r = members a \<union> {n. i \<le> n \<and> n < i + length cs \<and> cs ! (n - i) = CHR ''x''}"
  using assms
proof (induction cs arbitrary: i a)
  case (Cons c cs)
  have split: "{n. i \<le> n \<and> n < i + length (c # cs) \<and> (c # cs) ! (n - i) = CHR ''x''} =
      (if c = CHR ''x'' then {i} else {}) \<union> {n. Suc i \<le> n \<and> n < Suc i + length cs \<and> cs ! (n - Suc i) = CHR ''x''}"
    by (auto simp: nth_Cons' Suc_diff_Suc split: if_splits)
  obtain a1 where a1: "(if c = CHR ''x'' then SetIndex (int i) True (Some a) else Some (True, Some a)) = Some (True, Some a1)"
      "ba_clean a1" "Bits a1 = Bits a" "members a1 = members a \<union> (if c = CHR ''x'' then {i} else {})"
  proof (cases "c = CHR ''x''")
    case True
    have wf: "ba_wf a" and b: "int i < Bits a" using Cons.prems by (simp_all add: ba_clean_def)
    obtain a1 where a1: "setIndex (int i) True a = Some (True, a1)" "Bits a1 = Bits a" "length (Elems a1) = length (Elems a)"
      "\<And>m. bat (Elems a1) m \<longleftrightarrow> (if m = i then True else bat (Elems a) m)" using setIndex_int [OF wf b] by blast
    have "ba_clean a1" using Cons.prems(1) a1(2-4) b by (auto simp: ba_clean_def ba_wf_def)
    moreover have "members a1 = members a \<union> {i}" using a1(2,4) b by (auto simp: members_def)
    ultimately show ?thesis using that [of a1] a1(1,2) True by (simp add: SetIndex_def)
  next
    case False
    then show ?thesis using that [of a] Cons.prems(1) by simp
  qed
  have "set_loop (c # cs) (int i) (Some a) = set_loop cs (int (Suc i)) (Some a1)"
    using a1(1) by (auto split: if_splits simp: add.commute)
  with Cons.IH [OF a1(2), of "Suc i"] Cons.prems(2) a1(3,4) split show ?case by auto
qed auto

lemma bit_string_map:
  "ba_wf a \<Longrightarrow> bit_string a (int i) n = Some (map (\<lambda>k. if k \<in> members a then CHR ''x'' else CHR ''_'') [i ..< i + n])"
proof (induction n arbitrary: i)
  case (Suc n)
  have "[i ..< i + Suc n] = i # [Suc i ..< Suc i + n]" by (simp add: upt_rec)
  with Suc.IH [of "Suc i"] Suc.prems show ?case by (simp add: bit_char_def getIndex_int add.commute)
qed simp

lemma json_match_quoted:
  "list_all (\<lambda>c. c = CHR ''_'' \<or> c = CHR ''x'') bits \<Longrightarrow> json_match (CHR 0x22 # bits @ [CHR 0x22]) = Some bits"
  by (simp add: json_match_def)

text \<open>C37. JSON: what \<open>MarshalJSON\<close> writes for an array, \<open>UnmarshalJSON\<close> reads back as the same
  array. \<open>UnmarshalJSON\<close> panics on exactly one input, the empty string \<open>""\<close>, for which
  \<open>NewBitArray(0)\<close> returns the nil that is then dereferenced; a string that is not of the format
  is an error.\<close>

theorem JSON_roundtrip:
  assumes "ba_clean a"
  shows "(\<exists>j. ba_MarshalJSON (Some a) = Some j \<and> ba_UnmarshalJSON j = Some (Inr a)) \<and>
    (ba_UnmarshalJSON b = None \<longleftrightarrow> b = [CHR 0x22, CHR 0x22])"
proof
  have wf: "ba_wf a" using assms by (simp add: ba_clean_def)
  then have pos: "0 < Bits a" by (simp add: ba_wf_def)
  let ?bits = "map (\<lambda>k. if k \<in> members a then CHR ''x'' else CHR ''_'') [0 ..< nat (Bits a)]"
  have m: "ba_MarshalJSON (Some a) = Some (CHR 0x22 # ?bits @ [CHR 0x22])"
    using bit_string_map [OF wf, of 0 "nat (Bits a)"] by (simp add: ba_MarshalJSON_def)
  have j: "json_match (CHR 0x22 # ?bits @ [CHR 0x22]) = Some ?bits"
    by (rule json_match_quoted) (auto simp: list_all_iff)
  have len: "int (length ?bits) = Bits a" using pos by simp
  obtain z where z: "NewBitArray (Bits a) = Some z" "ba_clean z" "Bits z = Bits a" "members z = {}"
    using NewBitArray_clean [OF pos] by blast
  obtain r where r: "set_loop ?bits 0 (Some z) = Some (Some r)" "ba_clean r" "Bits r = Bits z"
      "members r = members z \<union> {n. 0 \<le> n \<and> n < 0 + length ?bits \<and> ?bits ! (n - 0) = CHR ''x''}"
    using set_loop_clean [OF z(2), of 0 ?bits] z(3) len by auto
  have "members r = members a" unfolding r(4) z(4) by (auto simp: members_def split: if_splits)
  with r z assms have "r = a" by (intro ba_clean_eqI) simp_all
  moreover have "ba_UnmarshalJSON (CHR 0x22 # ?bits @ [CHR 0x22]) = Some (Inr r)"
    unfolding ba_UnmarshalJSON_def j option.case len z(1) r(1) by simp
  ultimately show "\<exists>j. ba_MarshalJSON (Some a) = Some j \<and> ba_UnmarshalJSON j = Some (Inr a)" using m by blast
next
  show "ba_UnmarshalJSON b = None \<longleftrightarrow> b = [CHR 0x22, CHR 0x22]"
  proof (cases "json_match b")
    case None
    then have "b \<noteq> [CHR 0x22, CHR 0x22]" by (auto simp: json_match_def)
    with None show ?thesis by (simp add: ba_UnmarshalJSON_def)
  next
    case (Some bits)
    then have b: "b = CHR 0x22 # bits @ [CHR 0x22]"
      by (cases b; cases "tl b" rule: rev_cases) (auto simp: json_match_def split: if_splits)
    then have nn: "b \<noteq> ''null''" by auto
    show ?thesis
    proof (cases "bits = []")
      case True
      with Some b show ?thesis by (simp add: ba_UnmarshalJSON_def NewBitArray_def)
    next
      case False
      then obtain z where z: "NewBitArray (int (length bits)) = Some z" "ba_clean z" "Bits z = int (length bits)"
        using NewBitArray_clean [of "int (length bits)"] by auto
      then have "\<exists>r. set_loop bits 0 (Some z) = Some (Some r)" using set_loop_clean [OF z(2), of 0 bits] by auto
      with Some b nn z False show ?thesis by (auto simp: ba_UnmarshalJSON_def)
    qed
  qed
qed

theorem JSON_roundtrip_witness: "\<exists>j. ba_MarshalJSON (Some sample_ba) = Some j \<and> ba_UnmarshalJSON j = Some (Inr sample_ba)"
  using JSON_roundtrip [OF sample_ba_clean] by blast

end
