(* ===== verification/Amino.thy ===== *)
theory Amino
  imports Prelude
begin

text \<open>
  The wire format of \<^verbatim>\<open>src/tendermint/go-amino\<close> below its reflection layer: the encoders
  of \<^verbatim>\<open>encoder.go\<close>, the decoders of \<^verbatim>\<open>decoder.go\<close>, field keys and type
  bytes, the prefix bytes of registered names, and the length framing of \<open>MarshalBinary\<close>,
  \<open>UnmarshalBinary\<close> and \<open>UnmarshalBinaryReader\<close>. The encoding of whole Go values, which
  works by reflection, is a parameter of the framing. A decoder returns its value, the number of
  bytes read and an error, all three, as the code does.
\<close>

section \<open>encoding/binary\<close>

text \<open>The varints of the standard library. \<open>PutUvarint\<close> writes into a buffer of ten bytes, here
  the list of the bytes written.\<close>

function PutUvarint :: "u64 \<Rightarrow> bytes" where
  "PutUvarint x = (if x \<ge> 0x80 then (ucast x OR 0x80) # PutUvarint (drop_bit 7 x) else [ucast x])"
  by pat_completeness auto

termination PutUvarint
proof (relation "measure unat")
  fix x :: u64 assume "x \<ge> 0x80"
  then have "0 < unat x" by (simp add: word_le_nat_alt)
  then show "(drop_bit 7 x, x) \<in> measure unat" by (simp add: drop_bit_eq_div unat_div)
qed simp

declare PutUvarint.simps [simp del]

text \<open>Value and number of bytes; \<open>0\<close> bytes when the input ends too early, a negative number when
  the value overflows 64 bits.\<close>

primrec uvarint_loop :: "nat \<Rightarrow> u64 \<Rightarrow> nat \<Rightarrow> bytes \<Rightarrow> u64 \<times> int" where
  "uvarint_loop i x s [] = (0, 0)"
| "uvarint_loop i x s (b # bs) =
     (if b < 0x80 then
        (if i > 9 \<or> i = 9 \<and> b > 1 then (0, - (int i + 1))
         else (x OR push_bit s (ucast b), int i + 1))
      else uvarint_loop (i + 1) (x OR push_bit s (ucast (b AND 0x7F))) (s + 7) bs)"

definition Uvarint :: "bytes \<Rightarrow> u64 \<times> int" where
  "Uvarint bz = uvarint_loop 0 0 0 bz"

definition PutVarint :: "u64 \<Rightarrow> bytes" where
  "PutVarint x = (let ux = push_bit 1 x in PutUvarint (if x <s 0 then NOT ux else ux))"

definition Varint :: "bytes \<Rightarrow> u64 \<times> int" where
  "Varint bz = (case Uvarint bz of (ux, n) \<Rightarrow>
     (let x = drop_bit 1 ux in (if ux AND 1 \<noteq> 0 then NOT x else x, n)))"

definition PutUint32 :: "u32 \<Rightarrow> bytes" where
  "PutUint32 v = [ucast (drop_bit 24 v), ucast (drop_bit 16 v), ucast (drop_bit 8 v), ucast v]"

definition PutUint64 :: "u64 \<Rightarrow> bytes" where
  "PutUint64 v = [ucast (drop_bit 56 v), ucast (drop_bit 48 v), ucast (drop_bit 40 v), ucast (drop_bit 32 v),
     ucast (drop_bit 24 v), ucast (drop_bit 16 v), ucast (drop_bit 8 v), ucast v]"

definition BE_Uint32 :: "bytes \<Rightarrow> u32" where
  "BE_Uint32 b = ucast (b ! 3) OR push_bit 8 (ucast (b ! 2)) OR push_bit 16 (ucast (b ! 1)) OR push_bit 24 (ucast (b ! 0))"

definition BE_Uint64 :: "bytes \<Rightarrow> u64" where
  "BE_Uint64 b = ucast (b ! 7) OR push_bit 8 (ucast (b ! 6)) OR push_bit 16 (ucast (b ! 5)) OR push_bit 24 (ucast (b ! 4))
     OR push_bit 32 (ucast (b ! 3)) OR push_bit 40 (ucast (b ! 2)) OR push_bit 48 (ucast (b ! 1)) OR push_bit 56 (ucast (b ! 0))"

section \<open>Encoders\<close>

text \<open>A writer takes bytes and its state and returns an error, if any, and its new state.\<close>

type_synonym ('w, 'e) writer = "bytes \<Rightarrow> 'w \<Rightarrow> 'e option \<times> 'w"

definition and_then :: "'e option \<times> 'w \<Rightarrow> ('w \<Rightarrow> 'e option \<times> 'w) \<Rightarrow> 'e option \<times> 'w" where
  "and_then r f = (case r of (None, w) \<Rightarrow> f w | (Some e, w) \<Rightarrow> (Some e, w))"

definition EncodeVarint :: "('w, 'e) writer \<Rightarrow> u64 \<Rightarrow> 'w \<Rightarrow> 'e option \<times> 'w" where
  "EncodeVarint W i w = W (PutVarint i) w"

definition VarintSize :: "u64 \<Rightarrow> nat" where
  "VarintSize i = length (PutVarint i)"

definition EncodeInt8 :: "('w, 'e) writer \<Rightarrow> 8 word \<Rightarrow> 'w \<Rightarrow> 'e option \<times> 'w" where
  "EncodeInt8 W i w = EncodeVarint W (scast i) w"

definition EncodeInt16 :: "('w, 'e) writer \<Rightarrow> 16 word \<Rightarrow> 'w \<Rightarrow> 'e option \<times> 'w" where
  "EncodeInt16 W i w = EncodeVarint W (scast i) w"

definition EncodeInt32 :: "('w, 'e) writer \<Rightarrow> 32 word \<Rightarrow> 'w \<Rightarrow> 'e option \<times> 'w" where
  "EncodeInt32 W i w = W (PutUint32 i) w"

definition EncodeInt64 :: "('w, 'e) writer \<Rightarrow> 64 word \<Rightarrow> 'w \<Rightarrow> 'e option \<times> 'w" where
  "EncodeInt64 W i w = W (PutUint64 i) w"

definition EncodeUvarint :: "('w, 'e) writer \<Rightarrow> u64 \<Rightarrow> 'w \<Rightarrow> 'e option \<times> 'w" where
  "EncodeUvarint W u w = W (PutUvarint u) w"

definition UvarintSize :: "u64 \<Rightarrow> nat" where
  "UvarintSize u = length (PutUvarint u)"

definition EncodeByte :: "('w, 'e) writer \<Rightarrow> byte \<Rightarrow> 'w \<Rightarrow> 'e option \<times> 'w" where
  "EncodeByte W b w = EncodeUvarint W (ucast b) w"

definition EncodeUint8 :: "('w, 'e) writer \<Rightarrow> byte \<Rightarrow> 'w \<Rightarrow> 'e option \<times> 'w" where
  "EncodeUint8 W u w = EncodeUvarint W (ucast u) w"

definition EncodeUint16 :: "('w, 'e) writer \<Rightarrow> u16 \<Rightarrow> 'w \<Rightarrow> 'e option \<times> 'w" where
  "EncodeUint16 W u w = EncodeUvarint W (ucast u) w"

definition EncodeUint32 :: "('w, 'e) writer \<Rightarrow> u32 \<Rightarrow> 'w \<Rightarrow> 'e option \<times> 'w" where
  "EncodeUint32 W u w = W (PutUint32 u) w"

definition EncodeUint64 :: "('w, 'e) writer \<Rightarrow> u64 \<Rightarrow> 'w \<Rightarrow> 'e option \<times> 'w" where
  "EncodeUint64 W u w = W (PutUint64 u) w"

definition EncodeBool :: "('w, 'e) writer \<Rightarrow> bool \<Rightarrow> 'w \<Rightarrow> 'e option \<times> 'w" where
  "EncodeBool W b w = (if b then EncodeUint8 W 1 w else EncodeUint8 W 0 w)"

text \<open>Floats are given by their bits (\<^verbatim>\<open>math.Float32bits\<close>, \<^verbatim>\<open>math.Float64bits\<close>).\<close>

definition EncodeFloat32 :: "('w, 'e) writer \<Rightarrow> u32 \<Rightarrow> 'w \<Rightarrow> 'e option \<times> 'w" where
  "EncodeFloat32 W bits w = EncodeUint32 W bits w"

definition EncodeFloat64 :: "('w, 'e) writer \<Rightarrow> u64 \<Rightarrow> 'w \<Rightarrow> 'e option \<times> 'w" where
  "EncodeFloat64 W bits w = EncodeUint64 W bits w"

section \<open>Field keys and type bytes\<close>

definition Typ3_8Byte :: byte where "Typ3_8Byte = 1"
definition Typ3_StructTerm :: byte where "Typ3_StructTerm = 4"
definition Typ3_4Byte :: byte where "Typ3_4Byte = 5"

definition Typ4_Typ3 :: "byte \<Rightarrow> byte" where
  "Typ4_Typ3 typ4 = typ4 AND 0x07"

definition Typ4_IsPointer :: "byte \<Rightarrow> bool" where
  "Typ4_IsPointer typ4 \<longleftrightarrow> typ4 AND 0x08 > 0"

text \<open>The outer \<open>None\<close> is the panic on an invalid type byte or field number.\<close>

definition encodeFieldNumberAndTyp3 :: "('w, 'e) writer \<Rightarrow> u32 \<Rightarrow> byte \<Rightarrow> 'w \<Rightarrow> ('e option \<times> 'w) option" where
  "encodeFieldNumberAndTyp3 W num typ3 w =
     (if typ3 AND 0xF8 \<noteq> 0 then None
      else if num > 2 ^ 29 - 1 then None
      else let value64 = push_bit 3 (ucast num) OR ucast typ3
           in Some (W (PutUvarint value64) w))"

record time =
  Unix :: "64 word"
  Nanosecond :: "32 word"

definition EncodeTime :: "('w, 'e) writer \<Rightarrow> time \<Rightarrow> 'w \<Rightarrow> ('e option \<times> 'w) option" where
  "EncodeTime W t w =
     (let s = Unix t; ns = Nanosecond t
      in case encodeFieldNumberAndTyp3 W 1 Typ3_8Byte w of
           None \<Rightarrow> None
         | Some (Some e, w) \<Rightarrow> Some (Some e, w)
         | Some (None, w) \<Rightarrow>
             (case EncodeInt64 W s w of
                (Some e, w) \<Rightarrow> Some (Some e, w)
              | (None, w) \<Rightarrow>
                  (case encodeFieldNumberAndTyp3 W 2 Typ3_4Byte w of
                     None \<Rightarrow> None
                   | Some (Some e, w) \<Rightarrow> Some (Some e, w)
                   | Some (None, w) \<Rightarrow> Some (and_then (EncodeInt32 W ns w) (EncodeByte W 0x04)))))"

definition EncodeByteSlice :: "('w, 'e) writer \<Rightarrow> bytes \<Rightarrow> 'w \<Rightarrow> 'e option \<times> 'w" where
  "EncodeByteSlice W bz w = and_then (EncodeUvarint W (of_nat (length bz)) w) (W bz)"

definition ByteSliceSize :: "bytes \<Rightarrow> nat" where
  "ByteSliceSize bz = UvarintSize (of_nat (length bz)) + length bz"

definition EncodeString :: "('w, 'e) writer \<Rightarrow> bytes \<Rightarrow> 'w \<Rightarrow> 'e option \<times> 'w" where
  "EncodeString W s w = EncodeByteSlice W s w"

section \<open>Decoders\<close>

type_synonym 'a dec = "bytes \<Rightarrow> 'a \<times> nat \<times> string option"

definition DecodeVarint :: "u64 dec" where
  "DecodeVarint bz =
     (case Varint bz of (i, n) \<Rightarrow> if n < 0 then (i, 0, Some ''EOF decoding varint'') else (i, nat n, None))"

definition DecodeInt8 :: "8 word dec" where
  "DecodeInt8 bz =
     (case DecodeVarint bz of
        (i64, n, Some err) \<Rightarrow> (0, n, Some err)
      | (i64, n, None) \<Rightarrow>
          (if 127 <s i64 then (0, n, Some ''EOF decoding int8'') else (ucast i64, n, None)))"

definition DecodeInt16 :: "16 word dec" where
  "DecodeInt16 bz =
     (case DecodeVarint bz of
        (i64, n, Some err) \<Rightarrow> (0, n, Some err)
      | (i64, n, None) \<Rightarrow>
          (if 32767 <s i64 then (0, n, Some ''EOF decoding int16'') else (ucast i64, n, None)))"

definition DecodeInt32 :: "32 word dec" where
  "DecodeInt32 bz = (if length bz < 4 then (0, 0, Some ''EOF decoding int32'') else (BE_Uint32 (take 4 bz), 4, None))"

definition DecodeInt64 :: "64 word dec" where
  "DecodeInt64 bz = (if length bz < 8 then (0, 0, Some ''EOF decoding int64'') else (BE_Uint64 (take 8 bz), 8, None))"

definition DecodeUvarint :: "u64 dec" where
  "DecodeUvarint bz =
     (case Uvarint bz of (u, n) \<Rightarrow> if n \<le> 0 then (u, 0, Some ''EOF decoding uvarint'') else (u, nat n, None))"

definition DecodeUint8 :: "byte dec" where
  "DecodeUint8 bz =
     (case DecodeUvarint bz of
        (u64, n, Some err) \<Rightarrow> (0, n, Some err)
      | (u64, n, None) \<Rightarrow> (if u64 > 255 then (0, n, Some ''EOF decoding uint8'') else (ucast u64, n, None)))"

definition DecodeByte :: "byte dec" where
  "DecodeByte bz = DecodeUint8 bz"

definition DecodeUint16 :: "u16 dec" where
  "DecodeUint16 bz =
     (case DecodeUvarint bz of
        (u64, n, Some err) \<Rightarrow> (0, n, Some err)
      | (u64, n, None) \<Rightarrow> (if u64 > 65535 then (0, n, Some ''EOF decoding uint16'') else (ucast u64, n, None)))"

definition DecodeUint32 :: "u32 dec" where
  "DecodeUint32 bz = (if length bz < 4 then (0, 0, Some ''EOF decoding uint32'') else (BE_Uint32 (take 4 bz), 4, None))"

definition DecodeUint64 :: "u64 dec" where
  "DecodeUint64 bz = (if length bz < 8 then (0, 0, Some ''EOF decoding uint64'') else (BE_Uint64 (take 8 bz), 8, None))"

definition DecodeBool :: "bool dec" where
  "DecodeBool bz =
     (if length bz < 1 then (False, 0, Some ''EOF decoding bool'')
      else if bz ! 0 = 0 then (False, 1, None)
      else if bz ! 0 = 1 then (True, 1, None)
      else (False, 1, Some ''invalid bool''))"

definition DecodeFloat32 :: "u32 dec" where
  "DecodeFloat32 bz = (if length bz < 4 then (0, 0, Some ''EOF decoding float32'') else (BE_Uint32 (take 4 bz), 4, None))"

definition DecodeFloat64 :: "u64 dec" where
  "DecodeFloat64 bz = (if length bz < 8 then (0, 0, Some ''EOF decoding float64'') else (BE_Uint64 (take 8 bz), 8, None))"

definition decodeFieldNumberAndTyp3 :: "(u32 \<times> byte) dec" where
  "decodeFieldNumberAndTyp3 bz =
     (case DecodeUvarint bz of
        (value64, n, Some err) \<Rightarrow> ((0, 0), n, Some err)
      | (value64, n, None) \<Rightarrow>
          (let typ3 = ucast (value64 AND 0x07); num64 = drop_bit 3 value64
           in if num64 > 2 ^ 29 - 1 then ((0, typ3), n, Some ''invalid field num'')
              else ((ucast num64, typ3), n, None)))"

definition decodeTyp3 :: "byte dec" where
  "decodeTyp3 bz =
     (if length bz = 0 then (0, 0, Some ''EOF reading typ3 byte'')
      else if bz ! 0 AND 0xF8 \<noteq> 0 then (0, 0, Some ''Invalid typ3 byte'')
      else (bz ! 0, 1, None))"

definition decodeTyp4 :: "byte dec" where
  "decodeTyp4 bz =
     (if length bz = 0 then (0, 0, Some ''EOF reading typ4 byte'')
      else if bz ! 0 AND 0xF0 \<noteq> 0 then (0, 0, Some ''Invalid non-zero nibble reading typ4 byte'')
      else (bz ! 0, 1, None))"

definition decodeNumNilBytes :: "u64 dec" where
  "decodeNumNilBytes bz =
     (if length bz = 0 then (0, 0, Some ''EOF reading nil byte(s)'')
      else if bz ! 0 = 0 then (0, 1, None)
      else if bz ! 0 = 1 then (1, 1, None)
      else (0, 0, Some ''Unexpected nil byte (sparse lists not supported)''))"

text \<open>\<open>slide\<close> panics (\<open>None\<close>) when asked to go past the end.\<close>

definition slide :: "bytes \<Rightarrow> nat \<Rightarrow> nat \<Rightarrow> (bytes \<times> nat) option" where
  "slide bz n m = (if m > length bz then None else Some (drop m bz, n + m))"

text \<open>\<open>x, _n, err = D(bz); if slide(&bz, &n, _n) && err != nil { return }\<close>, with the zero
  value \<open>z\<close> as result of the return.\<close>

definition slide_step :: "'b \<Rightarrow> 'a dec \<Rightarrow> bytes \<Rightarrow> nat \<Rightarrow> ('a \<Rightarrow> bytes \<Rightarrow> nat \<Rightarrow> ('b \<times> nat \<times> string option) option)
    \<Rightarrow> ('b \<times> nat \<times> string option) option" where
  "slide_step z D bz n k =
     (case D bz of
        (x, m, err) \<Rightarrow>
          (case slide bz n m of
             None \<Rightarrow> None
           | Some (bz, n) \<Rightarrow> (if err \<noteq> None then Some (z, n, err) else k x bz n)))"

text \<open>Go's zero time is the start of year 1.\<close>

definition zero_time :: time where
  "zero_time = \<lparr>Unix = - 62135596800, Nanosecond = 0\<rparr>"

definition DecodeTime :: "bytes \<Rightarrow> (time \<times> nat \<times> string option) option" where
  "DecodeTime bz =
     slide_step zero_time decodeFieldNumberAndTyp3 bz 0 (\<lambda>(fieldNum, typ3) bz n.
       if fieldNum \<noteq> 1 then Some (zero_time, n, Some ''Expected field number 1'')
       else if typ3 \<noteq> Typ3_8Byte then Some (zero_time, n, Some ''Expected Typ3 bytes <8Bytes> for time field #1'')
       else slide_step zero_time DecodeInt64 bz n (\<lambda>sec bz n.
         slide_step zero_time decodeFieldNumberAndTyp3 bz n (\<lambda>(fieldNum, typ3) bz n.
           if fieldNum \<noteq> 2 then Some (zero_time, n, Some ''Expected field number 2'')
           else if typ3 \<noteq> Typ3_4Byte then Some (zero_time, n, Some ''Expected Typ3 bytes <4Byte> for time field #2'')
           else slide_step zero_time DecodeInt32 bz n (\<lambda>nsec bz n.
             if nsec <s 0 \<or> 999999999 <s nsec then Some (zero_time, n, Some ''Invalid time, nanoseconds out of bounds'')
             else slide_step zero_time decodeTyp3 bz n (\<lambda>typ3 bz n.
               if typ3 \<noteq> Typ3_StructTerm then Some (zero_time, n, Some ''Expected StructTerm Typ3 byte for time'')
               else Some (\<lparr>Unix = sec, Nanosecond = nsec\<rparr>, n, None))))))"

definition DecodeByteSlice :: "bytes \<Rightarrow> (bytes \<times> nat \<times> string option) option" where
  "DecodeByteSlice bz =
     slide_step [] DecodeUvarint bz 0 (\<lambda>count bz n.
       if count <s 0 then Some ([], n, Some ''invalid negative length decoding []byte'')
       else if int (length bz) < sint count then Some ([], n, Some ''insufficient bytes decoding []byte'')
       else Some (take (unat count) bz, n + unat count, None))"

definition DecodeString :: "bytes \<Rightarrow> (bytes \<times> nat \<times> string option) option" where
  "DecodeString bz = DecodeByteSlice bz"

section \<open>Prefix bytes of registered names\<close>

definition WithTyp3 :: "bytes \<Rightarrow> byte \<Rightarrow> bytes" where
  "WithTyp3 pb typ3 = pb[3 := pb ! 3 OR typ3]"

definition SplitTyp3 :: "bytes \<Rightarrow> bytes \<times> byte" where
  "SplitTyp3 pb = (pb[3 := pb ! 3 AND 0xF8], pb ! 3 AND 0x07)"

text \<open>\<open>for bz[0] == 0x00 { bz = bz[1:] }\<close> and the slice of the first \<open>k\<close> bytes; both panic
  when the bytes run out.\<close>

primrec skip_zeros :: "bytes \<Rightarrow> bytes option" where
  "skip_zeros [] = None"
| "skip_zeros (b # bz) = (if b = 0 then skip_zeros bz else Some (b # bz))"

definition first_bytes :: "nat \<Rightarrow> bytes \<Rightarrow> bytes option" where
  "first_bytes k bz = (if length bz < k then None else Some (take k bz))"

text \<open>\<open>sha256\<close> is a parameter.\<close>

definition nameToDisfix :: "(bytes \<Rightarrow> bytes) \<Rightarrow> bytes \<Rightarrow> (bytes \<times> bytes) option" where
  "nameToDisfix sha256 name =
     Option.bind (skip_zeros (sha256 name)) (\<lambda>bz.
     Option.bind (first_bytes 3 bz) (\<lambda>db.
     Option.bind (skip_zeros (drop 3 bz)) (\<lambda>bz.
     Option.bind (first_bytes 4 bz) (\<lambda>pb.
     Some (db, pb[3 := pb ! 3 AND 0xF8])))))"

definition toDisfix :: "bytes \<Rightarrow> bytes \<Rightarrow> bytes" where
  "toDisfix db pb = take 3 db @ take 4 pb"

section \<open>Length framing\<close>

text \<open>\<open>bare\<close> stands for \<open>MarshalBinaryBare\<close> and \<open>UnmarshalBinaryBare\<close>.\<close>

definition MarshalBinary :: "('o \<Rightarrow> string + bytes) \<Rightarrow> 'o \<Rightarrow> string + bytes" where
  "MarshalBinary bare obj =
     (case bare obj of
        Inl e \<Rightarrow> Inl e
      | Inr bz \<Rightarrow> Inr (PutUvarint (of_nat (length bz)) @ bz))"

definition UnmarshalBinary :: "(bytes \<Rightarrow> string + 'o) \<Rightarrow> bytes \<Rightarrow> string + 'o" where
  "UnmarshalBinary bare bz =
     (if length bz = 0 then Inl ''UnmarshalBinary cannot decode empty bytes''
      else case Uvarint bz of
        (u64, n) \<Rightarrow>
          (if n < 0 then Inl ''Error reading msg byte-length prefix''
           else if u64 > of_nat (length bz - nat n) then Inl ''Not enough bytes to read in UnmarshalBinary''
           else if u64 < of_nat (length bz - nat n) then Inl ''Bytes left over in UnmarshalBinary''
           else bare (drop (nat n) bz)))"

text \<open>A reader delivers its bytes one after the other and then \<open>EOF\<close>, as
  \<^verbatim>\<open>bytes.Reader\<close> does.\<close>

datatype reader_error = ReadEOF | ReadOverflow | UnexpectedEOF | Bare string | MaxSizePanic | MakePanic

text \<open>The loop that reads the length prefix byte by byte: the bytes read, the rest of the reader,
  and the error that stands when the loop ends. A later read clears the error of an earlier round.\<close>

fun prefix_loop :: "int \<Rightarrow> nat \<Rightarrow> bytes \<Rightarrow> bytes \<Rightarrow> reader_error option \<Rightarrow> (reader_error + reader_error option) \<times> bytes \<times> bytes" where
  "prefix_loop maxSize 0 buf r err = (Inr err, buf, r)"
| "prefix_loop maxSize (Suc k) buf [] err = (Inl ReadEOF, buf, [])"
| "prefix_loop maxSize (Suc k) buf (b # r) err =
     (let buf = buf @ [b]
      in if b AND 0x80 = 0 then (Inr None, buf, r)
         else prefix_loop maxSize k buf r (if int (length buf) \<ge> maxSize then Some ReadOverflow else None))"

text \<open>Number of bytes read and result. \<open>maxSize\<close> is an \<open>int64\<close>; a negative one is a panic, and so
  is \<open>make\<close> of a negative length. Memory is not modelled: \<open>make\<close> of any other length succeeds.
  \<^verbatim>\<open>io.ReadFull\<close> reports \<open>EOF\<close> when it gets no byte at all.\<close>

definition UnmarshalBinaryReader :: "(bytes \<Rightarrow> string + 'o) \<Rightarrow> bytes \<Rightarrow> int \<Rightarrow> nat \<times> (reader_error + 'o)" where
  "UnmarshalBinaryReader bare r maxSize =
     (if maxSize < 0 then (0, Inl MaxSizePanic)
      else case prefix_loop maxSize 10 [] r None of
        (Inl e, buf, r) \<Rightarrow> (length buf, Inl e)
      | (Inr err, buf, r) \<Rightarrow>
          (let n = length buf; u64 = fst (Uvarint (buf @ replicate (10 - n) 0))
           in case err of
                Some e \<Rightarrow> (n, Inl e)
              | None \<Rightarrow>
                  (if maxSize > 0 \<and> of_int maxSize < u64 then (n, Inl ReadOverflow)
                   else if maxSize > 0 \<and> maxSize - int n < sint u64 then (n, Inl ReadOverflow)
                   else if sint u64 < 0 then (n, Inl MakePanic)
                   else if length r < unat u64 then (n, Inl (if r = [] then ReadEOF else UnexpectedEOF))
                   else (n + unat u64,
                         case bare (take (unat u64) r) of Inl e \<Rightarrow> Inl (Bare e) | Inr v \<Rightarrow> Inr v))))"

end
