(* ===== verification/AminoLaws.thy ===== *)
theory AminoLaws
  imports Amino
begin

text \<open>
  Laws of the go-amino coders: every primitive encoder is undone by its decoder with whatever
  follows the encoding left over, no decoder claims to have read more bytes than there are, and the
  length framing of the three entry points is undone. The interface between a coder and the
  code that strings coders together is the locale \<open>coder\<close>, interpreted for every primitive.
\<close>

section \<open>Varints\<close>

lemma bit_0x80: "bit (0x80 :: byte) n \<longleftrightarrow> n = 7"
proof -
  have "bit (2 ^ 7 :: byte) n \<longleftrightarrow> n = 7" by (simp only: bit_exp_iff) (auto simp: possible_bit_word)
  then show ?thesis by simp
qed

lemma bit_0x80_u64: "bit (0x80 :: u64) n \<longleftrightarrow> n = 7"
proof -
  have "bit (2 ^ 7 :: u64) n \<longleftrightarrow> n = 7" by (simp only: bit_exp_iff) (auto simp: possible_bit_word)
  then show ?thesis by simp
qed

lemma byte_high_not_less: "\<not> (ucast (u :: u64) OR 0x80 :: byte) < 0x80"
proof
  assume "(ucast u OR 0x80 :: byte) < 0x80"
  then have "unat (ucast u OR 0x80 :: byte) < 128" by (simp add: word_less_nat_alt)
  moreover have "bit (unat (ucast u OR 0x80 :: byte)) 7" by (simp only: bit_unsigned_iff) (simp add: bit_simps bit_0x80)
  ultimately show False by (simp add: bit_iff_odd)
qed

lemma low_seven: "(ucast ((ucast (u :: u64) OR 0x80 :: byte) AND 0x7F) :: u64) = take_bit 7 u"
proof -
  have m: "(0x7F :: byte) = mask 7" by (simp add: mask_eq_exp_minus_1)
  show ?thesis
    unfolding m by (rule bit_word_eqI) (simp only: bit_unsigned_iff bit_and_iff bit_or_iff bit_mask_iff bit_take_bit_iff bit_0x80 possible_bit_word, auto)
qed

lemma split_seven: "(x OR push_bit s (take_bit 7 u)) OR push_bit (7 + s) (drop_bit 7 u) = x OR push_bit s (u :: u64)"
proof -
  have n: "7 + (n - (7 + s)) = n - s \<or> n - s < 7" for n by linarith
  show ?thesis by (intro bit_word_eqI) (auto simp: bit_simps, metis n)
qed

lemma PutUvarint_small: "u < 0x80 \<Longrightarrow> PutUvarint u = [ucast u]"
  by (simp add: PutUvarint.simps)

lemma PutUvarint_large: "0x80 \<le> u \<Longrightarrow> PutUvarint u = (ucast u OR 0x80) # PutUvarint (drop_bit 7 u)"
  by (subst PutUvarint.simps) simp

lemma unat_ucast_byte_u64: "unat (ucast (b :: byte) :: u64) = unat b"
proof -
  have "unat b < 2 ^ 64" using unat_byte_less [of b] by (rule less_trans) simp
  then show ?thesis by (simp only: unsigned_ucast_eq) (simp add: take_bit_nat_eq_self)
qed

lemma ucast_u64_less:
  assumes "u < (0x80 :: u64)"
  shows "(ucast u :: byte) < 0x80" "(ucast (ucast u :: byte) :: u64) = u"
proof -
  have u: "unat u < 128" using assms by (simp add: word_less_nat_alt)
  then have e: "unat (ucast u :: byte) = unat u" by (simp only: ucast_byte_mod unat_of_nat_byte) simp
  with u show "(ucast u :: byte) < 0x80" by (simp only: word_less_nat_alt) simp
  show "(ucast (ucast u :: byte) :: u64) = u"
    by (rule word_unat_eq_iff [THEN iffD2]) (simp only: unat_ucast_byte_u64 e)
qed

lemma uvarint_loop_Put:
  "unat u < 2 ^ (64 - 7 * i) \<Longrightarrow> i \<le> 9 \<Longrightarrow>
     uvarint_loop i x (7 * i) (PutUvarint u @ rest) = (x OR push_bit (7 * i) u, int i + int (length (PutUvarint u)))"
proof (induction u arbitrary: i x rule: PutUvarint.induct)
  case (1 u)
  show ?case
  proof (cases "0x80 \<le> u")
    case True
    then have u: "128 \<le> unat u" by (simp add: word_le_nat_alt)
    with "1.prems" have "(2::nat) ^ 7 < 2 ^ (64 - 7 * i)" by simp
    then have i: "7 < 64 - 7 * i" by (rule power_less_imp_less_exp [rotated]) simp
    then have "unat (drop_bit 7 u) < 2 ^ (64 - 7 * (i + 1))"
    proof -
      have "(2::nat) ^ (64 - 7 * i) = 2 ^ (64 - 7 * (i + 1)) * 2 ^ 7"
        using i by (simp only: flip: power_add) simp
      with "1.prems"(1) show ?thesis by (simp only: unat_drop_bit_div less_mult_imp_div_less)
    qed
    from "1.IH" [OF True this, of "x OR push_bit (7 * i) (take_bit 7 u)"] i
    show ?thesis
      by (simp add: PutUvarint_large [OF True] byte_high_not_less low_seven split_seven add.commute)
  next
    case False
    then have u: "u < 0x80" by simp
    have "(ucast u :: byte) \<le> 1" if "i = 9"
    proof -
      have "unat u < 2" using "1.prems"(1) that by simp
      then show ?thesis by (simp only: word_le_nat_alt ucast_byte_mod unat_of_nat_byte) simp
    qed
    then show ?thesis
      using "1.prems"(2) ucast_u64_less [OF u] by (auto simp: PutUvarint_small [OF u] not_less)
  qed
qed

lemma Uvarint_PutUvarint: "Uvarint (PutUvarint u @ rest) = (u, int (length (PutUvarint u)))"
  using uvarint_loop_Put [of u 0 0 rest] unsigned_less [of u, where 'a = nat] by (simp add: Uvarint_def)

lemma PutUvarint_nonempty [simp]: "PutUvarint u \<noteq> []"
  by (cases "0x80 \<le> u") (simp_all add: PutUvarint_large PutUvarint_small)

lemma shift_one:
  fixes x :: u64
  assumes "k = 1"
  shows "push_bit k x AND 1 = 0" "NOT (push_bit k x) AND 1 = 1"
    "bit x 63 \<Longrightarrow> NOT (drop_bit k (NOT (push_bit k x))) = x"
    "\<not> bit x 63 \<Longrightarrow> drop_bit k (push_bit k x) = x"
proof -
  have k: "0 < k" "n < 64 \<Longrightarrow> k + n < 64 \<or> n = 63" for n using assms by auto
  show "push_bit k x AND 1 = 0" "NOT (push_bit k x) AND 1 = 1"
    using k(1) by (auto intro!: bit_word_eqI simp: bit_simps)
  show "bit x 63 \<Longrightarrow> NOT (drop_bit k (NOT (push_bit k x))) = x"
    by (rule bit_word_eqI) (use k(2) in \<open>auto simp: bit_simps\<close>)
  show "\<not> bit x 63 \<Longrightarrow> drop_bit k (push_bit k x) = x"
    by (rule bit_word_eqI) (use k(2) in \<open>auto simp: bit_simps\<close>)
qed

lemma Varint_PutVarint: "Varint (PutVarint x @ rest) = (x, int (length (PutVarint x)))"
proof -
  have s: "x <s 0 \<longleftrightarrow> bit x 63" using bit_last_iff [of x] by (simp add: word_sless_alt)
  show ?thesis
    unfolding Varint_def PutVarint_def Let_def Uvarint_PutUvarint prod.case s
    using shift_one [OF refl, of x] by (cases "bit x 63") (simp_all del: push_bit_of_1 One_nat_def)
qed

section \<open>Fixed width\<close>

lemma BE_PutUint32: "BE_Uint32 (PutUint32 v) = v"
proof (rule bit_word_eqI)
  fix n assume "n < LENGTH(32)"
  then consider "n < 8" | "8 \<le> n" "n < 16" | "16 \<le> n" "n < 24" | "24 \<le> n" "n < 32" by fastforce
  then show "bit (BE_Uint32 (PutUint32 v)) n = bit v n"
    by cases (auto simp: BE_Uint32_def PutUint32_def bit_simps)
qed

lemma BE_PutUint64: "BE_Uint64 (PutUint64 v) = v"
proof (rule bit_word_eqI)
  fix n assume "n < LENGTH(64)"
  then consider "n < 8" | "8 \<le> n" "n < 16" | "16 \<le> n" "n < 24" | "24 \<le> n" "n < 32"
    | "32 \<le> n" "n < 40" | "40 \<le> n" "n < 48" | "48 \<le> n" "n < 56" | "56 \<le> n" "n < 64" by fastforce
  then show "bit (BE_Uint64 (PutUint64 v)) n = bit v n"
    by cases (auto simp: BE_Uint64_def PutUint64_def bit_simps)
qed

section \<open>The interface of a coder\<close>

text \<open>A composite decoder returns, without a panic, and reports at most \<open>N\<close> bytes.\<close>

definition within :: "nat \<Rightarrow> ('a \<times> nat \<times> string option) option \<Rightarrow> bool" where
  "within N r \<longleftrightarrow> (\<exists>x m e. r = Some (x, m, e) \<and> m \<le> N)"

lemma within_Some [intro]: "m + k = N \<Longrightarrow> within N (Some (x, m, e))"
  by (auto simp: within_def)

lemma within_if: "(c \<Longrightarrow> within N r) \<Longrightarrow> (\<not> c \<Longrightarrow> within N s) \<Longrightarrow> within N (if c then r else s)"
  by simp

lemma within_case_prod: "(\<And>a b. within N (f a b bz n)) \<Longrightarrow> within N (case_prod f x bz n)"
  by (cases x) simp

text \<open>What the composite decoders rely on: the decoder undoes the encoding \<open>enc\<close> of the values
  in \<open>ok\<close> and never reports more bytes than the input has.\<close>

locale coder =
  fixes enc :: "'a \<Rightarrow> bytes" and D :: "'a dec" and ok :: "'a \<Rightarrow> bool"
  assumes decodes: "ok a \<Longrightarrow> D (enc a @ rest) = (a, length (enc a), None)"
    and reads_within: "D bz = (a, n, e) \<Longrightarrow> n \<le> length bz"
begin

lemma step_enc: "ok a \<Longrightarrow> slide_step z D (enc a @ rest) n k = k a rest (n + length (enc a))"
  by (simp add: slide_step_def slide_def decodes)

text \<open>A step stays inside the input of \<open>N\<close> bytes and does not panic if its continuation does.\<close>

lemma step_within:
  assumes "n + length bz = N" "\<And>a bz' n'. n' + length bz' = N \<Longrightarrow> within N (k a bz' n')"
  shows "within N (slide_step z D bz n k)"
proof -
  obtain a m e where d: "D bz = (a, m, e)" by (cases "D bz") auto
  have m: "m \<le> length bz" using reads_within [OF d] .
  then have "n + m + length (drop m bz) = N" using assms(1) by simp
  from assms(2) [OF this, of a] d m assms(1) show ?thesis
    by (cases e) (auto simp: slide_step_def slide_def within_def)
qed

end

lemma Uvarint_within: "uvarint_loop i x s bz = (u, n) \<Longrightarrow> n \<le> int i + int (length bz)"
  by (induction bz arbitrary: i x s) (fastforce split: if_splits)+

lemma DecodeUvarint_within: "DecodeUvarint bz = (u, n, e) \<Longrightarrow> n \<le> length bz"
  using Uvarint_within [of 0 0 0 bz] by (auto simp: DecodeUvarint_def Uvarint_def split: prod.splits if_splits)

lemma DecodeVarint_within: "DecodeVarint bz = (u, n, e) \<Longrightarrow> n \<le> length bz"
  using Uvarint_within [of 0 0 0 bz] by (auto simp: DecodeVarint_def Varint_def Uvarint_def Let_def split: prod.splits if_splits)

lemma DecodeUvarint_enc: "DecodeUvarint (PutUvarint u @ rest) = (u, length (PutUvarint u), None)"
  by (simp add: DecodeUvarint_def Uvarint_PutUvarint)

lemma DecodeVarint_enc: "DecodeVarint (PutVarint i @ rest) = (i, length (PutVarint i), None)"
  by (simp add: DecodeVarint_def Varint_PutVarint)

interpretation uvarint: coder PutUvarint DecodeUvarint "\<lambda>_. True"
  by unfold_locales (rule DecodeUvarint_enc, rule DecodeUvarint_within)

interpretation varint: coder PutVarint DecodeVarint "\<lambda>_. True"
  by unfold_locales (rule DecodeVarint_enc, rule DecodeVarint_within)

lemma sint_scast8: "sint (scast (i :: 8 word) :: u64) = sint i"
  using sint_ge [of i] sint_lt [of i] by (simp add: signed_scast_eq signed_take_bit_int_eq_self_iff)

lemma sint_scast16: "sint (scast (i :: 16 word) :: u64) = sint i"
  using sint_ge [of i] sint_lt [of i] by (simp add: signed_scast_eq signed_take_bit_int_eq_self_iff)

lemma ucast_scast:
  "ucast (scast (i :: 8 word) :: u64) = i" "ucast (scast (j :: 16 word) :: u64) = j"
  by (rule bit_word_eqI; auto simp: bit_simps)+

lemma ucast_ucast:
  "ucast (ucast (b :: byte) :: u64) = b" "ucast (ucast (c :: u16) :: u64) = c"
  "ucast (ucast (d :: u32) :: u64) = d"
  by (rule bit_word_eqI; auto simp: bit_simps)+

lemma unat_ucast_u16_u64: "unat (ucast (b :: u16) :: u64) = unat b"
proof -
  have "unat b < 2 ^ 64" using unsigned_less [of b, where 'a = nat] by (rule less_trans) simp
  then show ?thesis by (simp only: unsigned_ucast_eq) (simp add: take_bit_nat_eq_self)
qed

lemma unat_ucast_u32_u64: "unat (ucast (b :: u32) :: u64) = unat b"
proof -
  have "unat b < 2 ^ 64" using unsigned_less [of b, where 'a = nat] by (rule less_trans) simp
  then show ?thesis by (simp only: unsigned_ucast_eq) (simp add: take_bit_nat_eq_self)
qed

interpretation int8: coder "\<lambda>i. PutVarint (scast i)" DecodeInt8 "\<lambda>_. True"
proof
  fix a :: "8 word" and rest
  have "sint a < 128" using sint_lt [of a] by simp
  then show "DecodeInt8 (PutVarint (scast a) @ rest) = (a, length (PutVarint (scast a)), None)"
    by (simp add: DecodeInt8_def DecodeVarint_enc word_sless_alt sint_scast8 ucast_scast)
next
  show "DecodeInt8 bz = (a, n, e) \<Longrightarrow> n \<le> length bz" for bz a n e
    using DecodeVarint_within [of bz] by (auto simp: DecodeInt8_def split: prod.splits option.splits if_splits)
qed

interpretation int16: coder "\<lambda>i. PutVarint (scast i)" DecodeInt16 "\<lambda>_. True"
proof
  fix a :: "16 word" and rest
  have "sint a < 32768" using sint_lt [of a] by simp
  then show "DecodeInt16 (PutVarint (scast a) @ rest) = (a, length (PutVarint (scast a)), None)"
    by (simp add: DecodeInt16_def DecodeVarint_enc word_sless_alt sint_scast16 ucast_scast)
next
  show "DecodeInt16 bz = (a, n, e) \<Longrightarrow> n \<le> length bz" for bz a n e
    using DecodeVarint_within [of bz] by (auto simp: DecodeInt16_def split: prod.splits option.splits if_splits)
qed

interpretation uint8: coder "\<lambda>u. PutUvarint (ucast u)" DecodeUint8 "\<lambda>_. True"
proof
  fix a :: byte and rest
  have "unat a \<le> 255" using unat_byte_less [of a] by linarith
  then have "\<not> (ucast a :: u64) > 255" by (simp only: word_less_nat_alt unat_ucast_byte_u64) simp
  then show "DecodeUint8 (PutUvarint (ucast a) @ rest) = (a, length (PutUvarint (ucast a)), None)"
    by (simp add: DecodeUint8_def DecodeUvarint_enc ucast_ucast del: not_less)
next
  show "DecodeUint8 bz = (a, n, e) \<Longrightarrow> n \<le> length bz" for bz a n e
    using DecodeUvarint_within [of bz] by (auto simp: DecodeUint8_def split: prod.splits option.splits if_splits)
qed

interpretation uint16: coder "\<lambda>u. PutUvarint (ucast u)" DecodeUint16 "\<lambda>_. True"
proof
  fix a :: u16 and rest
  have "\<not> (ucast a :: u64) > 65535"
    using unsigned_less [of a, where 'a = nat] by (simp only: word_less_nat_alt unat_ucast_u16_u64) simp
  then show "DecodeUint16 (PutUvarint (ucast a) @ rest) = (a, length (PutUvarint (ucast a)), None)"
    by (simp add: DecodeUint16_def DecodeUvarint_enc ucast_ucast del: not_less)
next
  show "DecodeUint16 bz = (a, n, e) \<Longrightarrow> n \<le> length bz" for bz a n e
    using DecodeUvarint_within [of bz] by (auto simp: DecodeUint16_def split: prod.splits option.splits if_splits)
qed

lemma length_Put [simp]: "length (PutUint32 v) = 4" "length (PutUint64 w) = 8"
  by (simp_all add: PutUint32_def PutUint64_def)

lemma take_Put [simp]: "take 4 (PutUint32 v @ rest) = PutUint32 v" "take 8 (PutUint64 w @ rest) = PutUint64 w"
  by simp_all

lemmas fixed_defs = DecodeInt32_def DecodeUint32_def DecodeFloat32_def DecodeInt64_def DecodeUint64_def
  DecodeFloat64_def BE_PutUint32 BE_PutUint64

interpretation int32: coder PutUint32 DecodeInt32 "\<lambda>_. True"
  by unfold_locales (auto simp: fixed_defs split: if_splits)

interpretation uint32: coder PutUint32 DecodeUint32 "\<lambda>_. True"
  by unfold_locales (auto simp: fixed_defs split: if_splits)

interpretation float32: coder PutUint32 DecodeFloat32 "\<lambda>_. True"
  by unfold_locales (auto simp: fixed_defs split: if_splits)

interpretation int64: coder PutUint64 DecodeInt64 "\<lambda>_. True"
  by unfold_locales (auto simp: fixed_defs split: if_splits)

interpretation uint64: coder PutUint64 DecodeUint64 "\<lambda>_. True"
  by unfold_locales (auto simp: fixed_defs split: if_splits)

interpretation float64: coder PutUint64 DecodeFloat64 "\<lambda>_. True"
  by unfold_locales (auto simp: fixed_defs split: if_splits)

interpretation bool: coder "\<lambda>b. PutUvarint (if b then 1 else 0)" DecodeBool "\<lambda>_. True"
  by unfold_locales (auto simp: DecodeBool_def PutUvarint_small Suc_le_eq split: if_splits)

lemma key_bits:
  assumes "typ3 AND 0xF8 = (0 :: byte)"
  shows "ucast ((push_bit 3 (ucast (num :: u32)) OR ucast typ3 :: u64) AND 0x07) = typ3"
    "num \<le> 2 ^ 29 - 1 \<Longrightarrow> drop_bit 3 (push_bit 3 (ucast num) OR ucast typ3 :: u64) = ucast num"
proof -
  have f: "(0xF8 :: byte) = NOT (mask 3)" and m: "(0x07 :: u64) = mask 3" by (simp_all add: mask_eq_exp_minus_1)
  have a: "\<not> bit (typ3 AND NOT (mask 3)) n" for n using assms unfolding f by simp
  have t: "n < 3" if "bit typ3 n" for n
    using a [of n] that bit_imp_le_length [OF that]
    by (simp only: bit_and_iff bit_not_iff bit_mask_iff possible_bit_word) simp
  show "ucast ((push_bit 3 (ucast num) OR ucast typ3 :: u64) AND 0x07) = typ3"
    unfolding m by (rule bit_word_eqI) (auto simp: bit_simps dest: t)
  show "drop_bit 3 (push_bit 3 (ucast num) OR ucast typ3 :: u64) = ucast num"
    by (rule bit_word_eqI) (auto simp: bit_simps dest: t bit_imp_le_length)
qed

definition field_key :: "u32 \<times> byte \<Rightarrow> bytes" where
  "field_key = (\<lambda>(num, typ3). PutUvarint (push_bit 3 (ucast num) OR ucast typ3))"

definition key_ok :: "u32 \<times> byte \<Rightarrow> bool" where
  "key_ok = (\<lambda>(num, typ3). typ3 AND 0xF8 = 0 \<and> num \<le> 2 ^ 29 - 1)"

lemma encodeFieldNumberAndTyp3_key:
  "key_ok (num, typ3) \<Longrightarrow> encodeFieldNumberAndTyp3 W num typ3 w = Some (W (field_key (num, typ3)) w)"
  by (simp add: encodeFieldNumberAndTyp3_def key_ok_def field_key_def Let_def not_less)

interpretation key: coder field_key decodeFieldNumberAndTyp3 key_ok
proof
  fix a :: "u32 \<times> byte" and rest assume ok: "key_ok a"
  obtain num typ3 where a: "a = (num, typ3)" by (cases a)
  have t: "typ3 AND 0xF8 = 0" and n: "num \<le> 2 ^ 29 - 1" using ok by (simp_all add: a key_ok_def)
  have "unat num \<le> 536870911" using n by (simp add: word_le_nat_alt)
  then have "\<not> (ucast num :: u64) > 2 ^ 29 - 1" by (simp add: word_less_nat_alt unat_ucast_u32_u64)
  then show "decodeFieldNumberAndTyp3 (field_key a @ rest) = (a, length (field_key a), None)"
    using key_bits(1) [OF t, of num] key_bits(2) [OF t n]
    by (simp add: a field_key_def decodeFieldNumberAndTyp3_def DecodeUvarint_enc ucast_ucast Let_def del: not_less)
next
  show "decodeFieldNumberAndTyp3 bz = (a, n, e) \<Longrightarrow> n \<le> length bz" for bz a n e
    using DecodeUvarint_within [of bz]
    by (auto simp: decodeFieldNumberAndTyp3_def Let_def split: prod.splits option.splits if_splits)
qed

interpretation typ3: coder "\<lambda>t. [t]" decodeTyp3 "\<lambda>t. t AND 0xF8 = 0"
  by unfold_locales (auto simp: decodeTyp3_def Suc_le_eq split: if_splits)

interpretation typ4: coder "\<lambda>t. [t]" decodeTyp4 "\<lambda>t. t AND 0xF0 = 0"
  by unfold_locales (auto simp: decodeTyp4_def Suc_le_eq split: if_splits)

interpretation nil: coder "\<lambda>t. [ucast t]" decodeNumNilBytes "\<lambda>t. t = 0 \<or> t = 1"
  by unfold_locales (auto simp: decodeNumNilBytes_def Suc_le_eq split: if_splits)

section \<open>Primitive values\<close>

text \<open>\<^verbatim>\<open>bytes.Buffer\<close> as a writer: it takes everything.\<close>

definition buffer :: "(bytes, string) writer" where
  "buffer bz w = (None, w @ bz)"

definition codes :: "((bytes, string) writer \<Rightarrow> 'a \<Rightarrow> bytes \<Rightarrow> string option \<times> bytes) \<Rightarrow> 'a dec \<Rightarrow> bool" where
  "codes E D \<longleftrightarrow> (\<forall>a w rest. \<exists>bz. E buffer a w = (None, w @ bz) \<and> D (bz @ rest) = (a, length bz, None))"

lemma codesI: "coder enc D (\<lambda>_. True) \<Longrightarrow> (\<And>a w. E buffer a w = (None, w @ enc a)) \<Longrightarrow> codes E D"
  unfolding codes_def coder_def by blast

lemmas encoder_defs = EncodeInt8_def EncodeInt16_def EncodeInt32_def EncodeInt64_def EncodeVarint_def
  EncodeByte_def EncodeUint8_def EncodeUint16_def EncodeUint32_def EncodeUint64_def EncodeUvarint_def
  EncodeBool_def EncodeFloat32_def EncodeFloat64_def

lemma DecodeByte_eq: "DecodeByte = DecodeUint8"
  by (rule ext) (simp add: DecodeByte_def)

lemmas coders = int8.coder_axioms int16.coder_axioms int32.coder_axioms int64.coder_axioms
  varint.coder_axioms uint8.coder_axioms uint16.coder_axioms uint32.coder_axioms uint64.coder_axioms
  uvarint.coder_axioms bool.coder_axioms float32.coder_axioms float64.coder_axioms

lemma primitive_codes:
  "codes EncodeInt8 DecodeInt8" "codes EncodeInt16 DecodeInt16" "codes EncodeInt32 DecodeInt32"
  "codes EncodeInt64 DecodeInt64" "codes EncodeVarint DecodeVarint" "codes EncodeByte DecodeByte"
  "codes EncodeUint8 DecodeUint8" "codes EncodeUint16 DecodeUint16" "codes EncodeUint32 DecodeUint32"
  "codes EncodeUint64 DecodeUint64" "codes EncodeUvarint DecodeUvarint" "codes EncodeBool DecodeBool"
  "codes EncodeFloat32 DecodeFloat32" "codes EncodeFloat64 DecodeFloat64"
  unfolding DecodeByte_eq
  by ((rule codesI, rule coders, simp add: encoder_defs buffer_def)+)

lemma length_PutUvarint: "unat u < 2 ^ (7 * k) \<Longrightarrow> 0 < k \<Longrightarrow> length (PutUvarint u) \<le> k"
proof (induction u arbitrary: k rule: PutUvarint.induct)
  case (1 u)
  show ?case
  proof (cases "0x80 \<le> u")
    case True
    then have u: "128 \<le> unat u" by (simp add: word_le_nat_alt)
    have k: "1 < k"
    proof (rule ccontr)
      assume "\<not> 1 < k"
      with "1.prems"(2) have "k = 1" by simp
      with "1.prems"(1) u show False by simp
    qed
    then have "(2::nat) ^ (7 * k) = 2 ^ (7 * (k - 1)) * 2 ^ 7"
      by (simp only: flip: power_add) (simp add: algebra_simps)
    with "1.prems"(1) have "unat (drop_bit 7 u) < 2 ^ (7 * (k - 1))"
      by (simp only: unat_drop_bit_div less_mult_imp_div_less)
    from "1.IH" [OF True this] k show ?thesis by (simp add: PutUvarint_large [OF True])
  next
    case False
    with "1.prems"(2) show ?thesis by (simp add: PutUvarint_small)
  qed
qed

lemma length_PutUvarint_10: "length (PutUvarint u) \<le> 10"
proof -
  have "unat u < 2 ^ 64" using unsigned_less [of u, where 'a = nat] by simp
  then have "unat u < 2 ^ (7 * 10)" by (rule less_trans) simp
  then show ?thesis by (rule length_PutUvarint) simp
qed

text \<open>C25. Every primitive encoder writes bytes from which its decoder reads the value back, with the
  number of bytes it takes and without an error, whatever follows; the varint buffers of ten bytes
  are never overrun, and the size functions give the number of bytes written.\<close>

theorem primitive_roundtrip:
  "codes EncodeInt8 DecodeInt8 \<and> codes EncodeInt16 DecodeInt16 \<and> codes EncodeInt32 DecodeInt32 \<and>
   codes EncodeInt64 DecodeInt64 \<and> codes EncodeVarint DecodeVarint \<and> codes EncodeByte DecodeByte \<and>
   codes EncodeUint8 DecodeUint8 \<and> codes EncodeUint16 DecodeUint16 \<and> codes EncodeUint32 DecodeUint32 \<and>
   codes EncodeUint64 DecodeUint64 \<and> codes EncodeUvarint DecodeUvarint \<and> codes EncodeBool DecodeBool \<and>
   codes EncodeFloat32 DecodeFloat32 \<and> codes EncodeFloat64 DecodeFloat64 \<and>
   UvarintSize u \<le> 10 \<and> VarintSize i \<le> 10 \<and>
   length (snd (EncodeUvarint buffer u [])) = UvarintSize u \<and>
   length (snd (EncodeVarint buffer i [])) = VarintSize i"
  by (simp add: primitive_codes encoder_defs buffer_def UvarintSize_def VarintSize_def PutVarint_def
      length_PutUvarint_10 Let_def)

section \<open>Times and byte slices\<close>

lemma count_ok:
  assumes "n < 2 ^ 63"
  shows "sint (of_nat n :: u64) = int n" "\<not> (of_nat n :: u64) <s 0" "unat (of_nat n :: u64) = n"
proof -
  show s: "sint (of_nat n :: u64) = int n"
    using assms by (simp add: signed_of_nat signed_take_bit_int_eq_self_iff)
  then show "\<not> (of_nat n :: u64) <s 0" by (simp add: word_sless_alt)
  have "n < 2 ^ 64" using assms by simp
  then show "unat (of_nat n :: u64) = n" by (simp add: unsigned_of_nat take_bit_nat_eq_self)
qed

lemma sint_nonneg:
  assumes "\<not> (w :: u64) <s 0"
  shows "sint w = int (unat w)"
proof -
  have b: "\<not> bit w 63" using assms bit_last_iff [of w] by (simp add: word_sless_alt)
  have "n < 63" if "bit w n" for n using b that bit_imp_le_length [OF that] by (cases "n = 63") simp_all
  then have "take_bit 63 (uint w) = uint w" by (intro bit_eqI) (auto simp: bit_take_bit_iff bit_uint_iff)
  with b show ?thesis by (simp add: sint_uint signed_take_bit_eq_if_positive bit_uint_iff)
qed

lemma DecodeByteSlice_enc:
  assumes "length bz < 2 ^ 63"
  shows "DecodeByteSlice (PutUvarint (of_nat (length bz)) @ bz @ rest) =
    Some (bz, length (PutUvarint (of_nat (length bz))) + length bz, None)"
  using count_ok [OF assms] by (simp add: DecodeByteSlice_def uvarint.step_enc)

lemma EncodeByteSlice_buffer: "EncodeByteSlice buffer bz w = (None, w @ PutUvarint (of_nat (length bz)) @ bz)"
  by (simp add: EncodeByteSlice_def and_then_def EncodeUvarint_def buffer_def)

definition time_bytes :: "time \<Rightarrow> bytes" where
  "time_bytes t = field_key (1, Typ3_8Byte) @ PutUint64 (Unix t) @ field_key (2, Typ3_4Byte) @ PutUint32 (Nanosecond t) @ [4]"

lemma time_keys [simp]: "key_ok (1, Typ3_8Byte)" "key_ok (2, Typ3_4Byte)"
  by (simp_all add: key_ok_def Typ3_8Byte_def Typ3_4Byte_def)

lemma EncodeTime_buffer: "EncodeTime buffer t w = Some (None, w @ time_bytes t)"
  by (simp add: EncodeTime_def encodeFieldNumberAndTyp3_key Let_def buffer_def EncodeInt64_def EncodeInt32_def
      and_then_def EncodeByte_def EncodeUvarint_def PutUvarint_small time_bytes_def)

definition time_ok :: "time \<Rightarrow> bool" where
  "time_ok t \<longleftrightarrow> 0 \<le> sint (Nanosecond t) \<and> sint (Nanosecond t) \<le> 999999999"

lemma typ3_term: "slide_step z decodeTyp3 (4 # rest) n k = k 4 rest (Suc n)"
  using typ3.step_enc [of 4 z rest n k] by simp

lemma DecodeTime_enc:
  assumes "time_ok t"
  shows "DecodeTime (time_bytes t @ rest) = Some (t, length (time_bytes t), None)"
  using assms
  by (simp add: DecodeTime_def time_bytes_def key.step_enc int64.step_enc int32.step_enc typ3_term
      time_ok_def word_sless_alt Typ3_StructTerm_def)

text \<open>Times and byte slices: a time whose nanoseconds lie within the second, and a byte slice or
  string shorter than \<open>2 ^ 63\<close>, are read back from their encoding, whatever follows; the size function
  gives the length of the encoding.\<close>

theorem compound_roundtrip:
  assumes "time_ok t" "length bz < 2 ^ 63"
  shows "(\<exists>enc. EncodeTime buffer t w = Some (None, w @ enc) \<and> DecodeTime (enc @ rest) = Some (t, length enc, None)) \<and>
    (\<exists>enc. EncodeByteSlice buffer bz w = (None, w @ enc) \<and> DecodeByteSlice (enc @ rest) = Some (bz, length enc, None) \<and>
       length enc = ByteSliceSize bz) \<and>
    (\<exists>enc. EncodeString buffer bz w = (None, w @ enc) \<and> DecodeString (enc @ rest) = Some (bz, length enc, None))"
  using EncodeTime_buffer DecodeTime_enc [OF assms(1)] EncodeByteSlice_buffer DecodeByteSlice_enc [OF assms(2)]
  by (simp add: EncodeString_def DecodeString_def ByteSliceSize_def UvarintSize_def)

theorem compound_roundtrip_witness:
  "\<exists>enc. EncodeTime buffer \<lparr>Unix = 1, Nanosecond = 999999999\<rparr> [7] = Some (None, [7] @ enc) \<and>
     DecodeTime (enc @ [8]) = Some (\<lparr>Unix = 1, Nanosecond = 999999999\<rparr>, length enc, None)"
  using compound_roundtrip [of "\<lparr>Unix = 1, Nanosecond = 999999999\<rparr>" "[1, 2, 3]" "[7]" "[8]"]
  by (simp add: time_ok_def)

section \<open>No decoder reads past its input\<close>

lemma DecodeTime_within: "within (length bz) (DecodeTime bz)"
  unfolding DecodeTime_def
  by (rule key.step_within int64.step_within int32.step_within typ3.step_within within_case_prod within_if
      within_Some | assumption | simp)+

lemma DecodeByteSlice_within: "within (length bz) (DecodeByteSlice bz)"
  unfolding DecodeByteSlice_def
proof (rule uvarint.step_within, simp)
  fix count :: u64 and bz' :: bytes and n
  assume n: "n + length bz' = length bz"
  have "unat count \<le> length bz'" if "\<not> count <s 0" "\<not> int (length bz') < sint count"
    using that(2) sint_nonneg [OF that(1)] by linarith
  with n show "within (length bz) (if count <s 0 then Some ([], n, Some ''invalid negative length decoding []byte'')
      else if int (length bz') < sint count then Some ([], n, Some ''insufficient bytes decoding []byte'')
      else Some (take (unat count) bz', n + unat count, None))"
    by (auto simp: within_def)
qed

text \<open>C38. Decoding is safe on every input: no decoder reports more bytes than it was given, and the
  composite decoders return without the panic of \<open>slide\<close>.\<close>

theorem decoders_within:
  "fst (snd (DecodeInt8 bz)) \<le> length bz \<and> fst (snd (DecodeInt16 bz)) \<le> length bz \<and>
   fst (snd (DecodeInt32 bz)) \<le> length bz \<and> fst (snd (DecodeInt64 bz)) \<le> length bz \<and>
   fst (snd (DecodeVarint bz)) \<le> length bz \<and> fst (snd (DecodeUint8 bz)) \<le> length bz \<and>
   fst (snd (DecodeUint16 bz)) \<le> length bz \<and> fst (snd (DecodeUint32 bz)) \<le> length bz \<and>
   fst (snd (DecodeUint64 bz)) \<le> length bz \<and> fst (snd (DecodeUvarint bz)) \<le> length bz \<and>
   fst (snd (DecodeByte bz)) \<le> length bz \<and> fst (snd (DecodeFloat32 bz)) \<le> length bz \<and>
   fst (snd (DecodeFloat64 bz)) \<le> length bz \<and>
   fst (snd (DecodeBool bz)) \<le> length bz \<and> fst (snd (decodeFieldNumberAndTyp3 bz)) \<le> length bz \<and>
   within (length bz) (DecodeTime bz) \<and> within (length bz) (DecodeByteSlice bz) \<and> within (length bz) (DecodeString bz)"
  by (intro conjI)
    (metis DecodeString_def DecodeTime_within DecodeByteSlice_within DecodeByte_def prod.collapse
      int8.reads_within int16.reads_within int32.reads_within int64.reads_within varint.reads_within
      uint8.reads_within uint16.reads_within uint32.reads_within uint64.reads_within uvarint.reads_within
      float32.reads_within float64.reads_within bool.reads_within key.reads_within)+

section \<open>Framing\<close>

lemma prefix_loop_Put:
  "length (PutUvarint u) \<le> k \<Longrightarrow>
     prefix_loop m k buf (PutUvarint u @ r) err = (Inr None, buf @ PutUvarint u, r)"
proof (induction u arbitrary: k buf err rule: PutUvarint.induct)
  case (1 u)
  then obtain j where k: "k = Suc j" by (cases k) auto
  show ?case
  proof (cases "0x80 \<le> u")
    case True
    have h: "(ucast u OR 0x80 :: byte) AND 0x80 \<noteq> 0"
    proof
      assume "(ucast u OR 0x80 :: byte) AND 0x80 = 0"
      then have "\<not> bit ((ucast u OR 0x80 :: byte) AND 0x80) 7" by simp
      then show False by (simp only: bit_and_iff bit_or_iff bit_0x80) simp
    qed
    have "length (PutUvarint (drop_bit 7 u)) \<le> j" using "1.prems" by (simp add: k PutUvarint_large [OF True])
    from "1.IH" [OF True this] h show ?thesis by (simp add: k PutUvarint_large [OF True] Let_def)
  next
    case False
    then have u: "u < 0x80" by simp
    have "(ucast u :: byte) AND 0x80 = 0"
    proof (rule bit_word_eqI)
      fix n
      have "unat (ucast u :: byte) < 2 ^ 7" using ucast_u64_less(1) [OF u] by (simp add: word_less_nat_alt)
      then have "\<not> bit (unat (ucast u :: byte)) 7" by (simp add: bit_iff_odd)
      then have "\<not> bit (ucast u :: byte) 7" by (simp only: bit_unsigned_iff) simp
      then show "bit ((ucast u :: byte) AND 0x80) n = bit (0 :: byte) n"
        unfolding bit_and_iff bit_0x80 by auto
    qed
    then show ?thesis by (simp add: k PutUvarint_small [OF u])
  qed
qed

lemma UnmarshalBinary_frame:
  assumes "length bz < 2 ^ 63" "length bz + length junk < 2 ^ 63"
  shows "UnmarshalBinary unmarshal (PutUvarint (of_nat (length bz)) @ bz @ junk) =
    (if junk = [] then unmarshal bz else Inl ''Bytes left over in UnmarshalBinary'')"
proof -
  have "of_nat (length bz) < (of_nat (length bz + length junk) :: u64)" if "junk \<noteq> []"
    using that count_ok(3) [OF assms(1)] count_ok(3) [OF assms(2)] by (simp add: word_less_nat_alt)
  then show ?thesis
    by (cases "junk = []") (simp_all add: UnmarshalBinary_def Uvarint_PutUvarint not_less [THEN iffD2, OF less_imp_le])
qed

lemma UnmarshalBinary_short:
  assumes "length bz < 2 ^ 63" "k < length bz"
  shows "UnmarshalBinary unmarshal (PutUvarint (of_nat (length bz)) @ take k bz) = Inl ''Not enough bytes to read in UnmarshalBinary''"
proof -
  have "k < 2 ^ 63" using assms by simp
  have "of_nat k < (of_nat (length bz) :: u64)"
    using assms(2) count_ok(3) [OF assms(1)] count_ok(3) [OF \<open>k < 2 ^ 63\<close>] by (simp add: word_less_nat_alt)
  then show ?thesis
    using assms(2) by (simp add: UnmarshalBinary_def Uvarint_PutUvarint min_absorb2)
qed

lemma Reader_frame:
  assumes len: "length bz < 2 ^ 62" and frame: "frame = PutUvarint (of_nat (length bz)) @ bz"
    and m: "0 \<le> m" "m = 0 \<or> int (length frame) \<le> m" "m < 2 ^ 63"
  shows "UnmarshalBinaryReader unmarshal (frame @ rest) m =
      (length frame, case unmarshal bz of Inl e \<Rightarrow> Inl (Bare e) | Inr v \<Rightarrow> Inr v)"
proof -
  let ?p = "PutUvarint (of_nat (length bz))"
  have l: "length bz < 2 ^ 63" using len by simp
  have "\<not> (of_int m :: u64) < of_nat (length bz)" if "0 < m"
  proof -
    have "nat m < 2 ^ 63" using m by simp
    from count_ok(3) [OF this] have "unat (of_int m :: u64) = nat m" using m(1) by (simp flip: of_nat_nat)
    moreover have "length bz \<le> nat m" using m that frame by auto
    ultimately show ?thesis using count_ok(3) [OF l] by (simp add: word_less_nat_alt)
  qed
  moreover have "\<not> (m - int (length ?p) < int (length bz))" if "0 < m"
    using m that frame by auto
  ultimately show ?thesis
    using m(1) count_ok [OF l]
    by (simp add: UnmarshalBinaryReader_def frame prefix_loop_Put [OF length_PutUvarint_10] Uvarint_PutUvarint Let_def)
      blast
qed

text \<open>C24. Length framing: what \<open>MarshalBinary\<close> produces, \<open>UnmarshalBinary\<close> takes apart, and a
  reader that holds it with anything behind is read by \<open>UnmarshalBinaryReader\<close> up to its end, provided
  the limit is absent or large enough. Bytes missing or left over are errors of \<open>UnmarshalBinary\<close>.\<close>

theorem framing_roundtrip:
  assumes "marshal obj = Inr bz" "length bz < 2 ^ 62" "length rest < 2 ^ 62"
    "0 \<le> maxSize" "maxSize = 0 \<or> int (length bz) + 10 \<le> maxSize" "maxSize < 2 ^ 63"
  shows "\<exists>frame. MarshalBinary marshal obj = Inr frame \<and> UnmarshalBinary unmarshal frame = unmarshal bz \<and>
    UnmarshalBinaryReader unmarshal (frame @ rest) maxSize =
      (length frame, case unmarshal bz of Inl e \<Rightarrow> Inl (Bare e) | Inr v \<Rightarrow> Inr v) \<and>
    (rest \<noteq> [] \<longrightarrow> (\<exists>e. UnmarshalBinary unmarshal (frame @ rest) = Inl e)) \<and>
    (\<forall>k < length bz. \<exists>e. UnmarshalBinary unmarshal (take (length frame - length bz + k) frame) = Inl e)"
proof -
  let ?p = "PutUvarint (of_nat (length bz))"
  have "length bz < 2 ^ 63" "length bz + length rest < 2 ^ 63" using assms by simp_all
  moreover have "maxSize = 0 \<or> int (length (?p @ bz)) \<le> maxSize"
    using assms(5) length_PutUvarint_10 [of "of_nat (length bz)"] by auto
  ultimately show ?thesis
    using UnmarshalBinary_frame [of bz "[]" unmarshal] UnmarshalBinary_frame [of bz rest unmarshal]
      UnmarshalBinary_short [of bz _ unmarshal] Reader_frame [OF assms(2) refl assms(4) _ assms(6)]
    by (intro exI [of _ "?p @ bz"]) (simp add: MarshalBinary_def assms(1))
qed

theorem framing_roundtrip_witness:
  "\<exists>frame. MarshalBinary Inr [1, 2, 3] = Inr frame \<and> UnmarshalBinary Inr frame = Inr [1, 2, 3] \<and>
     UnmarshalBinaryReader Inr (frame @ [9]) 13 = (length frame, Inr [1, 2, 3])"
  using framing_roundtrip [of Inr "[1, 2, 3]" "[1, 2, 3]" "[9]" 13 Inr] by auto

section \<open>What the decoders let through\<close>

lemma uvarint_loop_truncated: "uvarint_loop i x s (replicate k 0xFF) = (0, 0)"
  by (induction k arbitrary: i x s) simp_all

text \<open>C39. Input the decoders should refuse. A varint that is missing or cut off decodes to zero with no
  error and no byte read, since only a negative count is checked; so do the \<open>int8\<close> and \<open>int16\<close> built
  on it. These two check their range from above only, so that \<open>-129\<close> decodes to \<open>127\<close> and \<open>-32769\<close> to
  \<open>32767\<close>. Without a limit, a length prefix of \<open>2 ^ 63\<close> makes the reader panic: the error is set but
  not returned before the buffer is made.\<close>

theorem decoder_defects:
  "DecodeVarint (replicate k 0xFF) = (0, 0, None) \<and> DecodeInt8 (replicate k 0xFF) = (0, 0, None) \<and>
   DecodeInt16 (replicate k 0xFF) = (0, 0, None) \<and> snd (snd (DecodeUvarint (replicate k 0xFF))) \<noteq> None \<and>
   DecodeInt8 (PutVarint (- 129)) = (127, length (PutVarint (- 129)), None) \<and>
   DecodeInt16 (PutVarint (- 32769)) = (32767, length (PutVarint (- 32769)), None) \<and>
   UnmarshalBinaryReader unmarshal (PutUvarint (2 ^ 63) @ r) 0 = (length (PutUvarint (2 ^ 63)), Inl MakePanic)"
proof (intro conjI)
  show v: "DecodeVarint (replicate k 0xFF) = (0, 0, None)"
    by (simp add: DecodeVarint_def Varint_def Uvarint_def uvarint_loop_truncated)
  then show "DecodeInt8 (replicate k 0xFF) = (0, 0, None)" "DecodeInt16 (replicate k 0xFF) = (0, 0, None)"
    by (simp_all add: DecodeInt8_def DecodeInt16_def word_sless_alt)
  show "snd (snd (DecodeUvarint (replicate k 0xFF))) \<noteq> None"
    by (simp add: DecodeUvarint_def Uvarint_def uvarint_loop_truncated)
  show "DecodeInt8 (PutVarint (- 129)) = (127, length (PutVarint (- 129)), None)"
    using DecodeVarint_enc [of "- 129" "[]"] by (simp add: DecodeInt8_def word_sless_alt)
  show "DecodeInt16 (PutVarint (- 32769)) = (32767, length (PutVarint (- 32769)), None)"
    using DecodeVarint_enc [of "- 32769" "[]"] by (simp add: DecodeInt16_def word_sless_alt)
  show "UnmarshalBinaryReader unmarshal (PutUvarint (2 ^ 63) @ r) 0 = (length (PutUvarint (2 ^ 63)), Inl MakePanic)"
    by (simp add: UnmarshalBinaryReader_def prefix_loop_Put [OF length_PutUvarint_10] Uvarint_PutUvarint Let_def)
qed

end
