(* ===== verification/AminoTypes.thy ===== *)
theory AminoTypes
  imports AminoLaws GoStrings "HOL-Library.AList"
begin

text \<open>
  The types go-amino reflects on and its registry: type bytes
  (\<^verbatim>\<open>src/tendermint/go-amino/reflect.go\<close>), struct and field information, and the
  codec that interfaces and concrete types are registered with
  (\<^verbatim>\<open>src/tendermint/go-amino/codec.go\<close>). A panic inside a registration leaves the
  codec usable, so the registrations return the codec together with the panic, if any. Types are
  finite trees; types with \<open>MarshalAmino\<close> or \<open>UnmarshalAmino\<close> methods are not represented.
\<close>

section \<open>Types\<close>

text \<open>\<open>ATime\<close> is \<^verbatim>\<open>time.Time\<close>, \<open>AInterface\<close> a named interface, \<open>ANamed\<close> a defined type with
  its underlying type, \<open>AOther\<close> a channel, function or complex number. A struct field is its name,
  its tags \<open>binary\<close>, \<open>amino\<close> and \<open>json\<close>, whether it is exported, and its type. An element type
  of kind \<open>uint8\<close> is meant to be \<^verbatim>\<open>byte\<close> itself.\<close>

datatype aty = ABool | AInt | AInt8 | AInt16 | AInt32 | AInt64 | AUint | AUint8 | AUint16 | AUint32 | AUint64
  | AFloat32 | AFloat64 | AString | ATime | AMap | AOther | AInterface string
  | ASlice aty | AArray nat aty | APtr aty | ANamed string aty
  | AStruct "(string \<times> (string \<times> string \<times> string) \<times> bool \<times> aty) list"

type_synonym afield = "string \<times> (string \<times> string \<times> string) \<times> bool \<times> aty"

text \<open>The underlying type gives \<^verbatim>\<open>Kind\<close> and \<^verbatim>\<open>Elem\<close>.\<close>

fun under :: "aty \<Rightarrow> aty" where
  "under (ANamed s t) = under t"
| "under t = t"

definition is_ptr :: "aty \<Rightarrow> bool" where
  "is_ptr t \<longleftrightarrow> (case under t of APtr _ \<Rightarrow> True | _ \<Rightarrow> False)"

definition is_iface :: "aty \<Rightarrow> bool" where
  "is_iface t \<longleftrightarrow> (case under t of AInterface _ \<Rightarrow> True | _ \<Rightarrow> False)"

definition is_byte :: "aty \<Rightarrow> bool" where
  "is_byte t \<longleftrightarrow> under t = AUint8"

text \<open>\<open>for rt.Kind() == reflect.Ptr { rt = rt.Elem() }\<close>\<close>

fun deref_ty :: "aty \<Rightarrow> aty" where
  "deref_ty (APtr t) = deref_ty t"
| "deref_ty (ANamed s t) = (if is_ptr t then deref_ty t else ANamed s t)"
| "deref_ty t = t"

section \<open>Options and type bytes\<close>

record FieldOptions =
  JSONName :: string
  JSONOmitEmpty :: bool
  BinVarint :: bool
  BinFieldNum :: u32
  Unsafe :: bool

definition no_options :: FieldOptions where
  "no_options = \<lparr>JSONName = '''', JSONOmitEmpty = False, BinVarint = False, BinFieldNum = 0, Unsafe = False\<rparr>"

definition Typ3_Varint :: byte where "Typ3_Varint = 0"
definition Typ3_ByteLength :: byte where "Typ3_ByteLength = 2"
definition Typ3_Struct :: byte where "Typ3_Struct = 3"
definition Typ3_List :: byte where "Typ3_List = 6"
definition Typ3_Interface :: byte where "Typ3_Interface = 7"
definition Typ4_Pointer :: byte where "Typ4_Pointer = 0x08"

text \<open>\<open>None\<close> is the panic on an unsupported type, pointers included.\<close>

definition typeToTyp3 :: "aty \<Rightarrow> FieldOptions \<Rightarrow> byte option" where
  "typeToTyp3 rt opts =
     (case under rt of
        AInterface _ \<Rightarrow> Some Typ3_Interface
      | AArray _ ert \<Rightarrow> Some (if is_byte ert then Typ3_ByteLength else Typ3_List)
      | ASlice ert \<Rightarrow> Some (if is_byte ert then Typ3_ByteLength else Typ3_List)
      | AString \<Rightarrow> Some Typ3_ByteLength
      | AStruct _ \<Rightarrow> Some Typ3_Struct
      | ATime \<Rightarrow> Some Typ3_Struct
      | AMap \<Rightarrow> Some Typ3_Struct
      | AInt64 \<Rightarrow> Some (if BinVarint opts then Typ3_Varint else Typ3_8Byte)
      | AUint64 \<Rightarrow> Some (if BinVarint opts then Typ3_Varint else Typ3_8Byte)
      | AFloat64 \<Rightarrow> Some Typ3_8Byte
      | AInt32 \<Rightarrow> Some Typ3_4Byte
      | AUint32 \<Rightarrow> Some Typ3_4Byte
      | AFloat32 \<Rightarrow> Some Typ3_4Byte
      | AInt16 \<Rightarrow> Some Typ3_Varint
      | AInt8 \<Rightarrow> Some Typ3_Varint
      | AInt \<Rightarrow> Some Typ3_Varint
      | AUint16 \<Rightarrow> Some Typ3_Varint
      | AUint8 \<Rightarrow> Some Typ3_Varint
      | AUint \<Rightarrow> Some Typ3_Varint
      | ABool \<Rightarrow> Some Typ3_Varint
      | APtr _ \<Rightarrow> None
      | _ \<Rightarrow> None)"

definition typeToTyp4 :: "aty \<Rightarrow> FieldOptions \<Rightarrow> byte option" where
  "typeToTyp4 rt opts =
     map_option (\<lambda>typ. if is_ptr rt then typ OR Typ4_Pointer else typ) (typeToTyp3 (deref_ty rt) opts)"

section \<open>Type information\<close>

record field_info =
  FName :: string
  FType :: aty
  FIndex :: nat
  FOptions :: FieldOptions
  BinTyp3 :: byte

record concrete_info =
  c_Type :: aty
  Registered :: bool
  PointerPreferred :: bool
  c_Name :: string
  Disamb :: bytes
  Prefix :: bytes
  Fields :: "field_info list"

record interface_info =
  i_Type :: aty
  Priority :: "bytes list"
  AlwaysDisambiguate :: bool
  Implementers :: "(bytes \<times> concrete_info list) list"

datatype type_info = IInfo interface_info | CInfo concrete_info

definition GetDisfix :: "concrete_info \<Rightarrow> bytes" where
  "GetDisfix cinfo = toDisfix (Disamb cinfo) (Prefix cinfo)"

text \<open>Whether a field is skipped, and its options.\<close>

definition parseFieldOptions :: "afield \<Rightarrow> bool \<times> FieldOptions" where
  "parseFieldOptions field =
     (case field of (name, (binTag, aminoTag, jsonTag), exported, typ) \<Rightarrow>
       if jsonTag = ''-'' then (True, no_options)
       else let parts = split_on (CHR '','') jsonTag
            in (False, \<lparr>JSONName = (if parts ! 0 = '''' then name else parts ! 0),
                  JSONOmitEmpty = (length parts > 1 \<and> parts ! 1 = ''omitempty''),
                  BinVarint = (binTag = ''varint''), BinFieldNum = 0, Unsafe = (aminoTag = ''unsafe'')\<rparr>))"

text \<open>\<open>False\<close> is the panic on a float that is not marked as unsafe.\<close>

definition checkUnsafe :: "field_info \<Rightarrow> bool" where
  "checkUnsafe field \<longleftrightarrow> Unsafe (FOptions field) \<or> (under (FType field) \<noteq> AFloat32 \<and> under (FType field) \<noteq> AFloat64)"

text \<open>The loop over the fields from field \<open>i\<close> on, with the information collected so far;
  \<open>None\<close> is a panic.\<close>

fun parse_fields :: "nat \<Rightarrow> afield list \<Rightarrow> field_info list \<Rightarrow> field_info list option" where
  "parse_fields i [] infos = Some infos"
| "parse_fields i ((name, tags, exported, ftype) # fs) infos =
     (if \<not> exported then parse_fields (i + 1) fs infos
      else case parseFieldOptions (name, tags, exported, ftype) of
        (skip, opts) \<Rightarrow>
          if skip then parse_fields (i + 1) fs infos
          else let opts = opts\<lparr>BinFieldNum := of_nat (length infos + 1)\<rparr>
               in case typeToTyp4 ftype opts of
                    None \<Rightarrow> None
                  | Some typ4 \<Rightarrow>
                      let info = \<lparr>FName = name, FType = ftype, FIndex = i, FOptions = opts, BinTyp3 = Typ4_Typ3 typ4\<rparr>
                      in if checkUnsafe info then parse_fields (i + 1) fs (infos @ [info]) else None)"

definition parseStructInfo :: "aty \<Rightarrow> field_info list option" where
  "parseStructInfo rt =
     (case under rt of AStruct fs \<Rightarrow> parse_fields 0 fs [] | ATime \<Rightarrow> Some [] | _ \<Rightarrow> None)"

definition is_struct :: "aty \<Rightarrow> bool" where
  "is_struct t \<longleftrightarrow> (case under t of AStruct _ \<Rightarrow> True | ATime \<Rightarrow> True | _ \<Rightarrow> False)"

definition newTypeInfoUnregistered :: "aty \<Rightarrow> concrete_info option" where
  "newTypeInfoUnregistered rt =
     (if is_ptr rt \<or> is_iface rt then None
      else map_option (\<lambda>fs. \<lparr>c_Type = rt, Registered = False, PointerPreferred = False, c_Name = '''',
                             Disamb = [0, 0, 0], Prefix = [0, 0, 0, 0], Fields = fs\<rparr>)
             (if is_struct rt then parseStructInfo rt else Some []))"

section \<open>The codec\<close>

text \<open>The information of an interface is mutated when implementers are added and shared between
  \<open>typeInfos\<close> and \<open>interfaceInfos\<close>: it is kept once, under the interface type, and
  \<open>interfaceInfos\<close> lists the interface types in the order of registration. Information on concrete
  types does not change once made.\<close>

record codec =
  typeInfos :: "aty \<rightharpoonup> concrete_info"
  ifaceInfos :: "aty \<rightharpoonup> interface_info"
  interfaceInfos :: "aty list"
  concreteInfos :: "concrete_info list"
  disfixToTypeInfo :: "bytes \<rightharpoonup> concrete_info"

definition NewCodec :: codec where
  "NewCodec = \<lparr>typeInfos = Map.empty, ifaceInfos = Map.empty, interfaceInfos = [], concreteInfos = [],
     disfixToTypeInfo = Map.empty\<rparr>"

definition setTypeInfo_nolock :: "concrete_info \<Rightarrow> codec \<Rightarrow> codec \<times> string option" where
  "setTypeInfo_nolock info cdc =
     (if is_ptr (c_Type info) then (cdc, Some ''unexpected pointer type'')
      else if typeInfos cdc (c_Type info) \<noteq> None then (cdc, Some ''TypeInfo already exists'')
      else let cdc = cdc\<lparr>typeInfos := (typeInfos cdc)(c_Type info \<mapsto> info)\<rparr>
           in if Registered info then
                let cdc = cdc\<lparr>concreteInfos := concreteInfos cdc @ [info]\<rparr>; disfix = GetDisfix info
                in if disfixToTypeInfo cdc disfix \<noteq> None then (cdc, Some ''disfix already registered'')
                   else (cdc\<lparr>disfixToTypeInfo := (disfixToTypeInfo cdc)(disfix \<mapsto> info)\<rparr>, None)
              else (cdc, None))"

definition setInterfaceInfo_nolock :: "interface_info \<Rightarrow> codec \<Rightarrow> codec \<times> string option" where
  "setInterfaceInfo_nolock info cdc =
     (if ifaceInfos cdc (i_Type info) \<noteq> None then (cdc, Some ''TypeInfo already exists'')
      else (cdc\<lparr>ifaceInfos := (ifaceInfos cdc)(i_Type info \<mapsto> info), interfaceInfos := interfaceInfos cdc @ [i_Type info]\<rparr>, None))"

text \<open>The implementers under a prefix; a missing key is the empty list.\<close>

definition impls :: "interface_info \<Rightarrow> bytes \<Rightarrow> concrete_info list" where
  "impls iinfo pb = (case map_of (Implementers iinfo) pb of Some cs \<Rightarrow> cs | None \<Rightarrow> [])"

text \<open>\<open>implements t it\<close>: whether type \<open>t\<close> implements the interface type \<open>it\<close>, a relation of Go's type
  checker and a parameter here.\<close>

type_synonym implements = "aty \<Rightarrow> aty \<Rightarrow> bool"

definition add_implementer :: "concrete_info \<Rightarrow> interface_info \<Rightarrow> interface_info" where
  "add_implementer cinfo iinfo =
     iinfo\<lparr>Implementers := AList.update (Prefix cinfo) (impls iinfo (Prefix cinfo) @ [cinfo]) (Implementers iinfo)\<rparr>"

definition collectImplementers_nolock :: "implements \<Rightarrow> codec \<Rightarrow> interface_info \<Rightarrow> interface_info" where
  "collectImplementers_nolock impl cdc info =
     fold (\<lambda>cinfo info. if impl (APtr (c_Type cinfo)) (i_Type info) then add_implementer cinfo info else info)
       (concreteInfos cdc) info"

definition checkConflictsInPrio_nolock :: "interface_info \<Rightarrow> bool" where
  "checkConflictsInPrio_nolock iinfo \<longleftrightarrow>
     list_all (\<lambda>(pb, cinfos). length cinfos < 2 \<or> list_all (\<lambda>cinfo. GetDisfix cinfo \<in> set (Priority iinfo)) cinfos)
       (Implementers iinfo)"

text \<open>The loop over the registered interfaces; on a conflict the interface at hand is put back, and
  the panic leaves the ones before it as they are.\<close>

fun addCheckConflicts :: "implements \<Rightarrow> concrete_info \<Rightarrow> aty list \<Rightarrow> codec \<Rightarrow> codec \<times> string option" where
  "addCheckConflicts impl cinfo [] cdc = (cdc, None)"
| "addCheckConflicts impl cinfo (it # its) cdc =
     (if \<not> impl (APtr (c_Type cinfo)) it then addCheckConflicts impl cinfo its cdc
      else case ifaceInfos cdc it of
        None \<Rightarrow> (cdc, Some ''nil'')
      | Some iinfo \<Rightarrow>
          (let iinfo' = add_implementer cinfo iinfo
           in if checkConflictsInPrio_nolock iinfo'
              then addCheckConflicts impl cinfo its (cdc\<lparr>ifaceInfos := (ifaceInfos cdc)(it \<mapsto> iinfo')\<rparr>)
              else (cdc\<lparr>ifaceInfos := (ifaceInfos cdc)(it \<mapsto>
                      iinfo'\<lparr>Implementers := AList.update (Prefix cinfo) (impls iinfo (Prefix cinfo)) (Implementers iinfo')\<rparr>)\<rparr>,
                    Some ''conflicts'')))"

definition addCheckConflictsWithConcrete_nolock :: "implements \<Rightarrow> concrete_info \<Rightarrow> codec \<Rightarrow> codec \<times> string option" where
  "addCheckConflictsWithConcrete_nolock impl cinfo cdc = addCheckConflicts impl cinfo (interfaceInfos cdc) cdc"

definition getTypeFromPointer :: "aty \<Rightarrow> aty option" where
  "getTypeFromPointer rt = (case under rt of APtr t \<Rightarrow> Some t | _ \<Rightarrow> None)"

text \<open>The disfixes of the priority list; \<open>None\<close> is the panic of a hash that runs out of bytes.\<close>

fun disfixes :: "(bytes \<Rightarrow> bytes) \<Rightarrow> string list \<Rightarrow> bytes list option" where
  "disfixes sha256 [] = Some []"
| "disfixes sha256 (name # ns) =
     (case nameToDisfix sha256 (to_bytes name) of
        None \<Rightarrow> None
      | Some (db, pb) \<Rightarrow> map_option ((#) (toDisfix db pb)) (disfixes sha256 ns))"

definition newTypeInfoFromInterfaceType :: "(bytes \<Rightarrow> bytes) \<Rightarrow> aty \<Rightarrow> (string list \<times> bool) option \<Rightarrow> interface_info option" where
  "newTypeInfoFromInterfaceType sha256 rt opts =
     (if \<not> is_iface rt then None
      else case opts of
        None \<Rightarrow> Some \<lparr>i_Type = rt, Priority = [], AlwaysDisambiguate = False, Implementers = []\<rparr>
      | Some (prio, always) \<Rightarrow>
          map_option (\<lambda>ds. \<lparr>i_Type = rt, Priority = ds, AlwaysDisambiguate = always, Implementers = []\<rparr>) (disfixes sha256 prio))"

definition newTypeInfoFromRegisteredConcreteType :: "(bytes \<Rightarrow> bytes) \<Rightarrow> aty \<Rightarrow> bool \<Rightarrow> string \<Rightarrow> concrete_info option" where
  "newTypeInfoFromRegisteredConcreteType sha256 rt pointerPreferred name =
     (if is_iface rt \<or> is_ptr rt then None
      else case (newTypeInfoUnregistered rt, nameToDisfix sha256 (to_bytes name)) of
        (Some info, Some (db, pb)) \<Rightarrow>
          Some (info\<lparr>Registered := True, PointerPreferred := pointerPreferred, c_Name := name, Disamb := db, Prefix := pb\<rparr>)
      | _ \<Rightarrow> None)"

text \<open>\<open>ptr\<close> is the type of the argument, \<open>opts\<close> the priority list and \<open>AlwaysDisambiguate\<close>.\<close>

definition RegisterInterface :: "implements \<Rightarrow> (bytes \<Rightarrow> bytes) \<Rightarrow> aty \<Rightarrow> (string list \<times> bool) option \<Rightarrow> codec \<Rightarrow> codec \<times> string option" where
  "RegisterInterface impl sha256 ptr opts cdc =
     (case getTypeFromPointer ptr of
        None \<Rightarrow> (cdc, Some ''expected pointer'')
      | Some rt \<Rightarrow>
          (if \<not> is_iface rt then (cdc, Some ''RegisterInterface expects an interface'')
           else case newTypeInfoFromInterfaceType sha256 rt opts of
             None \<Rightarrow> (cdc, Some ''index out of range'')
           | Some info \<Rightarrow>
               (let info = collectImplementers_nolock impl cdc info
                in if checkConflictsInPrio_nolock info then setInterfaceInfo_nolock info cdc
                   else (cdc, Some ''conflicts''))))"

definition RegisterConcrete :: "implements \<Rightarrow> (bytes \<Rightarrow> bytes) \<Rightarrow> aty \<Rightarrow> string \<Rightarrow> codec \<Rightarrow> codec \<times> string option" where
  "RegisterConcrete impl sha256 o_type name cdc =
     (if is_iface o_type then (cdc, Some ''expected a non-interface'')
      else
        let (rt, pointerPreferred) = (case under o_type of APtr t \<Rightarrow> (t, True) | _ \<Rightarrow> (o_type, False))
        in if pointerPreferred \<and> is_ptr rt then (cdc, Some ''registering pointer-pointers not yet supported'')
           else if pointerPreferred \<and> is_iface rt then (cdc, Some ''registering interface-pointers not yet supported'')
           else case newTypeInfoFromRegisteredConcreteType sha256 rt pointerPreferred name of
                  None \<Rightarrow> (cdc, Some ''panic in newTypeInfo'')
                | Some info \<Rightarrow>
                    (case addCheckConflictsWithConcrete_nolock impl info cdc of
                       (cdc, Some p) \<Rightarrow> (cdc, Some p)
                     | (cdc, None) \<Rightarrow> setTypeInfo_nolock info cdc))"

section \<open>Lookups\<close>

text \<open>The codec afterwards, and the panic (\<open>None\<close>), the error or the information.\<close>

definition getTypeInfo_wlock :: "aty \<Rightarrow> codec \<Rightarrow> codec \<times> (string + type_info) option" where
  "getTypeInfo_wlock rt cdc =
     (let rt = deref_ty rt
      in if is_iface rt then
           (case ifaceInfos cdc rt of
              Some info \<Rightarrow> (cdc, Some (Inr (IInfo info)))
            | None \<Rightarrow> (cdc, Some (Inl ''Unregistered interface'')))
         else case typeInfos cdc rt of
                Some info \<Rightarrow> (cdc, Some (Inr (CInfo info)))
              | None \<Rightarrow>
                  (case newTypeInfoUnregistered rt of
                     None \<Rightarrow> (cdc, None)
                   | Some info \<Rightarrow>
                       (case setTypeInfo_nolock info cdc of
                          (cdc, Some p) \<Rightarrow> (cdc, None)
                        | (cdc, None) \<Rightarrow> (cdc, Some (Inr (CInfo info))))))"

definition getTypeInfoFromPrefix_rlock :: "interface_info \<Rightarrow> bytes \<Rightarrow> (string + concrete_info) option" where
  "getTypeInfoFromPrefix_rlock iinfo pb =
     (case map_of (Implementers iinfo) pb of
        None \<Rightarrow> Some (Inl ''unrecognized prefix bytes'')
      | Some infos \<Rightarrow>
          (if length infos > 1 then Some (Inl ''Conflicting concrete types registered'')
           else if infos = [] then None else Some (Inr (infos ! 0))))"

definition getTypeInfoFromDisfix_rlock :: "codec \<Rightarrow> bytes \<Rightarrow> string + concrete_info" where
  "getTypeInfoFromDisfix_rlock cdc df =
     (case disfixToTypeInfo cdc df of
        None \<Rightarrow> Inl ''unrecognized disambiguation+prefix bytes''
      | Some info \<Rightarrow> Inr info)"

end
