(* ===== verification/AminoRegistry.thy ===== *)
theory AminoRegistry
  imports AminoTypes
begin

text \<open>
  Laws of the go-amino registry: the codecs that successful registrations and lookups reach, their
  invariant, and what the two lookups used by the interface decoder return.
\<close>

section \<open>Prefix bytes\<close>

definition disamb_ok :: "bytes \<Rightarrow> bool" where
  "disamb_ok db \<longleftrightarrow> length db = 3 \<and> db ! 0 \<noteq> 0"

definition prefix_ok :: "bytes \<Rightarrow> bool" where
  "prefix_ok pb \<longleftrightarrow> length pb = 4 \<and> pb ! 0 \<noteq> 0 \<and> pb ! 3 AND 0x07 = 0"

lemma skip_zeros_hd: "skip_zeros bz = Some xs \<Longrightarrow> xs \<noteq> [] \<and> xs ! 0 \<noteq> 0"
  by (induction bz) (auto split: if_splits)

lemma and_F8_and_7: "((b :: byte) AND 0xF8) AND 0x07 = 0"
proof -
  have f: "(0xF8 :: byte) = NOT (mask 3)" and m: "(0x07 :: byte) = mask 3" by (simp_all add: mask_eq_exp_minus_1)
  show ?thesis unfolding f m by (rule bit_word_eqI) (auto simp: bit_simps)
qed

lemma nameToDisfix_ok: "nameToDisfix sha256 name = Some (db, pb) \<Longrightarrow> disamb_ok db \<and> prefix_ok pb"
  by (auto simp: nameToDisfix_def bind_eq_Some_conv first_bytes_def disamb_ok_def prefix_ok_def and_F8_and_7
      dest!: skip_zeros_hd split: if_splits)

text \<open>The type byte in the last byte of the prefix can be split off again.\<close>

lemma SplitTyp3_WithTyp3:
  assumes "prefix_ok pb" "typ3 AND 0xF8 = 0"
  shows "SplitTyp3 (WithTyp3 pb typ3) = (pb, typ3)"
proof -
  have f: "(0xF8 :: byte) = NOT (mask 3)" and m: "(0x07 :: byte) = mask 3" by (simp_all add: mask_eq_exp_minus_1)
  have p: "length pb = 4" "pb ! 3 AND mask 3 = 0" using assms(1) by (simp_all add: prefix_ok_def m)
  have "(pb ! 3 OR typ3) AND 0xF8 = pb ! 3 AND 0xF8"
    using assms(2) by (simp add: bit.conj_disj_distrib2)
  also have "\<dots> = pb ! 3 AND (NOT (mask 3) OR mask 3)"
    unfolding f by (simp only: bit.conj_disj_distrib p(2) or.right_neutral)
  finally have a: "(pb ! 3 OR typ3) AND 0xF8 = pb ! 3" by simp
  have "typ3 AND (NOT (mask 3) OR mask 3) = typ3" by simp
  then have "typ3 AND mask 3 = typ3"
    using assms(2) unfolding f by (simp only: bit.conj_disj_distrib or.left_neutral)
  then have b: "(pb ! 3 OR typ3) AND 0x07 = typ3"
    unfolding m by (simp add: bit.conj_disj_distrib2 p(2))
  show ?thesis using p(1) a b by (simp add: SplitTyp3_def WithTyp3_def)
qed

section \<open>The invariant\<close>

definition implementers_of :: "implements \<Rightarrow> codec \<Rightarrow> aty \<Rightarrow> bytes \<Rightarrow> concrete_info list" where
  "implementers_of impl cdc it pb = filter (\<lambda>c. impl (APtr (c_Type c)) it \<and> Prefix c = pb) (concreteInfos cdc)"

definition iface_ok :: "implements \<Rightarrow> codec \<Rightarrow> aty \<Rightarrow> interface_info \<Rightarrow> bool" where
  "iface_ok impl cdc it ii \<longleftrightarrow> i_Type ii = it \<and> is_iface it \<and> distinct (map fst (Implementers ii)) \<and>
     [] \<notin> snd ` set (Implementers ii) \<and> (\<forall>pb. impls ii pb = implementers_of impl cdc it pb) \<and>
     checkConflictsInPrio_nolock ii"

definition concrete_ok :: "codec \<Rightarrow> concrete_info \<Rightarrow> bool" where
  "concrete_ok cdc c \<longleftrightarrow> Registered c \<and> disamb_ok (Disamb c) \<and> prefix_ok (Prefix c) \<and>
     typeInfos cdc (c_Type c) = Some c \<and> disfixToTypeInfo cdc (GetDisfix c) = Some c"

definition type_ok :: "codec \<Rightarrow> aty \<Rightarrow> concrete_info \<Rightarrow> bool" where
  "type_ok cdc t c \<longleftrightarrow> c_Type c = t \<and> \<not> is_ptr t \<and> \<not> is_iface t \<and>
     map_option Fields (newTypeInfoUnregistered t) = Some (Fields c) \<and> (Registered c \<longrightarrow> c \<in> set (concreteInfos cdc))"

definition codec_inv :: "implements \<Rightarrow> codec \<Rightarrow> bool" where
  "codec_inv impl cdc \<longleftrightarrow>
     (\<forall>t c. typeInfos cdc t = Some c \<longrightarrow> type_ok cdc t c) \<and>
     (\<forall>c \<in> set (concreteInfos cdc). concrete_ok cdc c) \<and>
     (\<forall>df c. disfixToTypeInfo cdc df = Some c \<longrightarrow> c \<in> set (concreteInfos cdc) \<and> GetDisfix c = df) \<and>
     distinct (concreteInfos cdc) \<and> distinct (interfaceInfos cdc) \<and> set (interfaceInfos cdc) = dom (ifaceInfos cdc) \<and>
     (\<forall>it ii. ifaceInfos cdc it = Some ii \<longrightarrow> iface_ok impl cdc it ii)"

lemma codec_inv_New: "codec_inv impl NewCodec"
  by (simp add: codec_inv_def NewCodec_def)

subsection \<open>Implementers\<close>

lemma impls_add: "impls (add_implementer c ii) pb = (if pb = Prefix c then impls ii pb @ [c] else impls ii pb)"
  by (simp add: add_implementer_def impls_def update_conv')

lemma add_implementer_sel [simp]: "i_Type (add_implementer c ii) = i_Type ii" "Priority (add_implementer c ii) = Priority ii"
  "AlwaysDisambiguate (add_implementer c ii) = AlwaysDisambiguate ii"
  by (simp_all add: add_implementer_def)

lemma add_implementer_keys: "distinct (map fst (Implementers ii)) \<Longrightarrow> distinct (map fst (Implementers (add_implementer c ii)))"
  by (simp add: add_implementer_def distinct_update)

lemma set_update_subset: "set (AList.update k v al) \<subseteq> insert (k, v) (set al)"
  by (induction al) auto

lemma add_implementer_ne: "[] \<notin> snd ` set (Implementers ii) \<Longrightarrow> [] \<notin> snd ` set (Implementers (add_implementer c ii))"
  using set_update_subset [of "Prefix c" "impls ii (Prefix c) @ [c]" "Implementers ii"]
  by (auto simp: add_implementer_def)

lemma collect_props:
  "distinct (map fst (Implementers info)) \<Longrightarrow> [] \<notin> snd ` set (Implementers info) \<Longrightarrow>
   (let r = fold (\<lambda>c info. if impl (APtr (c_Type c)) (i_Type info) then add_implementer c info else info) cs info
    in i_Type r = i_Type info \<and> distinct (map fst (Implementers r)) \<and> [] \<notin> snd ` set (Implementers r) \<and>
       (\<forall>pb. impls r pb = impls info pb @ filter (\<lambda>c. impl (APtr (c_Type c)) (i_Type info) \<and> Prefix c = pb) cs))"
proof (induction cs arbitrary: info)
  case (Cons c cs)
  let ?i = "if impl (APtr (c_Type c)) (i_Type info) then add_implementer c info else info"
  have "distinct (map fst (Implementers ?i))" "[] \<notin> snd ` set (Implementers ?i)"
    using Cons.prems by (auto simp: add_implementer_keys add_implementer_ne)
  from Cons.IH [OF this] show ?case
    by (auto simp: Let_def impls_add)
qed simp

subsection \<open>Preservation\<close>

lemma codec_inv_RegisterInterface:
  assumes inv: "codec_inv impl cdc"
  shows "codec_inv impl (fst (RegisterInterface impl sha256 ptr opts cdc))"
proof (cases "snd (RegisterInterface impl sha256 ptr opts cdc)")
  case (Some p)
  then have "fst (RegisterInterface impl sha256 ptr opts cdc) = cdc"
    by (auto simp: RegisterInterface_def setInterfaceInfo_nolock_def Let_def split: option.splits if_splits)
  with inv show ?thesis by simp
next
  case None
  then obtain rt info r where rt: "is_iface rt" "newTypeInfoFromInterfaceType sha256 rt opts = Some info"
      and r: "r = collectImplementers_nolock impl cdc info" "checkConflictsInPrio_nolock r" "ifaceInfos cdc (i_Type r) = None"
      and eq: "fst (RegisterInterface impl sha256 ptr opts cdc) =
        cdc\<lparr>ifaceInfos := (ifaceInfos cdc)(i_Type r \<mapsto> r), interfaceInfos := interfaceInfos cdc @ [i_Type r]\<rparr>"
    by (auto simp: RegisterInterface_def setInterfaceInfo_nolock_def Let_def split: option.splits if_splits)
  have i: "i_Type info = rt" "Implementers info = []"
    using rt by (auto simp: newTypeInfoFromInterfaceType_def split: if_splits option.splits)
  have ok: "iface_ok impl cdc rt r"
    using collect_props [of info impl "concreteInfos cdc"] i r rt(1)
    by (simp add: iface_ok_def collectImplementers_nolock_def Let_def implementers_of_def impls_def)
  then have t: "i_Type r = rt" by (simp add: iface_ok_def)
  then have new: "ifaceInfos cdc rt = None" using r(3) by simp
  have "iface_ok impl (cdc\<lparr>ifaceInfos := f, interfaceInfos := g\<rparr>) = iface_ok impl cdc"
    "type_ok (cdc\<lparr>ifaceInfos := f, interfaceInfos := g\<rparr>) = type_ok cdc"
    "concrete_ok (cdc\<lparr>ifaceInfos := f, interfaceInfos := g\<rparr>) = concrete_ok cdc" for f g
    by (intro ext, simp add: iface_ok_def implementers_of_def type_ok_def concrete_ok_def)+
  moreover have "rt \<notin> set (interfaceInfos cdc)" using inv new by (auto simp: codec_inv_def)
  ultimately show ?thesis
    using inv ok unfolding eq t by (simp add: codec_inv_def)
qed

lemma newTypeInfoUnregistered_sel:
  "newTypeInfoUnregistered t = Some i \<Longrightarrow> c_Type i = t \<and> \<not> Registered i \<and> \<not> is_ptr t \<and> \<not> is_iface t"
  by (auto simp: newTypeInfoUnregistered_def split: if_splits)

lemma codec_inv_getTypeInfo:
  assumes inv: "codec_inv impl cdc"
  shows "codec_inv impl (fst (getTypeInfo_wlock rt cdc))"
proof (cases "is_iface (deref_ty rt) \<or> typeInfos cdc (deref_ty rt) \<noteq> None \<or> newTypeInfoUnregistered (deref_ty rt) = None")
  case True
  then have "fst (getTypeInfo_wlock rt cdc) = cdc"
    by (auto simp: getTypeInfo_wlock_def Let_def split: option.splits)
  with inv show ?thesis by simp
next
  case False
  then obtain i where i: "newTypeInfoUnregistered (deref_ty rt) = Some i" by auto
  note sel = newTypeInfoUnregistered_sel [OF i]
  have "fst (getTypeInfo_wlock rt cdc) = cdc\<lparr>typeInfos := (typeInfos cdc)(deref_ty rt \<mapsto> i)\<rparr>"
    using False i sel by (simp add: getTypeInfo_wlock_def setTypeInfo_nolock_def Let_def)
  moreover have "iface_ok impl (cdc\<lparr>typeInfos := f\<rparr>) = iface_ok impl cdc" "type_ok (cdc\<lparr>typeInfos := f\<rparr>) = type_ok cdc" for f
    by (intro ext, simp add: iface_ok_def implementers_of_def type_ok_def)+
  moreover have "type_ok cdc (deref_ty rt) i" using i sel by (simp add: type_ok_def)
  moreover have "concrete_ok (cdc\<lparr>typeInfos := (typeInfos cdc)(deref_ty rt \<mapsto> i)\<rparr>) c" if "concrete_ok cdc c" for c
    using that False by (auto simp: concrete_ok_def)
  ultimately show ?thesis using inv by (simp add: codec_inv_def)
qed

lemma addCheckConflicts_props:
  "addCheckConflicts impl c its cdc = (cdc', None) \<Longrightarrow> distinct its \<Longrightarrow>
   typeInfos cdc' = typeInfos cdc \<and> interfaceInfos cdc' = interfaceInfos cdc \<and> concreteInfos cdc' = concreteInfos cdc \<and>
   disfixToTypeInfo cdc' = disfixToTypeInfo cdc \<and>
   (\<forall>it. ifaceInfos cdc' it =
      (if it \<in> set its \<and> impl (APtr (c_Type c)) it then map_option (add_implementer c) (ifaceInfos cdc it)
       else ifaceInfos cdc it)) \<and>
   (\<forall>it ii. it \<in> set its \<and> impl (APtr (c_Type c)) it \<and> ifaceInfos cdc it = Some ii \<longrightarrow>
      checkConflictsInPrio_nolock (add_implementer c ii))"
proof (induction its arbitrary: cdc)
  case (Cons it its)
  show ?case
  proof (cases "impl (APtr (c_Type c)) it")
    case False
    with Cons show ?thesis by auto
  next
    case True
    with Cons.prems obtain ii where ii: "ifaceInfos cdc it = Some ii" "checkConflictsInPrio_nolock (add_implementer c ii)"
      "addCheckConflicts impl c its (cdc\<lparr>ifaceInfos := (ifaceInfos cdc)(it \<mapsto> add_implementer c ii)\<rparr>) = (cdc', None)"
      by (auto simp: Let_def split: option.splits if_splits)
    from Cons.IH [OF ii(3)] Cons.prems(2) True ii(1, 2) show ?thesis by (auto) metis
  qed
qed simp

lemma RegisterConcrete_cases:
  assumes "RegisterConcrete impl sha256 t name cdc = (cdc', None)"
  obtains rt pp info cdc1 where "newTypeInfoFromRegisteredConcreteType sha256 rt pp name = Some info"
    "addCheckConflicts impl info (interfaceInfos cdc) cdc = (cdc1, None)" "setTypeInfo_nolock info cdc1 = (cdc', None)"
  using assms
  by (auto simp: RegisterConcrete_def addCheckConflictsWithConcrete_nolock_def Let_def
      split: aty.splits if_splits option.splits prod.splits)

lemma newTypeInfoFromRegistered_sel:
  assumes "newTypeInfoFromRegisteredConcreteType sha256 rt pp name = Some info"
  shows "c_Type info = rt" "Registered info" "disamb_ok (Disamb info)" "prefix_ok (Prefix info)"
    "map_option Fields (newTypeInfoUnregistered rt) = Some (Fields info)" "\<not> is_ptr rt" "\<not> is_iface rt"
proof -
  obtain i db pb where i: "newTypeInfoUnregistered rt = Some i" and d: "nameToDisfix sha256 (to_bytes name) = Some (db, pb)"
      and info: "info = i\<lparr>Registered := True, PointerPreferred := pp, c_Name := name, Disamb := db, Prefix := pb\<rparr>"
      and k: "\<not> is_ptr rt" "\<not> is_iface rt"
    using assms by (auto simp: newTypeInfoFromRegisteredConcreteType_def split: if_splits option.splits prod.splits)
  show "c_Type info = rt" "Registered info" "disamb_ok (Disamb info)" "prefix_ok (Prefix info)"
    "map_option Fields (newTypeInfoUnregistered rt) = Some (Fields info)" "\<not> is_ptr rt" "\<not> is_iface rt"
    using i info k newTypeInfoUnregistered_sel [OF i] nameToDisfix_ok [OF d] by simp_all
qed

lemma iface_ok_add:
  assumes "iface_ok impl cdc it ii" "concreteInfos cdc' = concreteInfos cdc @ [c]"
    "impl (APtr (c_Type c)) it \<Longrightarrow> checkConflictsInPrio_nolock (add_implementer c ii)"
  shows "iface_ok impl cdc' it (if impl (APtr (c_Type c)) it then add_implementer c ii else ii)"
  using assms add_implementer_ne [of ii c] add_implementer_keys [of ii c]
  by (simp add: iface_ok_def implementers_of_def impls_add)

lemma codec_inv_RegisterConcrete:
  assumes inv: "codec_inv impl cdc" and reg: "RegisterConcrete impl sha256 t name cdc = (cdc', None)"
  shows "codec_inv impl cdc'"
proof -
  obtain rt pp info cdc1 where new: "newTypeInfoFromRegisteredConcreteType sha256 rt pp name = Some info"
      and add: "addCheckConflicts impl info (interfaceInfos cdc) cdc = (cdc1, None)"
      and set: "setTypeInfo_nolock info cdc1 = (cdc', None)"
    using RegisterConcrete_cases [OF reg] .
  note sel = newTypeInfoFromRegistered_sel [OF new]
  have dist: "distinct (interfaceInfos cdc)" and dom: "set (interfaceInfos cdc) = dom (ifaceInfos cdc)"
    using inv by (simp_all add: codec_inv_def)
  note p = addCheckConflicts_props [OF add dist]
  then have same: "typeInfos cdc1 = typeInfos cdc" "interfaceInfos cdc1 = interfaceInfos cdc"
    "concreteInfos cdc1 = concreteInfos cdc" "disfixToTypeInfo cdc1 = disfixToTypeInfo cdc" by blast+
  have ifs: "ifaceInfos cdc1 it = (if it \<in> dom (ifaceInfos cdc) \<and> impl (APtr (c_Type info)) it
      then map_option (add_implementer info) (ifaceInfos cdc it) else ifaceInfos cdc it)" for it
    using p dom by auto
  have t: "typeInfos cdc rt = None" and d: "disfixToTypeInfo cdc (GetDisfix info) = None"
      and cdc': "cdc' = cdc1\<lparr>typeInfos := (typeInfos cdc)(rt \<mapsto> info), concreteInfos := concreteInfos cdc @ [info],
        disfixToTypeInfo := (disfixToTypeInfo cdc)(GetDisfix info \<mapsto> info)\<rparr>"
    using set same sel by (auto simp: setTypeInfo_nolock_def Let_def split: if_splits)
  have con: "concreteInfos cdc' = concreteInfos cdc @ [info]" by (simp add: cdc')
  have tin: "type_ok cdc u c" if "typeInfos cdc u = Some c" for u c using inv that by (simp add: codec_inv_def)
  have cin: "concrete_ok cdc c" if "c \<in> set (concreteInfos cdc)" for c using inv that by (simp add: codec_inv_def)
  have din: "c \<in> set (concreteInfos cdc)" "GetDisfix c = df" if "disfixToTypeInfo cdc df = Some c" for df c
    using inv that by (simp_all add: codec_inv_def)
  have "type_ok cdc' u c" if "typeInfos cdc' u = Some c" for u c
  proof (cases "u = rt")
    case True
    with that have "c = info" by (simp add: cdc')
    with True sel show ?thesis by (simp add: type_ok_def con)
  next
    case False
    with that have "type_ok cdc u c" by (intro tin) (simp add: cdc')
    then show ?thesis by (simp add: type_ok_def con)
  qed
  moreover have "concrete_ok cdc' c" if "c \<in> set (concreteInfos cdc')" for c
  proof (cases "c = info")
    case True
    with sel show ?thesis by (simp add: concrete_ok_def cdc')
  next
    case False
    with that have "concrete_ok cdc c" by (intro cin) (simp add: con)
    with t d show ?thesis by (auto simp: concrete_ok_def cdc')
  qed
  moreover have "c \<in> set (concreteInfos cdc') \<and> GetDisfix c = df" if "disfixToTypeInfo cdc' df = Some c" for df c
    using that din [of df c] by (cases "df = GetDisfix info") (auto simp: cdc')
  moreover have "distinct (concreteInfos cdc')"
    using inv t cin [of info] sel(1) by (auto simp: con codec_inv_def concrete_ok_def)
  moreover have "distinct (interfaceInfos cdc')" "set (interfaceInfos cdc') = dom (ifaceInfos cdc')"
    using dist dom by (auto simp: cdc' same ifs split: if_splits)
  moreover have "iface_ok impl cdc' it ii" if ii: "ifaceInfos cdc' it = Some ii" for it ii
  proof -
    obtain jj where jj: "ifaceInfos cdc it = Some jj" "ii = (if impl (APtr (c_Type info)) it then add_implementer info jj else jj)"
      using ii by (auto simp: cdc' ifs split: if_splits)
    have "iface_ok impl cdc it jj" using inv jj(1) by (simp add: codec_inv_def)
    moreover have "checkConflictsInPrio_nolock (add_implementer info jj)" if "impl (APtr (c_Type info)) it"
      using p that jj(1) dom by blast
    ultimately show ?thesis unfolding jj(2) using con by (intro iface_ok_add)
  qed
  ultimately show ?thesis by (simp add: codec_inv_def)
qed

section \<open>Reachable codecs\<close>

text \<open>The codecs of programs in which every \<open>RegisterConcrete\<close> succeeded. A \<open>RegisterInterface\<close> that
  panics leaves the codec as it was. \<open>AminoRecover\<close> treats the codecs that a recovered panic of
  \<open>RegisterConcrete\<close> leaves behind.\<close>

inductive codec_reach :: "implements \<Rightarrow> (bytes \<Rightarrow> bytes) \<Rightarrow> codec \<Rightarrow> bool" for impl sha256 where
  new: "codec_reach impl sha256 NewCodec"
| iface: "codec_reach impl sha256 cdc \<Longrightarrow> codec_reach impl sha256 (fst (RegisterInterface impl sha256 ptr opts cdc))"
| concrete: "codec_reach impl sha256 cdc \<Longrightarrow> RegisterConcrete impl sha256 t name cdc = (cdc', None) \<Longrightarrow>
    codec_reach impl sha256 cdc'"
| lookup: "codec_reach impl sha256 cdc \<Longrightarrow> codec_reach impl sha256 (fst (getTypeInfo_wlock t cdc))"

lemma codec_reach_inv: "codec_reach impl sha256 cdc \<Longrightarrow> codec_inv impl cdc"
  by (induction rule: codec_reach.induct)
    (simp_all add: codec_inv_New codec_inv_RegisterInterface codec_inv_RegisterConcrete codec_inv_getTypeInfo)

subsection \<open>Lookups\<close>

text \<open>Looking a type up may add its information to the codec; no later lookup can tell.\<close>

lemma getTypeInfo_transparent:
  "snd (getTypeInfo_wlock u (fst (getTypeInfo_wlock t cdc))) = snd (getTypeInfo_wlock u cdc)"
proof (cases "is_iface (deref_ty t) \<or> typeInfos cdc (deref_ty t) \<noteq> None \<or> newTypeInfoUnregistered (deref_ty t) = None")
  case True
  then have "fst (getTypeInfo_wlock t cdc) = cdc"
    by (auto simp: getTypeInfo_wlock_def Let_def split: option.splits)
  then show ?thesis by simp
next
  case False
  then obtain i where i: "newTypeInfoUnregistered (deref_ty t) = Some i" by auto
  note sel = newTypeInfoUnregistered_sel [OF i]
  have e: "fst (getTypeInfo_wlock t cdc) = cdc\<lparr>typeInfos := (typeInfos cdc)(deref_ty t \<mapsto> i)\<rparr>"
    using False i sel by (simp add: getTypeInfo_wlock_def setTypeInfo_nolock_def Let_def)
  show ?thesis
  proof (cases "deref_ty u = deref_ty t")
    case True
    with False i sel show ?thesis unfolding e by (simp add: getTypeInfo_wlock_def setTypeInfo_nolock_def Let_def)
  next
    case ne: False
    show ?thesis
    proof (cases "newTypeInfoUnregistered (deref_ty u)")
      case (Some j)
      then show ?thesis using ne newTypeInfoUnregistered_sel [OF Some] unfolding e
        by (auto simp: getTypeInfo_wlock_def setTypeInfo_nolock_def Let_def split: option.splits)
    qed (use ne e in \<open>simp add: getTypeInfo_wlock_def Let_def split: option.splits\<close>)
  qed
qed

lemma impls_lookup:
  assumes "iface_ok impl cdc it ii"
  shows "map_of (Implementers ii) pb =
    (if implementers_of impl cdc it pb = [] then None else Some (implementers_of impl cdc it pb))"
proof (cases "map_of (Implementers ii) pb")
  case None
  with assms show ?thesis by (metis iface_ok_def impls_def option.simps(4))
next
  case (Some cs)
  then have "cs \<noteq> []" using assms map_of_SomeD [OF Some] by (force simp: iface_ok_def)
  moreover have "impls ii pb = cs" using Some by (simp add: impls_def)
  ultimately show ?thesis using assms Some by (simp add: iface_ok_def)
qed

subsection \<open>A small codec\<close>

text \<open>One interface and one struct that implements it; the hash is a constant.\<close>

definition sample_sha :: "bytes \<Rightarrow> bytes" where
  "sample_sha name = [1, 2, 3, 4, 5, 6, 15]"

definition sample_impl :: implements where
  "sample_impl t it \<longleftrightarrow> it = AInterface ''I''"

definition sample_foo :: aty where
  "sample_foo = ANamed ''Foo'' (AStruct [(''A'', ('''', '''', ''''), True, AString)])"

definition sample_cdc1 :: codec where
  "sample_cdc1 = fst (RegisterInterface sample_impl sample_sha (APtr (AInterface ''I'')) None NewCodec)"

definition sample_cdc :: codec where
  "sample_cdc = fst (RegisterConcrete sample_impl sample_sha sample_foo ''foo'' sample_cdc1)"

definition sample_field :: field_info where
  "sample_field = \<lparr>FName = ''A'', FType = AString, FIndex = 0,
     FOptions = \<lparr>JSONName = ''A'', JSONOmitEmpty = False, BinVarint = False, BinFieldNum = 1, Unsafe = False\<rparr>,
     BinTyp3 = Typ3_ByteLength\<rparr>"

definition sample_info :: concrete_info where
  "sample_info = \<lparr>c_Type = sample_foo, Registered = True, PointerPreferred = False, c_Name = ''foo'',
     Disamb = [1, 2, 3], Prefix = [4, 5, 6, 8], Fields = [sample_field]\<rparr>"

lemma sample_cdc1_eq:
  "sample_cdc1 = NewCodec\<lparr>ifaceInfos := [AInterface ''I'' \<mapsto> \<lparr>i_Type = AInterface ''I'', Priority = [], AlwaysDisambiguate = False, Implementers = []\<rparr>],
     interfaceInfos := [AInterface ''I'']\<rparr>"
  by (simp add: sample_cdc1_def RegisterInterface_def getTypeFromPointer_def newTypeInfoFromInterfaceType_def is_iface_def
      collectImplementers_nolock_def checkConflictsInPrio_nolock_def setInterfaceInfo_nolock_def NewCodec_def)

lemma sample_new: "newTypeInfoFromRegisteredConcreteType sample_sha sample_foo False ''foo'' = Some sample_info"
  by (simp add: newTypeInfoFromRegisteredConcreteType_def newTypeInfoUnregistered_def sample_foo_def is_iface_def
      is_ptr_def is_struct_def parseStructInfo_def parseFieldOptions_def typeToTyp4_def typeToTyp3_def checkUnsafe_def
      nameToDisfix_def sample_sha_def first_bytes_def sample_info_def sample_field_def Typ4_Typ3_def Typ3_ByteLength_def
      no_options_def)

lemma sample_step:
  "RegisterConcrete sample_impl sample_sha sample_foo ''foo'' sample_cdc1 =
     (sample_cdc1\<lparr>ifaceInfos := [AInterface ''I'' \<mapsto> \<lparr>i_Type = AInterface ''I'', Priority = [], AlwaysDisambiguate = False,
          Implementers = [([4, 5, 6, 8], [sample_info])]\<rparr>],
        typeInfos := [sample_foo \<mapsto> sample_info], concreteInfos := [sample_info],
        disfixToTypeInfo := [GetDisfix sample_info \<mapsto> sample_info]\<rparr>, None)"
proof -
  have k: "is_iface sample_foo = False" "is_ptr sample_foo = False" "under sample_foo = AStruct [(''A'', ('''', '''', ''''), True, AString)]"
    "c_Type sample_info = sample_foo" "Prefix sample_info = [4, 5, 6, 8]" "Registered sample_info"
    by (simp_all add: sample_foo_def is_iface_def is_ptr_def sample_info_def)
  show ?thesis
    by (simp add: RegisterConcrete_def k sample_new addCheckConflictsWithConcrete_nolock_def sample_cdc1_eq NewCodec_def
        sample_impl_def add_implementer_def impls_def checkConflictsInPrio_nolock_def setTypeInfo_nolock_def Let_def)
qed

lemma sample_register: "RegisterConcrete sample_impl sample_sha sample_foo ''foo'' sample_cdc1 = (sample_cdc, None)"
  "concreteInfos sample_cdc = [sample_info]" "ifaceInfos sample_cdc (AInterface ''I'') = Some
     \<lparr>i_Type = AInterface ''I'', Priority = [], AlwaysDisambiguate = False, Implementers = [([4, 5, 6, 8], [sample_info])]\<rparr>"
  by (simp_all add: sample_cdc_def sample_step)

lemma sample_reach: "codec_reach sample_impl sample_sha sample_cdc"
  by (rule codec_reach.concrete [OF _ sample_register(1)]) (simp add: sample_cdc1_def codec_reach.intros)

end
