(* ===== verification/AminoRecover.thy ===== *)
theory AminoRecover
  imports AminoRegistry "HOL-Library.Sublist"
begin

text \<open>
  The go-amino registry when a registration panics and the program recovers. The deferred unlock
  leaves the codec usable, and what the call had added by then stays: implementers of the interfaces,
  and for a clash of disfixes the type itself.
\<close>

section \<open>The invariant\<close>

text \<open>Every registered implementer is listed, in the order of registration; more may be.\<close>

definition iface_kept :: "implements \<Rightarrow> codec \<Rightarrow> aty \<Rightarrow> interface_info \<Rightarrow> bool" where
  "iface_kept impl cdc it ii \<longleftrightarrow> i_Type ii = it \<and> is_iface it \<and> distinct (map fst (Implementers ii)) \<and>
     [] \<notin> snd ` set (Implementers ii) \<and> (\<forall>pb. subseq (implementers_of impl cdc it pb) (impls ii pb)) \<and>
     (\<forall>pb. \<forall>c \<in> set (impls ii pb). Registered c \<and> disamb_ok (Disamb c) \<and> prefix_ok pb \<and> Prefix c = pb \<and>
        impl (APtr (c_Type c)) it) \<and>
     checkConflictsInPrio_nolock ii"

definition concrete_kept :: "codec \<Rightarrow> concrete_info \<Rightarrow> bool" where
  "concrete_kept cdc c \<longleftrightarrow> Registered c \<and> disamb_ok (Disamb c) \<and> prefix_ok (Prefix c) \<and> typeInfos cdc (c_Type c) = Some c"

definition codec_kept :: "implements \<Rightarrow> codec \<Rightarrow> bool" where
  "codec_kept impl cdc \<longleftrightarrow>
     (\<forall>t c. typeInfos cdc t = Some c \<longrightarrow> type_ok cdc t c) \<and>
     (\<forall>c \<in> set (concreteInfos cdc). concrete_kept cdc c) \<and>
     (\<forall>df. disfixToTypeInfo cdc df = find (\<lambda>c. GetDisfix c = df) (concreteInfos cdc)) \<and>
     distinct (concreteInfos cdc) \<and> distinct (interfaceInfos cdc) \<and> set (interfaceInfos cdc) = dom (ifaceInfos cdc) \<and>
     (\<forall>it ii. ifaceInfos cdc it = Some ii \<longrightarrow> iface_kept impl cdc it ii)"

lemma codec_kept_New: "codec_kept impl NewCodec"
  by (simp add: codec_kept_def NewCodec_def)

text \<open>A conflict that \<^const>\<open>addCheckConflicts\<close> meets is under the new prefix, and putting the list back
  restores the interface.\<close>

lemma conflict_restores:
  assumes "checkConflictsInPrio_nolock ii" "\<not> checkConflictsInPrio_nolock (add_implementer c ii)"
  shows "(add_implementer c ii)\<lparr>Implementers :=
    AList.update (Prefix c) (impls ii (Prefix c)) (Implementers (add_implementer c ii))\<rparr> = ii"
proof (cases "map_of (Implementers ii) (Prefix c)")
  case None
  then have "impls ii (Prefix c) = []" by (simp add: impls_def)
  then have "checkConflictsInPrio_nolock (add_implementer c ii)"
    using assms(1) set_update_subset [of "Prefix c" "[c]" "Implementers ii"]
    by (force simp: checkConflictsInPrio_nolock_def list_all_iff add_implementer_def)
  with assms(2) show ?thesis by simp
next
  case (Some cs)
  then have "impls ii (Prefix c) = cs" by (simp add: impls_def)
  with Some show ?thesis
    by (simp add: add_implementer_def update_triv update_swap)
qed

text \<open>Whether an interface takes a new implementer; the loop stops at the first one that does not.\<close>

definition takes :: "implements \<Rightarrow> codec \<Rightarrow> concrete_info \<Rightarrow> aty \<Rightarrow> bool" where
  "takes impl cdc c it \<longleftrightarrow> impl (APtr (c_Type c)) it \<longrightarrow>
     (case ifaceInfos cdc it of None \<Rightarrow> True | Some ii \<Rightarrow> checkConflictsInPrio_nolock (add_implementer c ii))"

definition with_implementer :: "implements \<Rightarrow> concrete_info \<Rightarrow> aty list \<Rightarrow> codec \<Rightarrow> codec" where
  "with_implementer impl c its cdc = cdc\<lparr>ifaceInfos := (\<lambda>it.
     if it \<in> set its \<and> impl (APtr (c_Type c)) it then map_option (add_implementer c) (ifaceInfos cdc it)
     else ifaceInfos cdc it)\<rparr>"

lemma with_implementer_sel [simp]:
  "typeInfos (with_implementer impl c its cdc) = typeInfos cdc"
  "interfaceInfos (with_implementer impl c its cdc) = interfaceInfos cdc"
  "concreteInfos (with_implementer impl c its cdc) = concreteInfos cdc"
  "disfixToTypeInfo (with_implementer impl c its cdc) = disfixToTypeInfo cdc"
  "ifaceInfos (with_implementer impl c its cdc) it =
     (if it \<in> set its \<and> impl (APtr (c_Type c)) it then map_option (add_implementer c) (ifaceInfos cdc it)
      else ifaceInfos cdc it)"
  by (simp_all add: with_implementer_def)

lemma with_implementer_Nil: "with_implementer impl c [] cdc = cdc"
  by (simp add: with_implementer_def)

lemma with_implementer_skip:
  "\<not> impl (APtr (c_Type c)) it \<Longrightarrow> with_implementer impl c (it # its) cdc = with_implementer impl c its cdc"
  by (auto simp: with_implementer_def intro!: arg_cong [where f = "\<lambda>f. cdc\<lparr>ifaceInfos := f\<rparr>"])

lemma with_implementer_Cons:
  "impl (APtr (c_Type c)) it \<Longrightarrow> ifaceInfos cdc it = Some ii \<Longrightarrow> it \<notin> set its \<Longrightarrow>
   with_implementer impl c its (cdc\<lparr>ifaceInfos := (ifaceInfos cdc)(it \<mapsto> add_implementer c ii)\<rparr>) =
   with_implementer impl c (it # its) cdc"
  by (auto simp: with_implementer_def intro!: arg_cong [where f = "\<lambda>f. cdc\<lparr>ifaceInfos := f\<rparr>"])

lemma addCheckConflicts_eq:
  "distinct its \<Longrightarrow> set its \<subseteq> dom (ifaceInfos cdc) \<Longrightarrow>
   \<forall>it ii. ifaceInfos cdc it = Some ii \<longrightarrow> checkConflictsInPrio_nolock ii \<Longrightarrow>
   addCheckConflicts impl c its cdc = (with_implementer impl c (takeWhile (takes impl cdc c) its) cdc,
     if list_all (takes impl cdc c) its then None else Some ''conflicts'')"
proof (induction its arbitrary: cdc)
  case Nil
  show ?case by (simp add: with_implementer_Nil)
next
  case (Cons it its)
  show ?case
  proof (cases "impl (APtr (c_Type c)) it")
    case False
    with Cons show ?thesis by (simp add: with_implementer_skip takes_def [of impl cdc c it])
  next
    case True
    obtain ii where ii: "ifaceInfos cdc it = Some ii" using Cons.prems(2) by auto
    show ?thesis
    proof (cases "checkConflictsInPrio_nolock (add_implementer c ii)")
      case False
      then have "addCheckConflicts impl c (it # its) cdc = (cdc\<lparr>ifaceInfos := (ifaceInfos cdc)(it \<mapsto> ii)\<rparr>, Some ''conflicts'')"
        using True ii conflict_restores [OF _ False] Cons.prems(3) by (simp add: Let_def)
      with ii True False show ?thesis by (simp add: takes_def with_implementer_Nil fun_upd_idem)
    next
      case ok: True
      let ?cdc = "cdc\<lparr>ifaceInfos := (ifaceInfos cdc)(it \<mapsto> add_implementer c ii)\<rparr>"
      have new: "it \<notin> set its" using Cons.prems(1) by simp
      have "takes impl ?cdc c jt = takes impl cdc c jt" if "jt \<in> set its" for jt
        using that new by (auto simp: takes_def)
      then have same: "takeWhile (takes impl ?cdc c) its = takeWhile (takes impl cdc c) its"
          "list_all (takes impl ?cdc c) its = list_all (takes impl cdc c) its"
        by (auto intro: takeWhile_cong simp: list_all_iff)
      have p: "distinct its" "set its \<subseteq> dom (ifaceInfos ?cdc)" "\<forall>jt jj. ifaceInfos ?cdc jt = Some jj \<longrightarrow> checkConflictsInPrio_nolock jj"
        using ok Cons.prems by (auto split: if_splits)
      have "addCheckConflicts impl c its ?cdc = (with_implementer impl c (takeWhile (takes impl cdc c) its) ?cdc,
          if list_all (takes impl cdc c) its then None else Some ''conflicts'')"
        unfolding Cons.IH [OF p] same ..
      moreover have "it \<notin> set (takeWhile (takes impl cdc c) its)" using new by (meson set_takeWhileD)
      ultimately show ?thesis
        using True ii ok with_implementer_Cons [of impl, OF True ii] by (simp add: Let_def takes_def [of impl cdc c it])
    qed
  qed
qed

section \<open>Preservation\<close>

lemma iface_kept_cong: "concreteInfos cdc' = concreteInfos cdc \<Longrightarrow> iface_kept impl cdc' = iface_kept impl cdc"
  by (intro ext) (simp add: iface_kept_def implementers_of_def)

lemma iface_kept_add:
  assumes "iface_kept impl cdc it ii" "Registered c" "disamb_ok (Disamb c)" "prefix_ok (Prefix c)" "impl (APtr (c_Type c)) it"
    "checkConflictsInPrio_nolock (add_implementer c ii)" "concreteInfos cdc' \<in> {concreteInfos cdc, concreteInfos cdc @ [c]}"
  shows "iface_kept impl cdc' it (add_implementer c ii)"
proof -
  have "subseq (implementers_of impl cdc' it pb) (impls (add_implementer c ii) pb)" for pb
  proof -
    have s: "subseq (implementers_of impl cdc it pb) (impls ii pb)" using assms(1) by (simp add: iface_kept_def)
    then have "subseq (implementers_of impl cdc it pb) (impls ii pb @ [c])" by (rule list_emb_prefix)
    with s show ?thesis using assms(5, 7) by (auto simp: implementers_of_def impls_add list_emb_append_mono)
  qed
  then show ?thesis
    using assms add_implementer_ne [of ii c] add_implementer_keys [of ii c]
    by (auto simp: iface_kept_def impls_add)
qed

lemma iface_kept_skip:
  assumes "iface_kept impl cdc it ii" "\<not> impl (APtr (c_Type c)) it" "concreteInfos cdc' = concreteInfos cdc @ [c]"
  shows "iface_kept impl cdc' it ii"
  using assms by (simp add: iface_kept_def implementers_of_def)

lemma codec_kept_RegisterInterface:
  assumes kept: "codec_kept impl cdc"
  shows "codec_kept impl (fst (RegisterInterface impl sha256 ptr opts cdc))"
proof (cases "snd (RegisterInterface impl sha256 ptr opts cdc)")
  case (Some p)
  then have "fst (RegisterInterface impl sha256 ptr opts cdc) = cdc"
    by (auto simp: RegisterInterface_def setInterfaceInfo_nolock_def Let_def split: option.splits if_splits)
  with kept show ?thesis by simp
next
  case None
  then obtain rt info r where rt: "is_iface rt" "newTypeInfoFromInterfaceType sha256 rt opts = Some info"
      and r: "r = collectImplementers_nolock impl cdc info" "checkConflictsInPrio_nolock r" "ifaceInfos cdc (i_Type r) = None"
      and eq: "fst (RegisterInterface impl sha256 ptr opts cdc) =
        cdc\<lparr>ifaceInfos := (ifaceInfos cdc)(i_Type r \<mapsto> r), interfaceInfos := interfaceInfos cdc @ [i_Type r]\<rparr>"
    by (auto simp: RegisterInterface_def setInterfaceInfo_nolock_def Let_def split: option.splits if_splits)
  have i: "i_Type info = rt" "Implementers info = []"
    using rt by (auto simp: newTypeInfoFromInterfaceType_def split: if_splits option.splits)
  have ok: "iface_ok impl cdc rt r"
    using collect_props [of info impl "concreteInfos cdc"] i r rt(1)
    by (simp add: iface_ok_def collectImplementers_nolock_def Let_def implementers_of_def impls_def)
  have c: "concrete_kept cdc c" if "c \<in> set (concreteInfos cdc)" for c using kept that by (simp add: codec_kept_def)
  have ik: "iface_kept impl cdc rt r"
    using ok c by (auto simp: iface_ok_def iface_kept_def implementers_of_def concrete_kept_def)
  then have t: "i_Type r = rt" by (simp add: iface_kept_def)
  then have new: "ifaceInfos cdc rt = None" using r(3) by simp
  have "iface_kept impl (cdc\<lparr>ifaceInfos := f, interfaceInfos := g\<rparr>) = iface_kept impl cdc"
    "type_ok (cdc\<lparr>ifaceInfos := f, interfaceInfos := g\<rparr>) = type_ok cdc"
    "concrete_kept (cdc\<lparr>ifaceInfos := f, interfaceInfos := g\<rparr>) = concrete_kept cdc" for f g
    by (intro ext, simp add: iface_kept_def implementers_of_def type_ok_def concrete_kept_def)+
  moreover have "rt \<notin> set (interfaceInfos cdc)" using kept new by (auto simp: codec_kept_def)
  ultimately show ?thesis
    using kept ik unfolding eq t by (simp add: codec_kept_def)
qed

lemma codec_kept_getTypeInfo:
  assumes kept: "codec_kept impl cdc"
  shows "codec_kept impl (fst (getTypeInfo_wlock rt cdc))"
proof (cases "is_iface (deref_ty rt) \<or> typeInfos cdc (deref_ty rt) \<noteq> None \<or> newTypeInfoUnregistered (deref_ty rt) = None")
  case True
  then have "fst (getTypeInfo_wlock rt cdc) = cdc"
    by (auto simp: getTypeInfo_wlock_def Let_def split: option.splits)
  with kept show ?thesis by simp
next
  case False
  then obtain i where i: "newTypeInfoUnregistered (deref_ty rt) = Some i" by auto
  note sel = newTypeInfoUnregistered_sel [OF i]
  have "fst (getTypeInfo_wlock rt cdc) = cdc\<lparr>typeInfos := (typeInfos cdc)(deref_ty rt \<mapsto> i)\<rparr>"
    using False i sel by (simp add: getTypeInfo_wlock_def setTypeInfo_nolock_def Let_def)
  moreover have "iface_kept impl (cdc\<lparr>typeInfos := f\<rparr>) = iface_kept impl cdc" "type_ok (cdc\<lparr>typeInfos := f\<rparr>) = type_ok cdc" for f
    by (intro ext, simp add: iface_kept_def implementers_of_def type_ok_def)+
  moreover have "type_ok cdc (deref_ty rt) i" using i sel by (simp add: type_ok_def)
  moreover have "concrete_kept (cdc\<lparr>typeInfos := (typeInfos cdc)(deref_ty rt \<mapsto> i)\<rparr>) c" if "concrete_kept cdc c" for c
    using that False by (auto simp: concrete_kept_def)
  ultimately show ?thesis using kept by (simp add: codec_kept_def)
qed

text \<open>What a registration leaves behind: the codec as it was, implementers only, or the type itself
  with all its implementers.\<close>

lemma RegisterConcrete_outcomes:
  obtains "fst (RegisterConcrete impl sha256 t name cdc) = cdc"
  | rt pp info cdc1 r where "newTypeInfoFromRegisteredConcreteType sha256 rt pp name = Some info"
    "addCheckConflicts impl info (interfaceInfos cdc) cdc = (cdc1, r)" "fst (RegisterConcrete impl sha256 t name cdc) = cdc1"
  | rt pp info cdc1 where "newTypeInfoFromRegisteredConcreteType sha256 rt pp name = Some info"
    "addCheckConflicts impl info (interfaceInfos cdc) cdc = (cdc1, None)" "typeInfos cdc1 (c_Type info) = None"
    "fst (RegisterConcrete impl sha256 t name cdc) = cdc1\<lparr>typeInfos := (typeInfos cdc1)(c_Type info \<mapsto> info),
        concreteInfos := concreteInfos cdc1 @ [info], disfixToTypeInfo :=
          (if disfixToTypeInfo cdc1 (GetDisfix info) \<noteq> None then disfixToTypeInfo cdc1
           else (disfixToTypeInfo cdc1)(GetDisfix info \<mapsto> info))\<rparr>"
proof -
  let ?R = "RegisterConcrete impl sha256 t name cdc"
  obtain rt pp where rp: "(case under t of APtr u \<Rightarrow> (u, True) | _ \<Rightarrow> (t, False)) = (rt, pp)" by fastforce
  have R: "?R = (if is_iface t \<or> pp \<and> (is_ptr rt \<or> is_iface rt) then (cdc, snd ?R)
      else case newTypeInfoFromRegisteredConcreteType sha256 rt pp name of None \<Rightarrow> (cdc, snd ?R)
      | Some info \<Rightarrow> (case addCheckConflicts impl info (interfaceInfos cdc) cdc of
         (cdc, Some p) \<Rightarrow> (cdc, Some p) | (cdc, None) \<Rightarrow> setTypeInfo_nolock info cdc))"
    unfolding RegisterConcrete_def addCheckConflictsWithConcrete_nolock_def rp
    by (cases "newTypeInfoFromRegisteredConcreteType sha256 rt pp name") (auto simp: Let_def)
  consider "fst ?R = cdc" | info cdc1 r where "newTypeInfoFromRegisteredConcreteType sha256 rt pp name = Some info"
      "addCheckConflicts impl info (interfaceInfos cdc) cdc = (cdc1, r)"
      "?R = (case r of Some p \<Rightarrow> (cdc1, Some p) | None \<Rightarrow> setTypeInfo_nolock info cdc1)"
  proof (cases "fst ?R = cdc")
    case False
    then obtain info where i: "newTypeInfoFromRegisteredConcreteType sha256 rt pp name = Some info"
        "\<not> (is_iface t \<or> pp \<and> (is_ptr rt \<or> is_iface rt))"
      by (subst (asm) R) (auto split: if_splits option.splits)
    obtain cdc1 r where "addCheckConflicts impl info (interfaceInfos cdc) cdc = (cdc1, r)" by fastforce
    with i show ?thesis by (intro that(2)) (auto simp: R)
  qed (rule that(1))
  then show thesis
  proof cases
    case 2
    show thesis
    proof (cases "r = None \<and> typeInfos cdc1 (c_Type info) = None")
      case True
      with 2 newTypeInfoFromRegistered_sel [OF 2(1)] show thesis
        by (intro that(3) [OF 2(1)]) (auto simp: setTypeInfo_nolock_def Let_def)
    next
      case False
      with 2 newTypeInfoFromRegistered_sel [OF 2(1)] show thesis
        by (intro that(2) [OF 2(1, 2)]) (auto simp: setTypeInfo_nolock_def Let_def split: option.splits)
    qed
  qed (rule that(1))
qed

lemma addCheckConflicts_registered:
  assumes "codec_kept impl cdc"
  shows "addCheckConflicts impl c (interfaceInfos cdc) cdc =
    (with_implementer impl c (takeWhile (takes impl cdc c) (interfaceInfos cdc)) cdc,
     if list_all (takes impl cdc c) (interfaceInfos cdc) then None else Some ''conflicts'')"
  using assms by (intro addCheckConflicts_eq) (auto simp: codec_kept_def iface_kept_def)

lemma codec_kept_ghosts:
  assumes kept: "codec_kept impl cdc" and new: "newTypeInfoFromRegisteredConcreteType sha256 rt pp name = Some info"
    and add: "addCheckConflicts impl info (interfaceInfos cdc) cdc = (cdc1, r)"
  shows "codec_kept impl cdc1"
proof -
  have eq: "cdc1 = with_implementer impl info (takeWhile (takes impl cdc info) (interfaceInfos cdc)) cdc"
    using add addCheckConflicts_registered [OF kept, of info] by simp
  have same: "typeInfos cdc1 = typeInfos cdc" "interfaceInfos cdc1 = interfaceInfos cdc"
    "concreteInfos cdc1 = concreteInfos cdc" "disfixToTypeInfo cdc1 = disfixToTypeInfo cdc" by (simp_all add: eq)
  have ifs: "ifaceInfos cdc1 it = ifaceInfos cdc it \<or> (\<exists>ii. impl (APtr (c_Type info)) it \<and> ifaceInfos cdc it = Some ii \<and>
      ifaceInfos cdc1 it = Some (add_implementer info ii) \<and> checkConflictsInPrio_nolock (add_implementer info ii))" for it
    by (cases "ifaceInfos cdc it") (auto simp: eq takes_def dest: set_takeWhileD)
  have "dom (ifaceInfos cdc1) = dom (ifaceInfos cdc)" using ifs by (auto simp: dom_def) metis+
  moreover have "iface_kept impl cdc1 it ii" if ii: "ifaceInfos cdc1 it = Some ii" for it ii
    using ifs [of it]
  proof
    assume "ifaceInfos cdc1 it = ifaceInfos cdc it"
    with ii kept show ?thesis by (simp add: codec_kept_def iface_kept_cong [OF same(3)])
  next
    assume "\<exists>ii. impl (APtr (c_Type info)) it \<and> ifaceInfos cdc it = Some ii \<and>
      ifaceInfos cdc1 it = Some (add_implementer info ii) \<and> checkConflictsInPrio_nolock (add_implementer info ii)"
    then obtain jj where jj: "impl (APtr (c_Type info)) it" "ifaceInfos cdc it = Some jj" "ii = add_implementer info jj"
      "checkConflictsInPrio_nolock (add_implementer info jj)" using ii by auto
    have "iface_kept impl cdc it jj" using kept jj(2) by (simp add: codec_kept_def)
    from iface_kept_add [OF this newTypeInfoFromRegistered_sel(2-4) [OF new] jj(1, 4)] show ?thesis
      unfolding jj(3) by (simp add: same)
  qed
  moreover have "type_ok cdc1 = type_ok cdc" "concrete_kept cdc1 = concrete_kept cdc"
    by (intro ext, simp add: type_ok_def concrete_kept_def same)+
  ultimately show ?thesis using kept by (simp add: codec_kept_def same)
qed

lemma find_snoc: "find P (xs @ [x]) = (case find P xs of Some y \<Rightarrow> Some y | None \<Rightarrow> if P x then Some x else None)"
  by (induction xs) auto

lemma codec_kept_add:
  assumes kept: "codec_kept impl cdc" and new: "newTypeInfoFromRegisteredConcreteType sha256 rt pp name = Some info"
    and add: "addCheckConflicts impl info (interfaceInfos cdc) cdc = (cdc1, None)" and t: "typeInfos cdc1 (c_Type info) = None"
    and cdc': "cdc' = cdc1\<lparr>typeInfos := (typeInfos cdc1)(c_Type info \<mapsto> info), concreteInfos := concreteInfos cdc1 @ [info],
      disfixToTypeInfo := (if disfixToTypeInfo cdc1 (GetDisfix info) \<noteq> None then disfixToTypeInfo cdc1
        else (disfixToTypeInfo cdc1)(GetDisfix info \<mapsto> info))\<rparr>"
  shows "codec_kept impl cdc'"
proof -
  note sel = newTypeInfoFromRegistered_sel [OF new]
  have dist: "distinct (interfaceInfos cdc)" and dom: "set (interfaceInfos cdc) = dom (ifaceInfos cdc)"
    using kept by (simp_all add: codec_kept_def)
  note p = addCheckConflicts_props [OF add dist]
  then have same: "typeInfos cdc1 = typeInfos cdc" "interfaceInfos cdc1 = interfaceInfos cdc"
    "concreteInfos cdc1 = concreteInfos cdc" "disfixToTypeInfo cdc1 = disfixToTypeInfo cdc" by blast+
  have con: "concreteInfos cdc' = concreteInfos cdc @ [info]" by (simp add: cdc' same)
  have kept1: "codec_kept impl cdc1" by (rule codec_kept_ghosts [OF kept new add])
  have "type_ok cdc' u c" if "typeInfos cdc' u = Some c" for u c
  proof (cases "u = c_Type info")
    case False
    with that have "type_ok cdc u c" using kept by (simp add: codec_kept_def cdc' same)
    then show ?thesis by (simp add: type_ok_def con)
  qed (use that sel in \<open>simp add: type_ok_def con cdc'\<close>)
  moreover have "concrete_kept cdc' c" if "c \<in> set (concreteInfos cdc')" for c
    using that t kept sel by (auto simp: con codec_kept_def concrete_kept_def cdc' same)
  moreover have "disfixToTypeInfo cdc' df = find (\<lambda>c. GetDisfix c = df) (concreteInfos cdc')" for df
    using kept by (auto simp: con cdc' same find_snoc codec_kept_def split: option.splits)
  moreover have "distinct (concreteInfos cdc')"
    using kept t by (auto simp: con same codec_kept_def concrete_kept_def)
  moreover have "iface_kept impl cdc' it ii" if ii: "ifaceInfos cdc' it = Some ii" for it ii
  proof (cases "impl (APtr (c_Type info)) it")
    case True
    have "it \<in> dom (ifaceInfos cdc)" using ii kept1 dom by (auto simp: cdc' codec_kept_def same)
    then obtain jj where jj: "ifaceInfos cdc it = Some jj" "it \<in> set (interfaceInfos cdc)" using dom by auto
    with p True ii have "ii = add_implementer info jj" "checkConflictsInPrio_nolock (add_implementer info jj)"
      by (auto simp: cdc')
    moreover have "iface_kept impl cdc it jj" using kept jj(1) by (simp add: codec_kept_def)
    ultimately show ?thesis using iface_kept_add [of impl cdc it jj, OF _ sel(2-4) True] con by simp
  next
    case False
    then have "iface_kept impl cdc it ii" using p ii kept by (simp add: cdc' codec_kept_def)
    from iface_kept_skip [of impl, OF this False con] show ?thesis .
  qed
  ultimately show ?thesis using kept1 by (simp add: codec_kept_def cdc')
qed

lemma codec_kept_RegisterConcrete:
  assumes "codec_kept impl cdc"
  shows "codec_kept impl (fst (RegisterConcrete impl sha256 t name cdc))"
proof (rule RegisterConcrete_outcomes [of impl sha256 t name cdc])
  assume "fst (RegisterConcrete impl sha256 t name cdc) = cdc"
  with assms show ?thesis by simp
qed (use codec_kept_ghosts [OF assms] codec_kept_add [OF assms] in blast)+

section \<open>Codecs after any calls\<close>

text \<open>Every call, with the codec that it leaves behind when it panics.\<close>

inductive codec_calls :: "implements \<Rightarrow> (bytes \<Rightarrow> bytes) \<Rightarrow> codec \<Rightarrow> bool" for impl sha256 where
  new: "codec_calls impl sha256 NewCodec"
| iface: "codec_calls impl sha256 cdc \<Longrightarrow> codec_calls impl sha256 (fst (RegisterInterface impl sha256 ptr opts cdc))"
| concrete: "codec_calls impl sha256 cdc \<Longrightarrow> codec_calls impl sha256 (fst (RegisterConcrete impl sha256 t name cdc))"
| lookup: "codec_calls impl sha256 cdc \<Longrightarrow> codec_calls impl sha256 (fst (getTypeInfo_wlock t cdc))"

lemma codec_calls_kept: "codec_calls impl sha256 cdc \<Longrightarrow> codec_kept impl cdc"
  by (induction rule: codec_calls.induct)
    (simp_all add: codec_kept_New codec_kept_RegisterInterface codec_kept_RegisterConcrete codec_kept_getTypeInfo)

lemma codec_reach_calls: "codec_reach impl sha256 cdc \<Longrightarrow> codec_calls impl sha256 cdc"
proof (induction rule: codec_reach.induct)
  case (concrete cdc t name cdc')
  then show ?case using codec_calls.concrete [OF concrete.IH, of t name] by simp
qed (auto intro: codec_calls.intros)

section \<open>Lookups\<close>

lemma impls_map_of:
  assumes "[] \<notin> snd ` set (Implementers ii)"
  shows "map_of (Implementers ii) pb = (if impls ii pb = [] then None else Some (impls ii pb))"
proof (cases "map_of (Implementers ii) pb")
  case (Some cs)
  then have "cs \<noteq> []" using assms map_of_SomeD [OF Some] by force
  with Some show ?thesis by (simp add: impls_def)
qed (simp add: impls_def)

lemma prefix_lookup:
  assumes "[] \<notin> snd ` set (Implementers ii)"
  shows "getTypeInfoFromPrefix_rlock ii pb = Some (case impls ii pb of [] \<Rightarrow> Inl ''unrecognized prefix bytes''
    | [d] \<Rightarrow> Inr d | _ \<Rightarrow> Inl ''Conflicting concrete types registered'')"
  using impls_map_of [OF assms, of pb] by (auto simp: getTypeInfoFromPrefix_rlock_def split: list.splits)

lemma kept_conflict:
  assumes "iface_kept impl cdc it ii" "c \<in> set (impls ii pb)" "impls ii pb \<noteq> [c]"
  shows "GetDisfix c \<in> set (Priority ii)"
proof -
  have e: "[] \<notin> snd ` set (Implementers ii)" using assms(1) by (simp add: iface_kept_def)
  have "impls ii pb \<noteq> []" using assms(2) by auto
  then have "(pb, impls ii pb) \<in> set (Implementers ii)" using impls_map_of [OF e, of pb] by (auto dest: map_of_SomeD)
  moreover have "\<not> length (impls ii pb) < 2" using assms(2, 3) by (cases "impls ii pb"; cases "tl (impls ii pb)") auto
  ultimately show ?thesis using assms(1, 2)
    by (fastforce simp: iface_kept_def checkConflictsInPrio_nolock_def list_all_iff)
qed

lemma subseq_mem: "subseq xs ys \<Longrightarrow> x \<in> set xs \<Longrightarrow> x \<in> set ys"
  by (erule list_emb_set) auto

lemma find_hd: "x \<in> set xs \<Longrightarrow> P x \<Longrightarrow> find P xs = Some (hd (filter P xs))"
  by (induction xs) auto

lemma kept_iface:
  assumes "codec_kept impl cdc" "ifaceInfos cdc it = Some ii"
  shows "iface_kept impl cdc it ii" "[] \<notin> snd ` set (Implementers ii)"
  using assms by (auto simp: codec_kept_def iface_kept_def)

lemma kept_found:
  assumes "codec_kept impl cdc" "c \<in> set (concreteInfos cdc)"
  shows "snd (getTypeInfo_wlock (c_Type c) cdc) = Some (Inr (CInfo c))"
    "getTypeInfoFromDisfix_rlock cdc (GetDisfix c) = Inr (hd (filter (\<lambda>d. GetDisfix d = GetDisfix c) (concreteInfos cdc)))"
proof -
  have t: "typeInfos cdc (c_Type c) = Some c" using assms by (simp add: codec_kept_def concrete_kept_def)
  then have "type_ok cdc (c_Type c) c" using assms(1) by (simp add: codec_kept_def)
  then have k: "\<not> is_ptr (c_Type c)" "\<not> is_iface (c_Type c)" by (simp_all add: type_ok_def)
  then have "deref_ty (c_Type c) = c_Type c" by (cases "c_Type c") (auto simp: is_ptr_def)
  with t k show "snd (getTypeInfo_wlock (c_Type c) cdc) = Some (Inr (CInfo c))"
    by (simp add: getTypeInfo_wlock_def)
  show "getTypeInfoFromDisfix_rlock cdc (GetDisfix c) = Inr (hd (filter (\<lambda>d. GetDisfix d = GetDisfix c) (concreteInfos cdc)))"
    using assms(1) find_hd [OF assms(2)] by (simp add: getTypeInfoFromDisfix_rlock_def codec_kept_def)
qed

lemma kept_listed:
  assumes "codec_kept impl cdc" "c \<in> set (concreteInfos cdc)" "ifaceInfos cdc it = Some ii" "impl (APtr (c_Type c)) it"
  shows "c \<in> set (impls ii (Prefix c))"
proof -
  have "subseq (implementers_of impl cdc it (Prefix c)) (impls ii (Prefix c))"
    using kept_iface(1) [OF assms(1, 3)] by (simp add: iface_kept_def)
  moreover have "c \<in> set (implementers_of impl cdc it (Prefix c))" using assms by (simp add: implementers_of_def)
  ultimately show ?thesis by (rule subseq_mem)
qed

lemma kept_prefix:
  assumes "codec_kept impl cdc" "ifaceInfos cdc it = Some ii"
  shows "getTypeInfoFromPrefix_rlock ii pb \<noteq> None"
    "c \<in> set (impls ii pb) \<Longrightarrow> if impls ii pb = [c] then getTypeInfoFromPrefix_rlock ii pb = Some (Inr c)
      else getTypeInfoFromPrefix_rlock ii pb = Some (Inl ''Conflicting concrete types registered'') \<and> GetDisfix c \<in> set (Priority ii)"
    "getTypeInfoFromPrefix_rlock ii pb = Some (Inr d) \<Longrightarrow> Registered d \<and> Prefix d = pb \<and> impl (APtr (c_Type d)) it"
proof -
  note ik = kept_iface [OF assms]
  note l = prefix_lookup [OF ik(2), of pb]
  show "getTypeInfoFromPrefix_rlock ii pb \<noteq> None" by (simp add: l)
  show "if impls ii pb = [c] then getTypeInfoFromPrefix_rlock ii pb = Some (Inr c)
      else getTypeInfoFromPrefix_rlock ii pb = Some (Inl ''Conflicting concrete types registered'') \<and> GetDisfix c \<in> set (Priority ii)"
    if "c \<in> set (impls ii pb)"
    using kept_conflict [OF ik(1) that] that l by (auto split: list.splits)
  assume "getTypeInfoFromPrefix_rlock ii pb = Some (Inr d)"
  then have "d \<in> set (impls ii pb)" using l by (auto split: list.splits)
  then show "Registered d \<and> Prefix d = pb \<and> impl (APtr (c_Type d)) it" using ik(1) by (simp add: iface_kept_def)
qed

text \<open>C12. The registry after any sequence of registrations and lookups, panics recovered from
  included. A type in the list of registered types is found under its type; under its disfix the first
  type of the list with that disfix is found. An interface lists it when its pointer type implements the
  interface, and the lookup of its prefix returns it when nothing else is listed there; otherwise it is
  an error and the type is on the interface's priority list. A prefix lookup never panics and returns
  only implementers with that prefix. A lookup that adds information is not seen by later ones. As long
  as no \<open>RegisterConcrete\<close> has panicked, a registered type is the one found under its disfix, and an
  interface lists exactly the registered types that implement it, in the order of registration.\<close>

theorem registry_lookup:
  assumes "codec_calls impl sha256 cdc"
  shows "(\<forall>c \<in> set (concreteInfos cdc).
      snd (getTypeInfo_wlock (c_Type c) cdc) = Some (Inr (CInfo c)) \<and>
      getTypeInfoFromDisfix_rlock cdc (GetDisfix c) = Inr (hd (filter (\<lambda>d. GetDisfix d = GetDisfix c) (concreteInfos cdc))) \<and>
      (\<forall>it ii. ifaceInfos cdc it = Some ii \<and> impl (APtr (c_Type c)) it \<longrightarrow> c \<in> set (impls ii (Prefix c)) \<and>
         (if impls ii (Prefix c) = [c] then getTypeInfoFromPrefix_rlock ii (Prefix c) = Some (Inr c)
          else getTypeInfoFromPrefix_rlock ii (Prefix c) = Some (Inl ''Conflicting concrete types registered'') \<and>
            GetDisfix c \<in> set (Priority ii)))) \<and>
    (\<forall>it ii pb. ifaceInfos cdc it = Some ii \<longrightarrow> getTypeInfoFromPrefix_rlock ii pb \<noteq> None \<and>
       (\<forall>d. getTypeInfoFromPrefix_rlock ii pb = Some (Inr d) \<longrightarrow> Registered d \<and> Prefix d = pb \<and> impl (APtr (c_Type d)) it)) \<and>
    (\<forall>t u. snd (getTypeInfo_wlock u (fst (getTypeInfo_wlock t cdc))) = snd (getTypeInfo_wlock u cdc)) \<and>
    (codec_reach impl sha256 cdc \<longrightarrow>
      (\<forall>c \<in> set (concreteInfos cdc). getTypeInfoFromDisfix_rlock cdc (GetDisfix c) = Inr c) \<and>
      (\<forall>it ii pb. ifaceInfos cdc it = Some ii \<longrightarrow>
         impls ii pb = filter (\<lambda>c. impl (APtr (c_Type c)) it \<and> Prefix c = pb) (concreteInfos cdc)))"
proof -
  have kept: "codec_kept impl cdc" by (rule codec_calls_kept [OF assms])
  note lookups = kept_found [OF kept] kept_listed [OF kept] kept_prefix(2) [OF kept _ kept_listed [OF kept]] kept_prefix(1) [OF kept]
    kept_prefix(3) [OF kept, THEN conjunct1] kept_prefix(3) [OF kept, THEN conjunct2, THEN conjunct1]
    kept_prefix(3) [OF kept, THEN conjunct2, THEN conjunct2] getTypeInfo_transparent
  have exact: "c \<in> set (concreteInfos cdc) \<Longrightarrow> getTypeInfoFromDisfix_rlock cdc (GetDisfix c) = Inr c"
    "ifaceInfos cdc it = Some ii \<Longrightarrow> impls ii pb = filter (\<lambda>c. impl (APtr (c_Type c)) it \<and> Prefix c = pb) (concreteInfos cdc)"
    if "codec_reach impl sha256 cdc" for c it ii pb
    using codec_reach_inv [OF that]
    by (simp_all add: codec_inv_def concrete_ok_def getTypeInfoFromDisfix_rlock_def iface_ok_def implementers_of_def)
  show ?thesis by (intro conjI ballI allI impI; (elim conjE)?; (rule exact lookups; assumption))
qed

lemma sample_again: "RegisterConcrete sample_impl sample_sha sample_foo ''foo'' sample_cdc = (sample_cdc, Some ''conflicts'')"
proof -
  have k: "is_iface sample_foo = False" "is_ptr sample_foo = False" "under sample_foo = AStruct [(''A'', ('''', '''', ''''), True, AString)]"
    "Prefix sample_info = [4, 5, 6, 8]" by (simp_all add: sample_foo_def is_iface_def is_ptr_def sample_info_def)
  have "interfaceInfos sample_cdc = [AInterface ''I'']" unfolding sample_cdc_def sample_step by (simp add: sample_cdc1_eq NewCodec_def)
  moreover have "sample_cdc\<lparr>ifaceInfos := (ifaceInfos sample_cdc)(AInterface ''I'' \<mapsto> ii)\<rparr> = sample_cdc"
    if "ifaceInfos sample_cdc (AInterface ''I'') = Some ii" for ii
    using that by (simp add: fun_upd_idem)
  ultimately show ?thesis
    by (simp add: RegisterConcrete_def k sample_new addCheckConflictsWithConcrete_nolock_def sample_impl_def sample_register(3)
        add_implementer_def impls_def checkConflictsInPrio_nolock_def Let_def)
qed

theorem registry_lookup_witness:
  "getTypeInfoFromDisfix_rlock (fst (RegisterConcrete sample_impl sample_sha sample_foo ''foo'' sample_cdc)) [1, 2, 3, 4, 5, 6, 8] =
     Inr sample_info \<and>
   getTypeInfoFromPrefix_rlock (the (ifaceInfos sample_cdc (AInterface ''I''))) [4, 5, 6, 8] = Some (Inr sample_info)"
  using registry_lookup [OF codec_calls.concrete [OF codec_reach_calls [OF sample_reach], of sample_foo "''foo''"]]
  by (simp add: sample_again sample_register(2, 3) sample_impl_def GetDisfix_def toDisfix_def sample_info_def impls_def)

section \<open>Registrations that panic\<close>

lemma RegisterConcrete_eq:
  assumes "codec_kept impl cdc" "newTypeInfoFromRegisteredConcreteType sha256 rt pp name = Some info"
  shows "RegisterConcrete impl sha256 (if pp then APtr rt else rt) name cdc =
    (let cdc1 = with_implementer impl info (takeWhile (takes impl cdc info) (interfaceInfos cdc)) cdc in
     if list_all (takes impl cdc info) (interfaceInfos cdc) then setTypeInfo_nolock info cdc1 else (cdc1, Some ''conflicts''))"
proof -
  have k: "\<not> is_ptr rt" "\<not> is_iface rt" using newTypeInfoFromRegistered_sel [OF assms(2)] by simp_all
  have "(case under (if pp then APtr rt else rt) of APtr t \<Rightarrow> (t, True) | _ \<Rightarrow> (if pp then APtr rt else rt, False)) = (rt, pp)"
    using k(1) by (auto simp: is_ptr_def split: aty.splits)
  moreover have "\<not> is_iface (if pp then APtr rt else rt)" using k(2) by (simp add: is_iface_def)
  ultimately show ?thesis
    unfolding RegisterConcrete_def addCheckConflictsWithConcrete_nolock_def addCheckConflicts_registered [OF assms(1)]
    using k assms(2) by (simp add: Let_def)
qed

text \<open>C17. \<open>RegisterConcrete\<close> of a type and name for which a type information can be made. It returns
  exactly when no interface that the pointer type implements has a conflict, the type was neither
  registered nor looked up before, and the disfix is new. A panic on the last check leaves the type in
  the list of registered types, the other two leave all tables of types as they were. But the
  implementers added to the interfaces before the conflicting one stay: a prefix that such an interface
  did not know before is afterwards resolved to the type information whose registration failed.\<close>

theorem RegisterConcrete_recovered:
  assumes "codec_calls impl sha256 cdc" "newTypeInfoFromRegisteredConcreteType sha256 rt pp name = Some info"
    "RegisterConcrete impl sha256 (if pp then APtr rt else rt) name cdc = (cdc', p)"
  shows "(p = None \<longleftrightarrow> list_all (takes impl cdc info) (interfaceInfos cdc) \<and> typeInfos cdc rt = None \<and>
      disfixToTypeInfo cdc (GetDisfix info) = None) \<and>
    (if list_all (takes impl cdc info) (interfaceInfos cdc) \<and> typeInfos cdc rt = None
     then concreteInfos cdc' = concreteInfos cdc @ [info] \<and> typeInfos cdc' = (typeInfos cdc)(rt \<mapsto> info)
     else concreteInfos cdc' = concreteInfos cdc \<and> typeInfos cdc' = typeInfos cdc \<and> disfixToTypeInfo cdc' = disfixToTypeInfo cdc) \<and>
    (\<forall>it ii. ifaceInfos cdc it = Some ii \<and> impl (APtr rt) it \<and> impls ii (Prefix info) = [] \<longrightarrow>
       info \<notin> set (concreteInfos cdc) \<and> getTypeInfoFromPrefix_rlock ii (Prefix info) = Some (Inl ''unrecognized prefix bytes'') \<and>
       (\<exists>ii'. ifaceInfos cdc' it = Some ii' \<and> getTypeInfoFromPrefix_rlock ii' (Prefix info) =
          Some (if it \<in> set (takeWhile (takes impl cdc info) (interfaceInfos cdc)) then Inr info
                else Inl ''unrecognized prefix bytes'')))"
proof -
  have kept: "codec_kept impl cdc" by (rule codec_calls_kept [OF assms(1)])
  note sel = newTypeInfoFromRegistered_sel [OF assms(2)]
  let ?its = "takeWhile (takes impl cdc info) (interfaceInfos cdc)"
  have eq: "(cdc', p) = (let cdc1 = with_implementer impl info ?its cdc in
      if list_all (takes impl cdc info) (interfaceInfos cdc) then setTypeInfo_nolock info cdc1 else (cdc1, Some ''conflicts''))"
    using RegisterConcrete_eq [OF kept assms(2)] assms(3) by simp
  have 1: "p = None \<longleftrightarrow> list_all (takes impl cdc info) (interfaceInfos cdc) \<and> typeInfos cdc rt = None \<and>
      disfixToTypeInfo cdc (GetDisfix info) = None"
    using eq sel by (auto simp: Let_def setTypeInfo_nolock_def split: if_splits)
  have 2: "if list_all (takes impl cdc info) (interfaceInfos cdc) \<and> typeInfos cdc rt = None
     then concreteInfos cdc' = concreteInfos cdc @ [info] \<and> typeInfos cdc' = (typeInfos cdc)(rt \<mapsto> info)
     else concreteInfos cdc' = concreteInfos cdc \<and> typeInfos cdc' = typeInfos cdc \<and> disfixToTypeInfo cdc' = disfixToTypeInfo cdc"
    using eq sel by (auto simp: Let_def setTypeInfo_nolock_def split: if_splits)
  have 3: "ifaceInfos cdc' = ifaceInfos (with_implementer impl info ?its cdc)"
    using eq sel by (auto simp: Let_def setTypeInfo_nolock_def split: if_splits)
  have "info \<notin> set (concreteInfos cdc) \<and> getTypeInfoFromPrefix_rlock ii (Prefix info) = Some (Inl ''unrecognized prefix bytes'') \<and>
      (\<exists>ii'. ifaceInfos cdc' it = Some ii' \<and> getTypeInfoFromPrefix_rlock ii' (Prefix info) =
        Some (if it \<in> set ?its then Inr info else Inl ''unrecognized prefix bytes''))"
    if ii: "ifaceInfos cdc it = Some ii" "impl (APtr rt) it" "impls ii (Prefix info) = []" for it ii
  proof -
    have ik: "iface_kept impl cdc it ii" using kept ii(1) by (simp add: codec_kept_def)
    then have ne: "[] \<notin> snd ` set (Implementers ii)" by (simp add: iface_kept_def)
    have "subseq (implementers_of impl cdc it (Prefix info)) (impls ii (Prefix info))" using ik by (simp add: iface_kept_def)
    then have "implementers_of impl cdc it (Prefix info) = []" by (simp add: ii(3))
    then have "info \<notin> set (concreteInfos cdc)" using ii(2) sel(1) by (auto simp: implementers_of_def filter_empty_conv)
    then show ?thesis
      using ii sel(1) prefix_lookup [OF ne, of "Prefix info"] prefix_lookup [OF add_implementer_ne [OF ne], of info "Prefix info"]
      by (auto simp: 3 impls_add)
  qed
  then have "\<forall>it ii. ifaceInfos cdc it = Some ii \<and> impl (APtr rt) it \<and> impls ii (Prefix info) = [] \<longrightarrow>
      info \<notin> set (concreteInfos cdc) \<and> getTypeInfoFromPrefix_rlock ii (Prefix info) = Some (Inl ''unrecognized prefix bytes'') \<and>
      (\<exists>ii'. ifaceInfos cdc' it = Some ii' \<and> getTypeInfoFromPrefix_rlock ii' (Prefix info) =
        Some (if it \<in> set ?its then Inr info else Inl ''unrecognized prefix bytes''))"
    by blast
  with 1 2 show ?thesis by (intro conjI)
qed

lemma sample_looked_up: "fst (getTypeInfo_wlock sample_foo sample_cdc1) = sample_cdc1\<lparr>typeInfos := [sample_foo \<mapsto>
    sample_info\<lparr>Registered := False, c_Name := '''', Disamb := [0, 0, 0], Prefix := [0, 0, 0, 0]\<rparr>]\<rparr>"
  by (simp add: sample_foo_def getTypeInfo_wlock_def sample_cdc1_eq NewCodec_def Let_def is_iface_def newTypeInfoUnregistered_def
      is_ptr_def is_struct_def parseStructInfo_def parseFieldOptions_def typeToTyp4_def typeToTyp3_def checkUnsafe_def
      sample_info_def sample_field_def Typ4_Typ3_def Typ3_ByteLength_def no_options_def setTypeInfo_nolock_def)

theorem RegisterConcrete_recovered_witness:
  "let (cdc', p) = RegisterConcrete sample_impl sample_sha sample_foo ''foo'' (fst (getTypeInfo_wlock sample_foo sample_cdc1))
   in p \<noteq> None \<and> concreteInfos cdc' = [] \<and>
     getTypeInfoFromPrefix_rlock (the (ifaceInfos cdc' (AInterface ''I''))) [4, 5, 6, 8] = Some (Inr sample_info)"
proof -
  let ?cdc = "fst (getTypeInfo_wlock sample_foo sample_cdc1)"
  obtain cdc' p where r: "RegisterConcrete sample_impl sample_sha sample_foo ''foo'' ?cdc = (cdc', p)" by fastforce
  have "codec_calls sample_impl sample_sha ?cdc" unfolding sample_cdc1_def by (intro codec_calls.intros)
  note t = RegisterConcrete_recovered [OF this sample_new, of cdc' p, simplified if_False, OF r]
  have s: "Prefix sample_info = [4, 5, 6, 8]" by (simp add: sample_info_def)
  have c: "typeInfos ?cdc sample_foo \<noteq> None" "concreteInfos ?cdc = []" "interfaceInfos ?cdc = [AInterface ''I'']"
    "ifaceInfos ?cdc (AInterface ''I'') = Some \<lparr>i_Type = AInterface ''I'', Priority = [], AlwaysDisambiguate = False, Implementers = []\<rparr>"
    unfolding sample_looked_up by (simp_all add: sample_cdc1_eq NewCodec_def)
  have f: "takes sample_impl ?cdc sample_info (AInterface ''I'')"
    by (simp add: takes_def c add_implementer_def checkConflictsInPrio_nolock_def impls_def)
  from t have "p \<noteq> None" "concreteInfos cdc' = []" using c by auto
  moreover have "getTypeInfoFromPrefix_rlock (the (ifaceInfos cdc' (AInterface ''I''))) [4, 5, 6, 8] = Some (Inr sample_info)"
    using t [THEN conjunct2, THEN conjunct2, rule_format, of "AInterface ''I''", unfolded c(3, 4)] f
    by (auto simp: s sample_impl_def impls_def)
  ultimately show ?thesis by (simp add: r)
qed

end
