(* ===== verification/AminoBinary.thy ===== *)
theory AminoBinary
  imports AminoRegistry
begin

text \<open>
  The binary codec of go-amino on whole values (\<^verbatim>\<open>src/tendermint/go-amino/binary-encode.go\<close>,
  \<^verbatim>\<open>binary-decode.go\<close> and the entry points of \<^verbatim>\<open>amino.go\<close>). The code recurses
  through \<open>_encodeReflectBinary\<close> and \<open>_decodeReflectBinary\<close>; these two carry fuel, and every
  other function takes them as an argument. A result says whether the code returned, panicked, or
  the fuel ran out, which does not happen at the entry points. The lookups of type information are
  taken as reads of the codec, since what they add to it is not seen by later ones
  (\<open>getTypeInfo_transparent\<close>). Log output under the constant \<open>printLog\<close> is left out.
\<close>

section \<open>Values\<close>

text \<open>Integers are kept as \<^verbatim>\<open>reflect.Value.Int\<close> and \<^verbatim>\<open>Uint\<close> return them, floats as
  their bits (for the kind \<open>Float32\<close> the 32 bits that \<^verbatim>\<open>float32(rv.Float())\<close> has), a nil slice as the empty one. \<open>AVOther\<close> is a map, channel or function and says whether it is nil
  or empty. An interface value holds the dynamic type and the value.\<close>

datatype aval = AVBool bool | AVInt u64 | AVUint u64 | AVF32 u32 | AVF64 u64 | AVString bytes | AVTime time
  | AVOther bool | AVBytes bytes | AVByteArr bytes | AVSlice "aval list" | AVArray "aval list"
  | AVPtr "aval option" | AVStruct "aval list" | AVIface "(aty \<times> aval) option"

fun zero_of :: "aty \<Rightarrow> aval" where
  "zero_of ABool = AVBool False"
| "zero_of AInt = AVInt 0"
| "zero_of AInt8 = AVInt 0"
| "zero_of AInt16 = AVInt 0"
| "zero_of AInt32 = AVInt 0"
| "zero_of AInt64 = AVInt 0"
| "zero_of AUint = AVUint 0"
| "zero_of AUint8 = AVUint 0"
| "zero_of AUint16 = AVUint 0"
| "zero_of AUint32 = AVUint 0"
| "zero_of AUint64 = AVUint 0"
| "zero_of AFloat32 = AVF32 0"
| "zero_of AFloat64 = AVF64 0"
| "zero_of AString = AVString []"
| "zero_of ATime = AVTime zero_time"
| "zero_of AMap = AVOther True"
| "zero_of AOther = AVOther True"
| "zero_of (AInterface _) = AVIface None"
| "zero_of (ASlice t) = (if is_byte t then AVBytes [] else AVSlice [])"
| "zero_of (AArray n t) = (if is_byte t then AVByteArr (replicate n 0) else AVArray (replicate n (zero_of t)))"
| "zero_of (APtr _) = AVPtr None"
| "zero_of (ANamed _ t) = zero_of t"
| "zero_of (AStruct fs) = AVStruct (map (\<lambda>(name, tags, exported, t). zero_of t) fs)"

text \<open>The dereferenced value (\<open>None\<close> when a pointer is nil), whether there was a pointer, and whether
  one was nil.\<close>

fun derefPointers :: "aval \<Rightarrow> aval option \<times> bool \<times> bool" where
  "derefPointers (AVPtr None) = (None, True, True)"
| "derefPointers (AVPtr (Some v)) = (case derefPointers v of (d, _, isNil) \<Rightarrow> (d, True, isNil))"
| "derefPointers v = (Some v, False, False)"

fun void_value :: "aval \<Rightarrow> bool" where
  "void_value (AVString s) = (s = [])"
| "void_value (AVOther e) = e"
| "void_value (AVBytes s) = (s = [])"
| "void_value (AVSlice vs) = (vs = [])"
| "void_value (AVIface v) = (v = None)"
| "void_value _ = False"

definition isVoid :: "aval \<Rightarrow> aval option \<times> bool" where
  "isVoid rv =
     (case derefPointers rv of
        (d, _, isNilPtr) \<Rightarrow>
          (if isNilPtr then (d, True) else case d of None \<Rightarrow> (None, True) | Some v \<Rightarrow> (Some v, void_value v)))"

text \<open>A value reached through a pointer is addressable.\<close>

definition through_ptr :: "aval \<Rightarrow> bool" where
  "through_ptr rv = fst (snd (derefPointers rv))"

datatype 'a run = Ret 'a | Crash | NoFuel

definition of_opt :: "'a option \<Rightarrow> 'a run" where
  "of_opt r = (case r of None \<Rightarrow> Crash | Some x \<Rightarrow> Ret x)"

fun info_type :: "type_info \<Rightarrow> aty" where
  "info_type (IInfo i) = i_Type i"
| "info_type (CInfo c) = c_Type c"

abbreviation typeInfo :: "codec \<Rightarrow> aty \<Rightarrow> (string + type_info) option" where
  "typeInfo cdc t \<equiv> snd (getTypeInfo_wlock t cdc)"

section \<open>Encoding\<close>

text \<open>An encoder of values takes the type information, whether the value is addressable
  (\<^verbatim>\<open>rv.CanAddr()\<close>), the value and the options.\<close>

type_synonym 'w enc = "'w \<Rightarrow> (string option \<times> 'w) run"
type_synonym 'w encoder = "type_info \<Rightarrow> bool \<Rightarrow> aval \<Rightarrow> FieldOptions \<Rightarrow> 'w enc"

text \<open>\<open>if err != nil { return }\<close>\<close>

definition bind_w :: "(string option \<times> 'w) run \<Rightarrow> ('w \<Rightarrow> (string option \<times> 'w) run) \<Rightarrow> (string option \<times> 'w) run" where
  "bind_w r f = (case r of Ret (None, w) \<Rightarrow> f w | _ \<Rightarrow> r)"

definition encodeReflectBinary :: "'w encoder \<Rightarrow> ('w, string) writer \<Rightarrow> 'w encoder" where
  "encodeReflectBinary rec W info ca rv opts w =
     (case rv of
        AVPtr _ \<Rightarrow> Crash
      | _ \<Rightarrow>
          (case info of
             CInfo c \<Rightarrow>
               (if Registered c then
                  (case typeToTyp4 (c_Type c) opts of
                     None \<Rightarrow> Crash
                   | Some typ4 \<Rightarrow> bind_w (Ret (W (WithTyp3 (Prefix c) (Typ4_Typ3 typ4)) w)) (rec info ca rv opts))
                else rec info ca rv opts w)
           | IInfo _ \<Rightarrow> rec info ca rv opts w))"

text \<open>The cases of the switch for values without parts.\<close>

definition encode_basic :: "('w, string) writer \<Rightarrow> aty \<Rightarrow> aval \<Rightarrow> FieldOptions \<Rightarrow> 'w enc" where
  "encode_basic W t rv opts w =
     (case (t, rv) of
        (AInt64, AVInt i) \<Rightarrow> Ret (if BinVarint opts then EncodeVarint W i w else EncodeInt64 W i w)
      | (AInt32, AVInt i) \<Rightarrow> Ret (EncodeInt32 W (ucast i) w)
      | (AInt16, AVInt i) \<Rightarrow> Ret (EncodeInt16 W (ucast i) w)
      | (AInt8, AVInt i) \<Rightarrow> Ret (EncodeInt8 W (ucast i) w)
      | (AInt, AVInt i) \<Rightarrow> Ret (EncodeVarint W i w)
      | (AUint64, AVUint u) \<Rightarrow> Ret (if BinVarint opts then EncodeUvarint W u w else EncodeUint64 W u w)
      | (AUint32, AVUint u) \<Rightarrow> Ret (EncodeUint32 W (ucast u) w)
      | (AUint16, AVUint u) \<Rightarrow> Ret (EncodeUint16 W (ucast u) w)
      | (AUint8, AVUint u) \<Rightarrow> Ret (EncodeUint8 W (ucast u) w)
      | (AUint, AVUint u) \<Rightarrow> Ret (EncodeUvarint W u w)
      | (ABool, AVBool b) \<Rightarrow> Ret (EncodeBool W b w)
      | (AFloat64, AVF64 f) \<Rightarrow>
          (if \<not> Unsafe opts then Ret (Some ''Amino float* support requires amino:unsafe'', w) else Ret (EncodeFloat64 W f w))
      | (AFloat32, AVF32 f) \<Rightarrow>
          (if \<not> Unsafe opts then Ret (Some ''Amino float* support requires amino:unsafe'', w) else Ret (EncodeFloat32 W f w))
      | (AString, AVString s) \<Rightarrow> Ret (EncodeString W s w)
      | _ \<Rightarrow> Crash)"

definition encodeReflectBinaryInterface :: "'w encoder \<Rightarrow> codec \<Rightarrow> ('w, string) writer
    \<Rightarrow> interface_info \<Rightarrow> aval \<Rightarrow> FieldOptions \<Rightarrow> 'w enc" where
  "encodeReflectBinaryInterface rec cdc W iinfo rv opts w =
     (case rv of
        AVIface None \<Rightarrow> Ret (W [0, 0] w)
      | AVIface (Some (dt, dv)) \<Rightarrow>
          (case derefPointers dv of
             (Some crv, isPtr, False) \<Rightarrow>
               (if isPtr \<and> is_iface (deref_ty dt) then Crash
                else case typeInfo cdc (deref_ty dt) of
                       Some (Inl e) \<Rightarrow> Ret (Some e, w)
                     | Some (Inr (CInfo cinfo)) \<Rightarrow>
                         (if \<not> Registered cinfo then Ret (Some ''Cannot encode unregistered concrete type'', w)
                          else
                            let needDisamb = (AlwaysDisambiguate iinfo \<or> length (impls iinfo (Prefix cinfo)) > 1)
                            in bind_w (Ret (if needDisamb then W (0 # Disamb cinfo) w else (None, w)))
                                 (\<lambda>w. case typeToTyp3 (deref_ty dt) opts of
                                        None \<Rightarrow> Crash
                                      | Some typ \<Rightarrow>
                                          bind_w (Ret (W (WithTyp3 (Prefix cinfo) typ) w)) (rec (CInfo cinfo) isPtr crv opts)))
                     | _ \<Rightarrow> Crash)
           | _ \<Rightarrow> Crash)
      | _ \<Rightarrow> Crash)"

text \<open>\<^verbatim>\<open>reflect.Copy\<close>, for an array that is not addressable, panics if the type of the elements is not
  \<open>uint8\<close> itself.\<close>

definition encodeReflectBinaryByteArray :: "('w, string) writer \<Rightarrow> aty \<Rightarrow> bool \<Rightarrow> aval \<Rightarrow> 'w enc" where
  "encodeReflectBinaryByteArray W ert ca rv w =
     (case rv of AVByteArr bs \<Rightarrow> if ca \<or> ert = AUint8 then Ret (EncodeByteSlice W bs w) else Crash | _ \<Rightarrow> Crash)"

definition encodeReflectBinaryByteSlice :: "('w, string) writer \<Rightarrow> aval \<Rightarrow> 'w enc" where
  "encodeReflectBinaryByteSlice W rv w = (case rv of AVBytes bs \<Rightarrow> Ret (EncodeByteSlice W bs w) | _ \<Rightarrow> Crash)"

text \<open>The loop over the elements, with the error of the last write: an error of a nil byte is
  overwritten by the next element.\<close>

fun encode_elems :: "(bool \<Rightarrow> aval \<Rightarrow> 'w enc) \<Rightarrow> ('w, string) writer \<Rightarrow> bool \<Rightarrow> bool \<Rightarrow> aval list \<Rightarrow> string option \<Rightarrow> 'w enc" where
  "encode_elems E W ptr ca [] err w = Ret (err, w)"
| "encode_elems E W ptr ca (v # vs) err w =
     (case isVoid v of
        (erv, void) \<Rightarrow>
          (if ptr \<and> void then (case W [1] w of (err, w) \<Rightarrow> encode_elems E W ptr ca vs err w)
           else case erv of
                  None \<Rightarrow> Crash
                | Some v' \<Rightarrow>
                    bind_w (E (ca \<or> through_ptr v) v' (if ptr then snd (W [0] w) else w)) (encode_elems E W ptr ca vs None)))"

fun list_elems :: "aval \<Rightarrow> aval list option" where
  "list_elems (AVSlice vs) = Some vs"
| "list_elems (AVArray vs) = Some vs"
| "list_elems _ = None"

text \<open>The elements of a slice are addressable, those of an array if the array is.\<close>

fun elems_addr :: "aval \<Rightarrow> bool \<Rightarrow> bool" where
  "elems_addr (AVSlice _) ca = True"
| "elems_addr _ ca = ca"

definition encodeReflectBinaryList :: "'w encoder \<Rightarrow> codec \<Rightarrow> ('w, string) writer
    \<Rightarrow> aty \<Rightarrow> bool \<Rightarrow> aval \<Rightarrow> FieldOptions \<Rightarrow> 'w enc" where
  "encodeReflectBinaryList E cdc W ert ca rv opts w =
     (if is_byte ert then Crash
      else case (typeToTyp4 ert opts, list_elems rv) of
        (Some typ, Some vs) \<Rightarrow>
          bind_w (Ret (EncodeByte W typ w))
            (\<lambda>w. bind_w (Ret (EncodeUvarint W (of_nat (length vs)) w))
              (\<lambda>w. case typeInfo cdc ert of
                     None \<Rightarrow> Crash
                   | Some (Inl e) \<Rightarrow> Ret (Some e, w)
                   | Some (Inr einfo) \<Rightarrow> encode_elems (\<lambda>a v. E einfo a v opts) W (Typ4_IsPointer typ) (elems_addr rv ca) vs None w))
      | _ \<Rightarrow> Crash)"

text \<open>The fields of a struct value; \<^verbatim>\<open>rv.Field(i)\<close> panics outside of it.\<close>

fun struct_vals :: "aval \<Rightarrow> aval list" where
  "struct_vals (AVStruct vs) = vs"
| "struct_vals _ = []"

fun encode_fields :: "'w encoder \<Rightarrow> codec \<Rightarrow> ('w, string) writer
    \<Rightarrow> bool \<Rightarrow> aval list \<Rightarrow> field_info list \<Rightarrow> 'w enc" where
  "encode_fields E cdc W ca vs [] w = Ret (None, w)"
| "encode_fields E cdc W ca vs (f # fs) w =
     (if FIndex f \<ge> length vs then Crash
      else case isVoid (vs ! FIndex f) of
        (frv, void) \<Rightarrow>
          (if void then encode_fields E cdc W ca vs fs w
           else case (typeInfo cdc (FType f), frv) of
                  (None, _) \<Rightarrow> Crash
                | (_, None) \<Rightarrow> Crash
                | (Some (Inl e), _) \<Rightarrow> Ret (Some e, w)
                | (Some (Inr finfo), Some v) \<Rightarrow>
                    bind_w (of_opt (encodeFieldNumberAndTyp3 W (BinFieldNum (FOptions f)) (BinTyp3 f) w))
                      (\<lambda>w. bind_w (E finfo (ca \<or> through_ptr (vs ! FIndex f)) v (FOptions f) w) (encode_fields E cdc W ca vs fs))))"

definition encodeReflectBinaryStruct :: "'w encoder \<Rightarrow> codec \<Rightarrow> ('w, string) writer
    \<Rightarrow> concrete_info \<Rightarrow> bool \<Rightarrow> aval \<Rightarrow> 'w enc" where
  "encodeReflectBinaryStruct E cdc W info ca rv w =
     (if c_Type info = ATime then (case rv of AVTime t \<Rightarrow> of_opt (EncodeTime W t w) | _ \<Rightarrow> Crash)
      else bind_w (encode_fields E cdc W ca (struct_vals rv) (Fields info) w) (\<lambda>w. Ret (EncodeByte W Typ3_StructTerm w)))"

text \<open>The switch on the kind of a concrete type.\<close>

definition encode_kind :: "'w encoder \<Rightarrow> codec \<Rightarrow> ('w, string) writer \<Rightarrow> concrete_info \<Rightarrow> bool \<Rightarrow> aval \<Rightarrow> FieldOptions \<Rightarrow> 'w enc" where
  "encode_kind E cdc W d ca rv opts w =
     (case under (c_Type d) of
        AArray _ e \<Rightarrow>
          (if is_byte e then encodeReflectBinaryByteArray W e ca rv w else encodeReflectBinaryList E cdc W e ca rv opts w)
      | ASlice e \<Rightarrow>
          (if is_byte e then encodeReflectBinaryByteSlice W rv w else encodeReflectBinaryList E cdc W e ca rv opts w)
      | AStruct _ \<Rightarrow> encodeReflectBinaryStruct E cdc W d ca rv w
      | ATime \<Rightarrow> encodeReflectBinaryStruct E cdc W d ca rv w
      | t \<Rightarrow> encode_basic W t rv opts w)"

primrec u_encodeReflectBinary :: "nat \<Rightarrow> codec \<Rightarrow> ('w, string) writer \<Rightarrow> 'w encoder" where
  "u_encodeReflectBinary 0 cdc W info ca rv opts w = NoFuel"
| "u_encodeReflectBinary (Suc k) cdc W info ca rv opts w =
     (let rec = u_encodeReflectBinary k cdc W; E = encodeReflectBinary rec W
      in case rv of
           AVPtr _ \<Rightarrow> Crash
         | _ \<Rightarrow>
             (case info of
                IInfo iinfo \<Rightarrow> encodeReflectBinaryInterface rec cdc W iinfo rv opts w
              | CInfo cinfo \<Rightarrow> encode_kind E cdc W cinfo ca rv opts w))"

text \<open>\<open>o\<close> has type \<open>t\<close>. The fuel is the size of the value and one more; every call has a smaller value.\<close>

definition MarshalBinaryBare :: "codec \<Rightarrow> aty \<Rightarrow> aval \<Rightarrow> (string + bytes) run" where
  "MarshalBinaryBare cdc t v =
     (case derefPointers v of
        (Some rv, isPtr, False) \<Rightarrow>
          (case typeInfo cdc (deref_ty t) of
             None \<Rightarrow> Crash
           | Some (Inl e) \<Rightarrow> Ret (Inl e)
           | Some (Inr info) \<Rightarrow>
               (case encodeReflectBinary (u_encodeReflectBinary (Suc (size rv)) cdc buffer) buffer info isPtr rv no_options [] of
                  Ret (None, bz) \<Rightarrow> Ret (Inr bz)
                | Ret (Some e, _) \<Rightarrow> Ret (Inl e)
                | Crash \<Rightarrow> Crash
                | NoFuel \<Rightarrow> NoFuel))
      | _ \<Rightarrow> Crash)"

section \<open>Decoding\<close>

text \<open>A decoder returns the target after the call, the number of bytes read and the error.\<close>

type_synonym dres = "(aval \<times> nat \<times> string option) run"

text \<open>\<open>x, _n, err = D(bz); slide(&bz, &n, _n)\<close>\<close>

definition dstep :: "('a \<times> nat \<times> string option) run \<Rightarrow> bytes \<Rightarrow> nat \<Rightarrow> ('a \<Rightarrow> bytes \<Rightarrow> nat \<Rightarrow> string option \<Rightarrow> 'b run) \<Rightarrow> 'b run" where
  "dstep r bz n k =
     (case r of
        Ret (x, m, err) \<Rightarrow> (case slide bz n m of None \<Rightarrow> Crash | Some (bz, n) \<Rightarrow> k x bz n err)
      | Crash \<Rightarrow> Crash
      | NoFuel \<Rightarrow> NoFuel)"

text \<open>\<open>if slide(&bz, &n, _n) && err != nil { return }\<close>, where the target is \<open>rv\<close> at the return.\<close>

definition dstep_err :: "('a \<times> nat \<times> string option) run \<Rightarrow> bytes \<Rightarrow> nat \<Rightarrow> 'b \<Rightarrow> ('a \<Rightarrow> bytes \<Rightarrow> nat \<Rightarrow> ('b \<times> nat \<times> string option) run)
    \<Rightarrow> ('b \<times> nat \<times> string option) run" where
  "dstep_err r bz n rv k = dstep r bz n (\<lambda>x bz n err. if err \<noteq> None then Ret (rv, n, err) else k x bz n)"

definition checkTyp3 :: "aty \<Rightarrow> byte \<Rightarrow> FieldOptions \<Rightarrow> string option option" where
  "checkTyp3 rt typ opts =
     map_option (\<lambda>typWanted. if typ \<noteq> typWanted then Some ''Typ3 mismatch'' else None) (typeToTyp3 rt opts)"

text \<open>The outer \<open>None\<close> is the panic of \<open>typeToTyp4\<close>.\<close>

definition decodeTyp4AndCheck :: "aty \<Rightarrow> bytes \<Rightarrow> FieldOptions \<Rightarrow> (bool \<times> nat \<times> string option) option" where
  "decodeTyp4AndCheck rt bz opts =
     (case decodeTyp4 bz of
        (typ, n, Some err) \<Rightarrow> Some (False, n, Some err)
      | (typ, n, None) \<Rightarrow>
          map_option (\<lambda>typWanted. if typWanted \<noteq> typ then (False, n, Some ''Typ4 mismatch'') else (typ AND 0x08 \<noteq> 0, n, None))
            (typeToTyp4 rt opts))"

record disamb_prefix =
  dp_db :: bytes
  dp_hasDb :: bool
  dp_pb :: bytes
  dp_typ :: byte
  dp_hasPb :: bool
  dp_isNil :: bool

definition no_prefix :: disamb_prefix where
  "no_prefix = \<lparr>dp_db = [0, 0, 0], dp_hasDb = False, dp_pb = [0, 0, 0, 0], dp_typ = 0, dp_hasPb = False, dp_isNil = False\<rparr>"

definition DecodeDisambPrefixBytes :: "disamb_prefix dec" where
  "DecodeDisambPrefixBytes bz =
     (if length bz \<ge> 2 \<and> bz ! 0 = 0 \<and> bz ! 1 = 0 then (no_prefix\<lparr>dp_isNil := True\<rparr>, 2, None)
      else if length bz < 4 then (no_prefix, 0, Some ''EOF reading prefix bytes.'')
      else if bz ! 0 = 0 then
        (if length bz < 8 then (no_prefix, 0, Some ''EOF reading disamb bytes.'')
         else case SplitTyp3 (take 4 (drop 4 bz)) of
                (pb, typ) \<Rightarrow> (no_prefix\<lparr>dp_db := take 3 (drop 1 bz), dp_hasDb := True, dp_pb := pb, dp_typ := typ, dp_hasPb := True\<rparr>, 8, None))
      else case SplitTyp3 (take 4 bz) of
             (pb, typ) \<Rightarrow> (no_prefix\<lparr>dp_pb := pb, dp_typ := typ, dp_hasPb := True\<rparr>, 4, None))"

text \<open>The decoder of a value: bytes, type information, the static type and value of the target, options.\<close>

type_synonym bin_decoder = "bytes \<Rightarrow> type_info \<Rightarrow> aty \<Rightarrow> aval \<Rightarrow> FieldOptions \<Rightarrow> dres"

definition decodeReflectBinary :: "bin_decoder \<Rightarrow> bin_decoder" where
  "decodeReflectBinary rec bz info rt rv opts =
     (if is_iface (info_type info) \<and> is_ptr rt then Crash
      else case info of
        CInfo c \<Rightarrow>
          (if Registered c then
             (if length bz < 4 then Ret (rv, 0, Some ''EOF skipping prefix bytes.'')
              else case SplitTyp3 (take 4 bz) of
                (prefix, typ) \<Rightarrow>
                  (if Prefix c \<noteq> prefix then Crash
                   else case checkTyp3 (c_Type c) typ opts of
                     None \<Rightarrow> Crash
                   | Some (Some err) \<Rightarrow> Ret (rv, 0, Some err)
                   | Some None \<Rightarrow> dstep (rec (drop 4 bz) info rt rv opts) (drop 4 bz) 4 (\<lambda>v bz n err. Ret (v, n, err))))
           else dstep (rec bz info rt rv opts) bz 0 (\<lambda>v bz n err. Ret (v, n, err)))
      | IInfo _ \<Rightarrow> dstep (rec bz info rt rv opts) bz 0 (\<lambda>v bz n err. Ret (v, n, err)))"

text \<open>The cases of the switch for values without parts.\<close>

definition decode_into :: "'a dec \<Rightarrow> ('a \<Rightarrow> aval) \<Rightarrow> bytes \<Rightarrow> aval \<Rightarrow> dres" where
  "decode_into D mk bz rv = dstep_err (Ret (D bz)) bz 0 rv (\<lambda>num bz n. Ret (mk num, n, None))"

definition decode_basic :: "aty \<Rightarrow> bytes \<Rightarrow> aval \<Rightarrow> FieldOptions \<Rightarrow> dres" where
  "decode_basic t bz rv opts =
     (case t of
        AInt64 \<Rightarrow> if BinVarint opts then decode_into DecodeVarint AVInt bz rv else decode_into DecodeInt64 AVInt bz rv
      | AInt32 \<Rightarrow> decode_into DecodeInt32 (\<lambda>i. AVInt (scast i)) bz rv
      | AInt16 \<Rightarrow> decode_into DecodeInt16 (\<lambda>i. AVInt (scast i)) bz rv
      | AInt8 \<Rightarrow> decode_into DecodeInt8 (\<lambda>i. AVInt (scast i)) bz rv
      | AInt \<Rightarrow> decode_into DecodeVarint AVInt bz rv
      | AUint64 \<Rightarrow> if BinVarint opts then decode_into DecodeUvarint AVUint bz rv else decode_into DecodeUint64 AVUint bz rv
      | AUint32 \<Rightarrow> decode_into DecodeUint32 (\<lambda>u. AVUint (ucast u)) bz rv
      | AUint16 \<Rightarrow> decode_into DecodeUint16 (\<lambda>u. AVUint (ucast u)) bz rv
      | AUint8 \<Rightarrow> decode_into DecodeUint8 (\<lambda>u. AVUint (ucast u)) bz rv
      | AUint \<Rightarrow> decode_into DecodeUvarint AVUint bz rv
      | ABool \<Rightarrow> decode_into DecodeBool AVBool bz rv
      | AFloat64 \<Rightarrow>
          if \<not> Unsafe opts then Ret (rv, 0, Some ''Float support requires amino:unsafe'') else decode_into DecodeFloat64 AVF64 bz rv
      | AFloat32 \<Rightarrow>
          if \<not> Unsafe opts then Ret (rv, 0, Some ''Float support requires amino:unsafe'') else decode_into DecodeFloat32 AVF32 bz rv
      | AString \<Rightarrow> dstep_err (of_opt (DecodeString bz)) bz 0 rv (\<lambda>str bz n. Ret (AVString str, n, None))
      | _ \<Rightarrow> Crash)"

text \<open>The value to set on the interface for a decoded concrete value, with its type.\<close>

definition constructConcreteType :: "concrete_info \<Rightarrow> aval \<Rightarrow> aty \<times> aval" where
  "constructConcreteType cinfo crv =
     (if PointerPreferred cinfo then (APtr (c_Type cinfo), AVPtr (Some crv)) else (c_Type cinfo, crv))"

text \<open>\<^verbatim>\<open>rv.Set\<close> panics unless the type implements the interface.\<close>

definition decodeReflectBinaryInterface :: "bin_decoder \<Rightarrow> implements \<Rightarrow> codec \<Rightarrow> bytes \<Rightarrow> interface_info \<Rightarrow> aval \<Rightarrow> FieldOptions \<Rightarrow> dres" where
  "decodeReflectBinaryInterface rec impl cdc bz iinfo rv opts =
     (if rv \<noteq> AVIface None then Ret (rv, 0, Some ''Decoding to a non-nil interface is not supported yet'')
      else dstep_err (Ret (DecodeDisambPrefixBytes bz)) bz 0 rv (\<lambda>dp bz n.
        if dp_isNil dp then Ret (AVIface None, n, None)
        else case (if dp_hasDb dp then Some (getTypeInfoFromDisfix_rlock cdc (toDisfix (dp_db dp) (dp_pb dp)))
                   else if dp_hasPb dp then getTypeInfoFromPrefix_rlock iinfo (dp_pb dp)
                   else Some (Inl ''Expected disambiguation or prefix bytes.'')) of
               None \<Rightarrow> Crash
             | Some (Inl e) \<Rightarrow> Ret (rv, n, Some e)
             | Some (Inr cinfo) \<Rightarrow>
                 (case checkTyp3 (c_Type cinfo) (dp_typ dp) opts of
                    None \<Rightarrow> Crash
                  | Some (Some e) \<Rightarrow> Ret (rv, n, Some e)
                  | Some None \<Rightarrow>
                      dstep (rec bz (CInfo cinfo) (c_Type cinfo) (zero_of (c_Type cinfo)) opts) bz n (\<lambda>crv bz n err.
                        case constructConcreteType cinfo crv of
                          (irt, irv) \<Rightarrow> if impl irt (i_Type iinfo) then Ret (AVIface (Some (irt, irv)), n, err) else Crash))))"

text \<open>\<^verbatim>\<open>reflect.Copy\<close> and \<^verbatim>\<open>rv.Set\<close> of a byte slice panic if the type of the elements is not
  \<open>uint8\<close> itself.\<close>

definition decodeReflectBinaryByteArray :: "bytes \<Rightarrow> nat \<Rightarrow> aty \<Rightarrow> aval \<Rightarrow> dres" where
  "decodeReflectBinaryByteArray bz len ert rv =
     (if length bz < len then Ret (rv, 0, Some ''Insufficient bytes to decode byte array'')
      else dstep_err (of_opt (DecodeByteSlice bz)) bz 0 rv (\<lambda>byteslice bz n.
        if length byteslice \<noteq> len then Ret (rv, n, Some ''Mismatched byte array length'')
        else if ert = AUint8 then Ret (AVByteArr byteslice, n, None) else Crash))"

definition decodeReflectBinaryByteSlice :: "bytes \<Rightarrow> aty \<Rightarrow> aval \<Rightarrow> dres" where
  "decodeReflectBinaryByteSlice bz ert rv =
     dstep_err (of_opt (DecodeByteSlice bz)) bz 0 rv (\<lambda>byteslice bz n.
       if byteslice = [] then Ret (AVBytes [], n, None)
       else if ert = AUint8 then Ret (AVBytes byteslice, n, None) else Crash)"

text \<open>The loop over the elements of an array or slice: the targets still to fill, with \<open>z\<close> the nil
  element; the elements after the loop, the bytes read and the error.\<close>

fun decode_elems :: "(bytes \<Rightarrow> aval \<Rightarrow> dres) \<Rightarrow> aval \<Rightarrow> bool \<Rightarrow> aval list \<Rightarrow> bytes \<Rightarrow> nat
    \<Rightarrow> (aval list \<times> nat \<times> string option) run" where
  "decode_elems D z ptr [] bz n = Ret ([], n, None)"
| "decode_elems D z ptr (t # ts) bz n =
     (let more = (\<lambda>v bz n.
            case decode_elems D z ptr ts bz n of Ret (vs, m, err) \<Rightarrow> Ret (v # vs, m, err) | Crash \<Rightarrow> Crash | NoFuel \<Rightarrow> NoFuel);
          item = (\<lambda>bz n. dstep (D bz t) bz n (\<lambda>v bz n err. if err \<noteq> None then Ret (v # ts, n, err) else more v bz n))
      in if ptr then
           dstep_err (Ret (decodeNumNilBytes bz)) bz n (t # ts) (\<lambda>numNil bz n.
             if numNil = 0 then item bz n else if numNil = 1 then more z bz n else Crash)
         else item bz n)"

definition decodeReflectBinaryArray :: "bin_decoder \<Rightarrow> codec \<Rightarrow> bytes \<Rightarrow> nat \<Rightarrow> aty \<Rightarrow> aval \<Rightarrow> FieldOptions \<Rightarrow> dres" where
  "decodeReflectBinaryArray D cdc bz len ert rv opts =
     (if is_byte ert then Crash
      else case typeInfo cdc ert of
        None \<Rightarrow> Crash
      | Some (Inl e) \<Rightarrow> Ret (rv, 0, Some e)
      | Some (Inr einfo) \<Rightarrow>
          dstep_err (of_opt (decodeTyp4AndCheck ert bz opts)) bz 0 rv (\<lambda>ptr bz n.
            dstep_err (Ret (DecodeUvarint bz)) bz n rv (\<lambda>count bz n.
              if sint count \<noteq> int len then Ret (rv, n, Some ''Expected num items'')
              else case list_elems rv of
                     None \<Rightarrow> Crash
                   | Some ts \<Rightarrow>
                       (case decode_elems (\<lambda>bz t. D bz einfo ert t opts) (zero_of ert) ptr ts bz n of
                          Ret (vs, n, err) \<Rightarrow> Ret (AVArray vs, n, err)
                        | Crash \<Rightarrow> Crash
                        | NoFuel \<Rightarrow> NoFuel))))"

definition decodeReflectBinarySlice :: "bin_decoder \<Rightarrow> codec \<Rightarrow> bytes \<Rightarrow> aty \<Rightarrow> aval \<Rightarrow> FieldOptions \<Rightarrow> dres" where
  "decodeReflectBinarySlice D cdc bz ert rv opts =
     (if is_byte ert then Crash
      else case typeInfo cdc ert of
        None \<Rightarrow> Crash
      | Some (Inl e) \<Rightarrow> Ret (rv, 0, Some e)
      | Some (Inr einfo) \<Rightarrow>
          dstep_err (of_opt (decodeTyp4AndCheck ert bz opts)) bz 0 rv (\<lambda>ptr bz n.
            dstep_err (Ret (DecodeUvarint bz)) bz n rv (\<lambda>count bz n.
              if count <s 0 then Ret (rv, n, Some ''Impossible number of elements'')
              else if sint count > int (length bz) then Ret (rv, n, Some ''Impossible number of elements compared to buffer length'')
              else if count = 0 then Ret (AVSlice [], n, None)
              else case decode_elems (\<lambda>bz t. D bz einfo ert t opts) (zero_of ert) ptr (replicate (unat count) (zero_of ert)) bz n of
                     Ret (vs, n, None) \<Rightarrow> Ret (AVSlice vs, n, None)
                   | Ret (vs, n, Some err) \<Rightarrow> Ret (rv, n, Some err)
                   | Crash \<Rightarrow> Crash
                   | NoFuel \<Rightarrow> NoFuel)))"

definition decode_term :: "aval \<Rightarrow> bytes \<Rightarrow> nat \<Rightarrow> dres" where
  "decode_term rv bz n =
     dstep_err (Ret (decodeTyp3 bz)) bz n rv (\<lambda>typ bz n.
       if typ \<noteq> Typ3_StructTerm then Ret (rv, n, Some ''Expected StructTerm typ3 byte'') else Ret (rv, n, None))"

text \<open>The loop over the fields and what follows it. A field whose number is passed over is set to zero
  without reading; a field number of zero ends the loop.\<close>

fun bin_fields :: "bin_decoder \<Rightarrow> codec \<Rightarrow> field_info list \<Rightarrow> aval list \<Rightarrow> bytes \<Rightarrow> nat \<Rightarrow> dres" where
  "bin_fields D cdc [] vs bz n = decode_term (AVStruct vs) bz n"
| "bin_fields D cdc (f # fs) vs bz n =
     (if FIndex f \<ge> length vs then Crash
      else case typeInfo cdc (FType f) of
        None \<Rightarrow> Crash
      | Some (Inl e) \<Rightarrow> Ret (AVStruct vs, n, Some e)
      | Some (Inr finfo) \<Rightarrow>
          (case decodeFieldNumberAndTyp3 bz of
             ((fieldNum, typ), m, err) \<Rightarrow>
               (if BinFieldNum (FOptions f) < fieldNum then bin_fields D cdc fs (vs[FIndex f := zero_of (FType f)]) bz n
                else if fieldNum = 0 then decode_term (AVStruct vs) bz n
                else dstep_err (Ret ((), m, err)) bz n (AVStruct vs) (\<lambda>_ bz n.
                  if BinFieldNum (FOptions f) \<noteq> fieldNum then Ret (AVStruct vs, n, Some ''Expected field number'')
                  else case typeToTyp4 (FType f) (FOptions f) of
                         None \<Rightarrow> Crash
                       | Some typWanted \<Rightarrow>
                           (if typ \<noteq> Typ4_Typ3 typWanted then Ret (AVStruct vs, n, Some ''Expected field type'')
                            else dstep (D bz finfo (FType f) (vs ! FIndex f) (FOptions f)) bz n (\<lambda>v bz n err.
                              if err \<noteq> None then Ret (AVStruct (vs[FIndex f := v]), n, err)
                              else bin_fields D cdc fs (vs[FIndex f := v]) bz n))))))"

definition decodeReflectBinaryStruct :: "bin_decoder \<Rightarrow> codec \<Rightarrow> bytes \<Rightarrow> concrete_info \<Rightarrow> aval \<Rightarrow> dres" where
  "decodeReflectBinaryStruct D cdc bz info rv =
     (if c_Type info = ATime then dstep_err (of_opt (DecodeTime bz)) bz 0 rv (\<lambda>t bz n. Ret (AVTime t, n, None))
      else case rv of
             AVStruct vs \<Rightarrow> bin_fields D cdc (Fields info) vs bz 0
           | _ \<Rightarrow> if Fields info = [] then decode_term rv bz 0 else Crash)"

text \<open>\<open>for rv.Kind() == reflect.Ptr\<close>: pointers are followed, and nil ones set to fresh zero values.\<close>

fun through_ptrs :: "aty \<Rightarrow> aval \<Rightarrow> (aval \<Rightarrow> dres) \<Rightarrow> dres" where
  "through_ptrs (APtr t) v f =
     (case v of
        AVPtr p \<Rightarrow>
          (case through_ptrs t (case p of None \<Rightarrow> zero_of t | Some u \<Rightarrow> u) f of
             Ret (u, n, err) \<Rightarrow> Ret (AVPtr (Some u), n, err)
           | Crash \<Rightarrow> Crash
           | NoFuel \<Rightarrow> NoFuel)
      | _ \<Rightarrow> Crash)"
| "through_ptrs (ANamed s t) v f = (if is_ptr t then through_ptrs t v f else f v)"
| "through_ptrs t v f = f v"

text \<open>The switch on the kind of a concrete type.\<close>

definition decode_kind :: "bin_decoder \<Rightarrow> codec \<Rightarrow> bytes \<Rightarrow> concrete_info \<Rightarrow> aval \<Rightarrow> FieldOptions \<Rightarrow> dres" where
  "decode_kind D cdc bz d rv opts =
     (case under (c_Type d) of
        AArray len e \<Rightarrow>
          (if is_byte e then decodeReflectBinaryByteArray bz len e rv else decodeReflectBinaryArray D cdc bz len e rv opts)
      | ASlice e \<Rightarrow> (if is_byte e then decodeReflectBinaryByteSlice bz e rv else decodeReflectBinarySlice D cdc bz e rv opts)
      | AStruct _ \<Rightarrow> decodeReflectBinaryStruct D cdc bz d rv
      | ATime \<Rightarrow> decodeReflectBinaryStruct D cdc bz d rv
      | t \<Rightarrow> decode_basic t bz rv opts)"

primrec u_decodeReflectBinary :: "nat \<Rightarrow> implements \<Rightarrow> codec \<Rightarrow> bin_decoder" where
  "u_decodeReflectBinary 0 impl cdc bz info rt rv opts = NoFuel"
| "u_decodeReflectBinary (Suc k) impl cdc bz info rt rv opts =
     (let rec = u_decodeReflectBinary k impl cdc; D = decodeReflectBinary rec
      in if is_iface (info_type info) \<and> is_ptr rt then Crash
         else through_ptrs rt rv (\<lambda>rv.
           case info of
             IInfo iinfo \<Rightarrow> decodeReflectBinaryInterface rec impl cdc bz iinfo rv opts
           | CInfo cinfo \<Rightarrow> decode_kind D cdc bz cinfo rv opts))"

text \<open>Fuel for the decoder: a call for a part has a smaller type, and a call for the value of an
  interface a registered type, of size at most \<open>max_size\<close>, and fewer bytes.\<close>

definition max_size :: "codec \<Rightarrow> nat" where
  "max_size cdc = Max (insert 0 (set (map (\<lambda>c. size (c_Type c)) (concreteInfos cdc))))"

definition decode_fuel :: "codec \<Rightarrow> aty \<Rightarrow> bytes \<Rightarrow> nat" where
  "decode_fuel cdc rt bz = Suc (length bz * Suc (max_size cdc) + size rt)"

text \<open>\<open>ptr\<close> points to a target of type \<open>rt\<close> with value \<open>rv\<close>; the target afterwards and the error.\<close>

definition UnmarshalBinaryBare :: "implements \<Rightarrow> codec \<Rightarrow> bytes \<Rightarrow> aty \<Rightarrow> aval \<Rightarrow> (aval \<times> string option) run" where
  "UnmarshalBinaryBare impl cdc bz rt rv =
     (if length bz = 0 then Ret (rv, Some ''UnmarshalBinaryBare cannot decode empty bytes'')
      else case typeInfo cdc rt of
        None \<Rightarrow> Crash
      | Some (Inl e) \<Rightarrow> Ret (rv, Some e)
      | Some (Inr info) \<Rightarrow>
          (case decodeReflectBinary (u_decodeReflectBinary (decode_fuel cdc rt bz) impl cdc) bz info rt rv no_options of
             Ret (rv, n, Some err) \<Rightarrow> Ret (rv, Some err)
           | Ret (rv, n, None) \<Rightarrow>
               (if n \<noteq> length bz then Ret (rv, Some ''Unmarshal did not read all bytes'') else Ret (rv, None))
           | Crash \<Rightarrow> Crash
           | NoFuel \<Rightarrow> NoFuel))"

end
