(* ===== verification/AminoSafe.thy ===== *)
theory AminoSafe
  imports AminoBinary
begin

text \<open>
  What the decoder does on arbitrary bytes: it ends within its fuel, reports no more bytes than
  there are, and leaves a value of the target's type behind, error or not. \<open>safe\<close> and
  \<open>codec_safe\<close> are the types and codecs for which it does not panic either.
\<close>

section \<open>Typing of values\<close>

definition basic_ty :: "aty \<Rightarrow> aval \<Rightarrow> bool" where
  "basic_ty t v \<longleftrightarrow>
     (case (t, v) of
        (ABool, AVBool _) \<Rightarrow> True
      | (AInt, AVInt _) \<Rightarrow> True
      | (AInt64, AVInt _) \<Rightarrow> True
      | (AInt32, AVInt i) \<Rightarrow> i = scast (ucast i :: 32 word)
      | (AInt16, AVInt i) \<Rightarrow> i = scast (ucast i :: 16 word)
      | (AInt8, AVInt i) \<Rightarrow> i = scast (ucast i :: 8 word)
      | (AUint, AVUint _) \<Rightarrow> True
      | (AUint64, AVUint _) \<Rightarrow> True
      | (AUint32, AVUint u) \<Rightarrow> u = ucast (ucast u :: u32)
      | (AUint16, AVUint u) \<Rightarrow> u = ucast (ucast u :: u16)
      | (AUint8, AVUint u) \<Rightarrow> u = ucast (ucast u :: byte)
      | (AFloat32, AVF32 _) \<Rightarrow> True
      | (AFloat64, AVF64 _) \<Rightarrow> True
      | (AString, AVString _) \<Rightarrow> True
      | (ATime, AVTime t) \<Rightarrow> time_ok t
      | (AMap, AVOther _) \<Rightarrow> True
      | (AOther, AVOther _) \<Rightarrow> True
      | _ \<Rightarrow> False)"

text \<open>A value of a static type; the value of an interface has a dynamic type that implements it.\<close>

inductive has_ty :: "implements \<Rightarrow> aty \<Rightarrow> aval \<Rightarrow> bool" for impl where
  basic: "basic_ty (under t) v \<Longrightarrow> has_ty impl t v"
| nil_iface: "is_iface t \<Longrightarrow> has_ty impl t (AVIface None)"
| iface: "is_iface t \<Longrightarrow> impl dt t \<Longrightarrow> has_ty impl dt v \<Longrightarrow> has_ty impl t (AVIface (Some (dt, v)))"
| nil_ptr: "under t = APtr e \<Longrightarrow> has_ty impl t (AVPtr None)"
| ptr: "under t = APtr e \<Longrightarrow> has_ty impl e v \<Longrightarrow> has_ty impl t (AVPtr (Some v))"
| byte_slice: "under t = ASlice e \<Longrightarrow> is_byte e \<Longrightarrow> has_ty impl t (AVBytes bs)"
| slice: "under t = ASlice e \<Longrightarrow> \<not> is_byte e \<Longrightarrow> (\<And>v. v \<in> set vs \<Longrightarrow> has_ty impl e v) \<Longrightarrow> has_ty impl t (AVSlice vs)"
| byte_array: "under t = AArray n e \<Longrightarrow> is_byte e \<Longrightarrow> length bs = n \<Longrightarrow> has_ty impl t (AVByteArr bs)"
| array: "under t = AArray n e \<Longrightarrow> \<not> is_byte e \<Longrightarrow> length vs = n \<Longrightarrow> (\<And>v. v \<in> set vs \<Longrightarrow> has_ty impl e v) \<Longrightarrow>
    has_ty impl t (AVArray vs)"
| struct: "under t = AStruct fs \<Longrightarrow> length vs = length fs \<Longrightarrow>
    (\<And>i. i < length fs \<Longrightarrow> has_ty impl (snd (snd (snd (fs ! i)))) (vs ! i)) \<Longrightarrow> has_ty impl t (AVStruct vs)"

lemma under_under [simp]: "under (under t) = under t"
  by (induction t rule: under.induct) simp_all

lemma under_not_named [simp]: "under t \<noteq> ANamed s u"
  by (induction t rule: under.induct) simp_all

lemma has_ty_ptr: "under t = APtr e \<Longrightarrow> has_ty impl t v \<longleftrightarrow> v = AVPtr None \<or> (\<exists>u. v = AVPtr (Some u) \<and> has_ty impl e u)"
  by (subst has_ty.simps) (auto simp: is_iface_def basic_ty_def)

lemma has_ty_slice: "under t = ASlice e \<Longrightarrow> has_ty impl t v \<longleftrightarrow>
    (if is_byte e then \<exists>bs. v = AVBytes bs else \<exists>vs. v = AVSlice vs \<and> (\<forall>x \<in> set vs. has_ty impl e x))"
  by (subst has_ty.simps) (auto simp: is_iface_def basic_ty_def)

lemma has_ty_array: "under t = AArray n e \<Longrightarrow> has_ty impl t v \<longleftrightarrow>
    (if is_byte e then \<exists>bs. v = AVByteArr bs \<and> length bs = n
     else \<exists>vs. v = AVArray vs \<and> length vs = n \<and> (\<forall>x \<in> set vs. has_ty impl e x))"
  by (subst has_ty.simps) (auto simp: is_iface_def basic_ty_def)

lemma has_ty_struct: "under t = AStruct fs \<Longrightarrow> has_ty impl t v \<longleftrightarrow>
    (\<exists>vs. v = AVStruct vs \<and> length vs = length fs \<and> (\<forall>i < length fs. has_ty impl (snd (snd (snd (fs ! i)))) (vs ! i)))"
  by (subst has_ty.simps) (auto simp: is_iface_def basic_ty_def)

lemma has_ty_time: "under t = ATime \<Longrightarrow> has_ty impl t v \<longleftrightarrow> (\<exists>x. v = AVTime x \<and> time_ok x)"
  by (subst has_ty.simps) (auto simp: is_iface_def simp: basic_ty_def split: aval.splits)

lemma zero_of_under: "zero_of t = zero_of (under t)"
  by (induction t rule: under.induct) simp_all

lemma has_ty_zero: "has_ty impl t (zero_of t)"
proof (induction t)
  case (ANamed s t)
  show ?case
  proof (cases "is_iface t")
    case True
    then have "zero_of t = AVIface None" by (subst zero_of_under) (auto simp: is_iface_def split: aty.splits)
    with True show ?thesis by (auto intro!: has_ty.nil_iface simp: is_iface_def)
  next
    case False
    from ANamed show ?thesis
      by (cases rule: has_ty.cases) (use False in \<open>auto intro: has_ty.intros simp: is_iface_def\<close>)
  qed
next
  case (AStruct fs)
  then show ?case
    by (auto intro!: has_ty.struct simp: in_set_conv_nth split: prod.splits) (metis nth_mem prod.collapse)
qed (auto intro: has_ty.intros simp: is_iface_def time_ok_def zero_time_def basic_ty_def)

section \<open>Good results\<close>

text \<open>A result that has not run out of fuel, has not panicked if \<open>c\<close> holds, reports at most \<open>N\<close> bytes and
  leaves a value in \<open>P\<close>.\<close>

definition run_ok :: "bool \<Rightarrow> ('a \<Rightarrow> bool) \<Rightarrow> nat \<Rightarrow> ('a \<times> nat \<times> string option) run \<Rightarrow> bool" where
  "run_ok c P N r \<longleftrightarrow> r \<noteq> NoFuel \<and> (c \<longrightarrow> r \<noteq> Crash) \<and> (\<forall>x n e. r = Ret (x, n, e) \<longrightarrow> n \<le> N \<and> P x)"

lemma good_Ret [simp]: "run_ok c P N (Ret (x, n, e)) \<longleftrightarrow> n \<le> N \<and> P x"
  by (auto simp: run_ok_def)

lemma good_Crash [simp]: "run_ok c P N Crash \<longleftrightarrow> \<not> c"
  by (auto simp: run_ok_def)

lemma good_NoFuel [simp]: "\<not> run_ok c P N NoFuel"
  by (simp add: run_ok_def)

lemma good_if: "(b \<Longrightarrow> run_ok c P N r) \<Longrightarrow> (\<not> b \<Longrightarrow> run_ok c P N s) \<Longrightarrow> run_ok c P N (if b then r else s)"
  by simp

lemma good_mono: "run_ok c P N r \<Longrightarrow> N \<le> M \<Longrightarrow> (\<And>x. P x \<Longrightarrow> Q x) \<Longrightarrow> run_ok c Q M r"
  by (cases r) (auto simp: run_ok_def)

lemma good_dstep:
  assumes "run_ok c P (length bz) r" "n + length bz = N"
    "\<And>x bz' n' e. P x \<Longrightarrow> n' + length bz' = N \<Longrightarrow> length bz' \<le> length bz \<Longrightarrow> run_ok c Q N (k x bz' n' e)"
  shows "run_ok c Q N (dstep r bz n k)"
proof (cases r)
  case (Ret y)
  obtain x m e where y: "y = (x, m, e)" by (cases y)
  with Ret assms(1) have m: "m \<le> length bz" and x: "P x" by simp_all
  have "n + m + length (drop m bz) = N" "length (drop m bz) \<le> length bz" using m assms(2) by simp_all
  from assms(3) [OF x this] m show ?thesis by (simp add: dstep_def Ret y slide_def)
qed (use assms(1) in \<open>simp_all add: dstep_def\<close>)

lemma good_dstep_err:
  assumes "run_ok c P (length bz) r" "n + length bz = N" "Q rv"
    "\<And>x bz' n'. P x \<Longrightarrow> n' + length bz' = N \<Longrightarrow> length bz' \<le> length bz \<Longrightarrow> run_ok c Q N (k x bz' n')"
  shows "run_ok c Q N (dstep_err r bz n rv k)"
  unfolding dstep_err_def
  by (rule good_dstep [OF assms(1, 2)]) (use assms(3, 4) in auto)

lemma good_dec: "(\<And>a n e. D bz = (a, n, e) \<Longrightarrow> n \<le> length bz) \<Longrightarrow> run_ok c (\<lambda>_. True) (length bz) (Ret (D bz))"
  by (cases "D bz") (auto simp: run_ok_def)

lemma good_within: "within N r \<Longrightarrow> run_ok c (\<lambda>_. True) N (of_opt r)"
  by (auto simp: within_def of_opt_def)

lemma good_decode_into:
  assumes "\<And>a n e. D bz = (a, n, e) \<Longrightarrow> n \<le> length bz" "\<And>a. P (mk a)" "P rv"
  shows "run_ok c P (length bz) (decode_into D mk bz rv)"
  unfolding decode_into_def
  by (rule good_dstep_err [where P = "\<lambda>_. True"], rule good_dec) (use assms in auto)

section \<open>Simple values\<close>

lemma cast_back:
  "scast (ucast (scast (i :: 8 word) :: u64) :: 8 word) = (scast i :: u64)"
  "scast (ucast (scast (j :: 16 word) :: u64) :: 16 word) = (scast j :: u64)"
  "ucast (ucast (ucast (u :: byte) :: u64) :: byte) = (ucast u :: u64)"
  "ucast (ucast (ucast (v :: u16) :: u64) :: u16) = (ucast v :: u64)"
  "ucast (ucast (ucast (w :: u32) :: u64) :: u32) = (ucast w :: u64)"
  by (simp_all add: ucast_scast ucast_ucast)

lemma ucast_scast32: "ucast (scast (i :: 32 word) :: u64) = i"
  by (rule bit_word_eqI) (auto simp: bit_simps)

definition is_basic :: "aty \<Rightarrow> bool" where
  "is_basic t \<longleftrightarrow> t \<in> {ABool, AInt, AInt8, AInt16, AInt32, AInt64, AUint, AUint8, AUint16, AUint32, AUint64,
     AFloat32, AFloat64, AString}"

lemma good_basic:
  assumes "P = basic_ty t" "P rv" "c \<longrightarrow> is_basic t"
  shows "run_ok c P (length bz) (decode_basic t bz rv opts)"
proof -
  note w = int8.reads_within int16.reads_within int32.reads_within int64.reads_within varint.reads_within
      uint8.reads_within uint16.reads_within uint32.reads_within uint64.reads_within uvarint.reads_within
      bool.reads_within float32.reads_within float64.reads_within
  have s: "run_ok c P (length bz) (dstep_err (of_opt (DecodeString bz)) bz 0 rv (\<lambda>str bz n. Ret (AVString str, n, None)))"
    if "t = AString"
    by (rule good_dstep_err [where P = "\<lambda>_. True", OF good_within])
      (use assms DecodeByteSlice_within [of bz] that in \<open>auto simp: DecodeString_def basic_ty_def\<close>)
  show ?thesis
    using assms s
    by (cases t) (auto simp: decode_basic_def is_basic_def intro!: good_decode_into dest: w,
        auto simp: basic_ty_def ucast_scast ucast_ucast ucast_scast32)
qed

section \<open>Type information\<close>

lemma deref_ty_simps [simp]: "is_ptr (deref_ty t) = False" "deref_ty (deref_ty t) = deref_ty t"
proof -
  show p: "is_ptr (deref_ty t) = False" for t
    by (induction t rule: deref_ty.induct) (auto simp: is_ptr_def)
  have "\<not> is_ptr t \<Longrightarrow> deref_ty t = t" for t by (cases t) (auto simp: is_ptr_def)
  then show "deref_ty (deref_ty t) = deref_ty t" using p by simp
qed

lemma deref_ty_id: "\<not> is_ptr t \<Longrightarrow> deref_ty t = t"
  by (cases t) (auto simp: is_ptr_def)

lemma typeInfo_IInfo:
  assumes "codec_inv impl cdc" "typeInfo cdc t = Some (Inr (IInfo ii))"
  shows "ifaceInfos cdc (deref_ty t) = Some ii" "is_iface (deref_ty t)" "i_Type ii = deref_ty t" "iface_ok impl cdc (deref_ty t) ii"
proof -
  show i: "ifaceInfos cdc (deref_ty t) = Some ii" "is_iface (deref_ty t)"
    using assms(2) by (auto simp: getTypeInfo_wlock_def Let_def split: if_splits option.splits prod.splits)
  then show "iface_ok impl cdc (deref_ty t) ii" using assms(1) by (simp add: codec_inv_def)
  then show "i_Type ii = deref_ty t" by (simp add: iface_ok_def)
qed

lemma typeInfo_CInfo:
  assumes "codec_inv impl cdc" "typeInfo cdc t = Some (Inr (CInfo c))"
  shows "c_Type c = deref_ty t" "\<not> is_iface (deref_ty t)"
    "map_option Fields (newTypeInfoUnregistered (deref_ty t)) = Some (Fields c)"
    "Registered c \<Longrightarrow> typeInfos cdc (deref_ty t) = Some c \<and> c \<in> set (concreteInfos cdc)"
proof -
  have ni: "\<not> is_iface (deref_ty t)"
    using assms(2) by (auto simp: getTypeInfo_wlock_def Let_def split: if_splits option.splits prod.splits)
  show "\<not> is_iface (deref_ty t)" by (rule ni)
  show "c_Type c = deref_ty t" "map_option Fields (newTypeInfoUnregistered (deref_ty t)) = Some (Fields c)"
    "Registered c \<Longrightarrow> typeInfos cdc (deref_ty t) = Some c \<and> c \<in> set (concreteInfos cdc)"
  proof -
    show "c_Type c = deref_ty t" "map_option Fields (newTypeInfoUnregistered (deref_ty t)) = Some (Fields c)"
      "Registered c \<Longrightarrow> typeInfos cdc (deref_ty t) = Some c \<and> c \<in> set (concreteInfos cdc)"
    proof (atomize (full), cases "typeInfos cdc (deref_ty t)")
      case None
      then obtain i where i: "newTypeInfoUnregistered (deref_ty t) = Some i" "c = i"
        using assms(2) ni by (auto simp: getTypeInfo_wlock_def Let_def split: option.splits prod.splits)
      show "c_Type c = deref_ty t \<and> map_option Fields (newTypeInfoUnregistered (deref_ty t)) = Some (Fields c) \<and>
          (Registered c \<longrightarrow> typeInfos cdc (deref_ty t) = Some c \<and> c \<in> set (concreteInfos cdc))"
        using newTypeInfoUnregistered_sel [OF i(1)] i by simp
    next
      case (Some d)
      then have "c = d" using assms(2) ni by (simp add: getTypeInfo_wlock_def)
      moreover have "type_ok cdc (deref_ty t) d" using assms(1) Some by (simp add: codec_inv_def)
      ultimately show "c_Type c = deref_ty t \<and> map_option Fields (newTypeInfoUnregistered (deref_ty t)) = Some (Fields c) \<and>
          (Registered c \<longrightarrow> typeInfos cdc (deref_ty t) = Some c \<and> c \<in> set (concreteInfos cdc))"
        using Some by (simp add: type_ok_def)
    qed
  qed
qed

text \<open>Every field of the information is a field of the struct, with its type.\<close>

definition field_at :: "afield list \<Rightarrow> field_info \<Rightarrow> bool" where
  "field_at fs f \<longleftrightarrow> FIndex f < length fs \<and> snd (snd (snd (fs ! FIndex f))) = FType f \<and>
     map_option Typ4_Typ3 (typeToTyp4 (FType f) (FOptions f)) = Some (BinTyp3 f)"

lemma parse_fields_at:
  "parse_fields i fs infos = Some r \<Longrightarrow> all = pre @ fs \<Longrightarrow> i = length pre \<Longrightarrow> (\<forall>f \<in> set infos. field_at all f) \<Longrightarrow>
     \<forall>f \<in> set r. field_at all f"
proof (induction fs arbitrary: i infos pre)
  case (Cons fld fs)
  obtain name tags exported ftype where fld: "fld = (name, tags, exported, ftype)" by (cases fld)
  obtain skip opts where o: "parseFieldOptions fld = (skip, opts)" by fastforce
  have IH: "parse_fields (i + 1) fs infos' = Some r \<Longrightarrow> (\<forall>f \<in> set infos'. field_at all f) \<Longrightarrow> \<forall>f \<in> set r. field_at all f" for infos'
    using Cons.IH [of "i + 1" infos' "pre @ [fld]"] Cons.prems(2, 3) by simp
  show ?case
  proof (cases "\<not> exported \<or> skip")
    case True
    with Cons.prems(1) o have "parse_fields (i + 1) fs infos = Some r" by (auto simp: fld Let_def split: if_splits)
    with IH Cons.prems(4) show ?thesis by blast
  next
    case False
    let ?opts = "opts\<lparr>BinFieldNum := of_nat (length infos + 1)\<rparr>"
    from False o Cons.prems(1) obtain t4 where t4: "typeToTyp4 ftype ?opts = Some t4"
      by (auto simp: fld Let_def split: option.splits)
    let ?f = "\<lparr>FName = name, FType = ftype, FIndex = i, FOptions = ?opts, BinTyp3 = Typ4_Typ3 t4\<rparr>"
    have u: "parse_fields (i + 1) fs (infos @ [?f]) = Some r"
      using False o t4 Cons.prems(1) by (auto simp: fld Let_def split: if_splits)
    have "field_at all ?f" using Cons.prems(2, 3) t4 by (simp add: field_at_def nth_append fld)
    with IH [OF u] Cons.prems(4) show ?thesis by auto
  qed
qed simp

lemma parse_fields_all: "parse_fields 0 fs [] = Some r \<Longrightarrow> f \<in> set r \<Longrightarrow> field_at fs f"
  using parse_fields_at [of 0 fs "[]" r fs "[]"] by simp

section \<open>Types that cannot make the decoder panic\<close>

definition registered :: "codec \<Rightarrow> aty \<Rightarrow> bool" where
  "registered cdc t \<longleftrightarrow> (case typeInfos cdc (deref_ty t) of None \<Rightarrow> False | Some c \<Rightarrow> Registered c)"

fun safe :: "codec \<Rightarrow> aty \<Rightarrow> bool" where
  "safe cdc (ASlice t) = (t = AUint8 \<or> \<not> is_byte t \<and> safe cdc t \<and> \<not> registered cdc t)"
| "safe cdc (AArray n t) = (t = AUint8 \<or> \<not> is_byte t \<and> safe cdc t \<and> \<not> registered cdc t)"
| "safe cdc (APtr t) = (safe cdc t \<and> \<not> is_iface (deref_ty t))"
| "safe cdc (ANamed s t) = safe cdc t"
| "safe cdc (AStruct fs) = (parse_fields 0 fs [] \<noteq> None \<and> (\<forall>b \<in> set (map (\<lambda>(name, tags, exported, t). safe cdc t) fs). b) \<and>
     (\<forall>(name, tags, exported, t) \<in> set fs. \<not> registered cdc t))"
| "safe cdc AMap = False"
| "safe cdc AOther = False"
| "safe cdc _ = True"

definition set_type :: "concrete_info \<Rightarrow> aty" where
  "set_type c = (if PointerPreferred c then APtr (c_Type c) else c_Type c)"

definition codec_safe :: "implements \<Rightarrow> codec \<Rightarrow> bool" where
  "codec_safe impl cdc \<longleftrightarrow>
     (\<forall>c \<in> set (concreteInfos cdc). safe cdc (c_Type c) \<and> (\<forall>it \<in> dom (ifaceInfos cdc). impl (set_type c) it))"

lemma safe_under: "safe cdc t \<longleftrightarrow> safe cdc (under t)"
  by (induction t rule: under.induct) simp_all

lemma safe_deref: "safe cdc t \<Longrightarrow> safe cdc (deref_ty t)"
  by (induction t rule: deref_ty.induct) auto

lemma under_is_ptr: "is_ptr t \<longleftrightarrow> (\<exists>e. under t = APtr e)"
  by (auto simp: is_ptr_def split: aty.splits)

lemma safe_ptr: "safe cdc t \<Longrightarrow> is_ptr t \<Longrightarrow> \<not> is_iface (deref_ty t)"
proof (induction t rule: deref_ty.induct)
  case (2 s t)
  then show ?case by (auto simp: is_ptr_def)
qed (auto simp: is_ptr_def)

lemma safe_field_ty: "safe cdc (AStruct fs) \<Longrightarrow> i < length fs \<Longrightarrow> safe cdc (snd (snd (snd (fs ! i)))) \<and> \<not> registered cdc (snd (snd (snd (fs ! i))))"
  by (fastforce dest: nth_mem)

lemma typeToTyp4_safe: "safe cdc t \<Longrightarrow> typeToTyp4 t opts \<noteq> None"
proof -
  assume "safe cdc t"
  then have "safe cdc (under (deref_ty t))" using safe_deref safe_under by blast
  moreover have "\<not> is_ptr (deref_ty t)" by simp
  ultimately show ?thesis
    by (cases "under (deref_ty t)") (auto simp: typeToTyp4_def typeToTyp3_def is_ptr_def)
qed

lemma typeToTyp3_safe: "safe cdc t \<Longrightarrow> \<not> is_ptr t \<Longrightarrow> typeToTyp3 t opts \<noteq> None"
  using typeToTyp4_safe [of cdc t opts] by (simp add: typeToTyp4_def deref_ty_id)

lemma typeInfo_safe: "safe cdc t \<Longrightarrow> typeInfo cdc t \<noteq> None"
proof -
  assume "safe cdc t"
  then have s: "safe cdc (under (deref_ty t))" using safe_deref safe_under by blast
  show ?thesis
  proof (cases "is_iface (deref_ty t)")
    case True
    then show ?thesis by (auto simp: getTypeInfo_wlock_def Let_def split: option.splits)
  next
    case False
    with s have "newTypeInfoUnregistered (deref_ty t) \<noteq> None"
      by (auto simp: newTypeInfoUnregistered_def parseStructInfo_def is_struct_def split: aty.splits)
    then obtain i where i: "newTypeInfoUnregistered (deref_ty t) = Some i" by auto
    from newTypeInfoUnregistered_sel [OF i] i False show ?thesis
      by (auto simp: getTypeInfo_wlock_def setTypeInfo_nolock_def Let_def split: option.splits)
  qed
qed

section \<open>Sizes\<close>

lemma size_under: "size (under t) \<le> size t"
  by (induction t rule: under.induct) auto

lemma size_deref: "size (deref_ty t) \<le> size t"
  by (induction t rule: deref_ty.induct) auto

lemma size_elem: "under t = ASlice e \<or> under t = AArray n e \<Longrightarrow> size e < size t"
  using size_under [of t] by auto

lemma size_field: "i < length fs \<Longrightarrow> size (snd (snd (snd (fs ! i)))) < size (AStruct fs)"
proof (induction fs arbitrary: i)
  case (Cons f fs)
  show ?case
  proof (cases i)
    case 0
    then show ?thesis by (cases f) simp
  next
    case (Suc j)
    with Cons have "size (snd (snd (snd (fs ! j)))) < size (AStruct fs)" by simp
    with Suc show ?thesis by (cases f) simp
  qed
qed simp

section \<open>The decoders\<close>

abbreviation weight :: "codec \<Rightarrow> bytes \<Rightarrow> aty \<Rightarrow> nat" where
  "weight cdc bz t \<equiv> length bz * Suc (max_size cdc) + size t"

definition rec_good :: "bool \<Rightarrow> implements \<Rightarrow> codec \<Rightarrow> nat \<Rightarrow> bin_decoder \<Rightarrow> bool" where
  "rec_good c impl cdc B rec \<longleftrightarrow> (\<forall>bz info t rv opts. weight cdc bz t < B \<longrightarrow> typeInfo cdc t = Some (Inr info) \<longrightarrow>
     has_ty impl t rv \<longrightarrow> (c \<longrightarrow> safe cdc t) \<longrightarrow> run_ok c (has_ty impl t) (length bz) (rec bz info t rv opts))"

lemma rec_goodD:
  "rec_good c impl cdc B rec \<Longrightarrow> weight cdc bz t < B \<Longrightarrow> typeInfo cdc t = Some (Inr info) \<Longrightarrow> has_ty impl t rv \<Longrightarrow>
   (c \<Longrightarrow> safe cdc t) \<Longrightarrow> run_ok c (has_ty impl t) (length bz) (rec bz info t rv opts)"
  by (simp add: rec_good_def)

lemma good_decodeReflectBinary:
  assumes inv: "codec_inv impl cdc" and rec: "rec_good c impl cdc B rec" and w: "weight cdc bz t < B"
    and info: "typeInfo cdc t = Some (Inr info)" and ty: "has_ty impl t rv" and c: "c \<Longrightarrow> safe cdc t \<and> \<not> registered cdc t"
  shows "run_ok c (has_ty impl t) (length bz) (decodeReflectBinary rec bz info t rv opts)"
proof (cases "is_iface (info_type info) \<and> is_ptr t")
  case True
  then have "is_iface (deref_ty t)"
    using typeInfo_IInfo [OF inv] typeInfo_CInfo [OF inv] info by (cases info) auto
  with True c safe_ptr show ?thesis by (auto simp: decodeReflectBinary_def)
next
  case False
  have call: "run_ok c (has_ty impl t) (length bz) (dstep (rec (drop k bz) info t rv opts) (drop k bz) k (\<lambda>v bz n err. Ret (v, n, err)))"
    if "k \<le> length bz" for k
  proof (rule good_dstep)
    have "length (drop k bz) * Suc (max_size cdc) \<le> length bz * Suc (max_size cdc)" by (rule mult_le_mono1) simp
    with w have "weight cdc (drop k bz) t < B" by linarith
    with c show "run_ok c (has_ty impl t) (length (drop k bz)) (rec (drop k bz) info t rv opts)"
      by (intro rec_goodD [OF rec _ info ty]) auto
  qed (use that in auto)
  show ?thesis
  proof (cases info)
    case (IInfo ii)
    with False call [of 0] show ?thesis by (auto simp: decodeReflectBinary_def)
  next
    case (CInfo d)
    have "\<not> c" if "Registered d"
      using typeInfo_CInfo(4) [OF inv, of t d] info that c by (auto simp: CInfo registered_def)
    with False call [of 0] call [of 4] ty show ?thesis
      by (auto simp: decodeReflectBinary_def CInfo split: prod.splits option.splits)
  qed
qed

lemma good_elems:
  assumes D: "\<And>bz' t. length bz' \<le> L \<Longrightarrow> P t \<Longrightarrow> run_ok c P (length bz') (D bz' t)" and z: "P z"
  shows "n + length bz = N \<Longrightarrow> length bz \<le> L \<Longrightarrow> (\<forall>t \<in> set ts. P t) \<Longrightarrow>
    run_ok c (\<lambda>vs. length vs = length ts \<and> (\<forall>v \<in> set vs. P v)) N (decode_elems D z ptr ts bz n)"
proof (induction ts arbitrary: bz n)
  case (Cons t ts)
  let ?Q = "\<lambda>vs. length vs = length (t # ts) \<and> (\<forall>v \<in> set vs. P v)"
  let ?more = "\<lambda>v bz n. case decode_elems D z ptr ts bz n of Ret (vs, m, err) \<Rightarrow> Ret (v # vs, m, err) | Crash \<Rightarrow> Crash | NoFuel \<Rightarrow> NoFuel"
  let ?item = "\<lambda>bz n. dstep (D bz t) bz n (\<lambda>v bz n err. if err \<noteq> None then Ret (v # ts, n, err) else ?more v bz n)"
  have more: "run_ok c ?Q N (?more v bz' n')" if "P v" "n' + length bz' = N" "length bz' \<le> L" for v bz' n'
    using Cons.IH [OF that(2, 3)] Cons.prems(3) that(1) by (cases "decode_elems D z ptr ts bz' n'") auto
  have item: "run_ok c ?Q N (?item bz' n')" if n': "n' + length bz' = N" "length bz' \<le> L" for bz' n'
  proof (rule good_dstep)
    show "run_ok c P (length bz') (D bz' t)" using D n'(2) Cons.prems(3) by simp
    show "run_ok c ?Q N (if e \<noteq> None then Ret (v # ts, n'', e) else ?more v bz'' n'')"
      if "P v" "n'' + length bz'' = N" "length bz'' \<le> length bz'" for v bz'' n'' e
      using more [of v n'' bz''] that n'(2) Cons.prems(3) by (cases e) auto
  qed (rule n'(1))
  have "run_ok c ?Q N (dstep_err (Ret (decodeNumNilBytes bz)) bz n (t # ts) (\<lambda>numNil bz n.
      if numNil = 0 then ?item bz n else if numNil = 1 then ?more z bz n else Crash))"
  proof (rule good_dstep_err [where P = "\<lambda>m. m = 0 \<or> m = 1"])
    show "run_ok c (\<lambda>m. m = 0 \<or> m = 1) (length bz) (Ret (decodeNumNilBytes bz))"
      by (auto simp: decodeNumNilBytes_def Suc_le_eq run_ok_def)
  next
    fix x :: u64 and bz' :: bytes and n' assume "x = 0 \<or> x = 1" "n' + length bz' = N" "length bz' \<le> length bz"
    with item more [OF z] Cons.prems(2) show "run_ok c ?Q N (if x = 0 then ?item bz' n' else if x = 1 then ?more z bz' n' else Crash)"
      by auto
  qed (use Cons.prems in auto)
  with item [OF Cons.prems(1, 2)] show ?case
    unfolding decode_elems.simps Let_def by (cases ptr) (simp_all only: if_True if_False)
qed simp

lemma good_term: "P rv \<Longrightarrow> n + length bz = N \<Longrightarrow> run_ok c P N (decode_term rv bz n)"
  unfolding decode_term_def
  by (rule good_dstep_err [where P = "\<lambda>_. True"], rule good_dec [OF typ3.reads_within]) auto

text \<open>The values of a struct with fields \<open>fs\<close>.\<close>

definition vals_ok :: "implements \<Rightarrow> afield list \<Rightarrow> aval list \<Rightarrow> bool" where
  "vals_ok impl fs vs \<longleftrightarrow> length vs = length fs \<and> (\<forall>i < length fs. has_ty impl (snd (snd (snd (fs ! i)))) (vs ! i))"

lemma vals_ok_update:
  "vals_ok impl fs vs \<Longrightarrow> field_at fs f \<Longrightarrow> has_ty impl (FType f) v \<Longrightarrow> vals_ok impl fs (vs[FIndex f := v])"
  by (auto simp: vals_ok_def field_at_def nth_list_update)

lemma good_fields:
  assumes D: "\<And>bz' f info rv opts. length bz' \<le> L \<Longrightarrow> field_at fs f \<Longrightarrow> typeInfo cdc (FType f) = Some (Inr info) \<Longrightarrow>
      has_ty impl (FType f) rv \<Longrightarrow> run_ok c (has_ty impl (FType f)) (length bz') (D bz' info (FType f) rv opts)"
    and ti: "\<And>f. c \<Longrightarrow> field_at fs f \<Longrightarrow> typeInfo cdc (FType f) \<noteq> None"
  shows "\<forall>f \<in> set infos. field_at fs f \<Longrightarrow> vals_ok impl fs vs \<Longrightarrow> n + length bz = N \<Longrightarrow> length bz \<le> L \<Longrightarrow>
    run_ok c (\<lambda>v. \<exists>vs. v = AVStruct vs \<and> vals_ok impl fs vs) N (bin_fields D cdc infos vs bz n)"
proof (induction infos arbitrary: vs bz n)
  case Nil
  then show ?case by (auto intro!: good_term)
next
  case (Cons f infos)
  let ?P = "\<lambda>v. \<exists>vs. v = AVStruct vs \<and> vals_ok impl fs vs"
  have f: "field_at fs f" and more: "\<forall>f \<in> set infos. field_at fs f" using Cons.prems(1) by simp_all
  have i: "FIndex f < length vs" and t: "has_ty impl (FType f) (vs ! FIndex f)"
    using f Cons.prems(2) by (auto simp: field_at_def vals_ok_def)
  obtain t4 where t4: "typeToTyp4 (FType f) (FOptions f) = Some t4" using f by (auto simp: field_at_def)
  show ?case
  proof (cases "typeInfo cdc (FType f)")
    case None
    have "\<not> c" using ti [OF _ f] None by blast
    with None i show ?thesis by simp
  next
    case (Some r)
    show ?thesis
    proof (cases r)
      case (Inl e)
      with Some i Cons.prems show ?thesis by auto
    next
      case (Inr finfo)
      note info = Some [unfolded Inr]
      obtain fieldNum t3 m err where k: "decodeFieldNumberAndTyp3 bz = ((fieldNum, t3), m, err)"
        by (metis prod.collapse)
      have m: "m \<le> length bz" using key.reads_within [OF k] .
      have zero: "run_ok c ?P N (bin_fields D cdc infos (vs[FIndex f := zero_of (FType f)]) bz n)"
        by (rule Cons.IH [OF more _ Cons.prems(3, 4)]) (intro vals_ok_update Cons.prems(2) f has_ty_zero)
      have trm: "run_ok c ?P N (decode_term (AVStruct vs) bz n)"
        by (rule good_term) (use Cons.prems in auto)
      have item: "run_ok c ?P N (dstep (D bz' finfo (FType f) (vs ! FIndex f) (FOptions f)) bz' n' (\<lambda>v bz n err.
          if err \<noteq> None then Ret (AVStruct (vs[FIndex f := v]), n, err) else bin_fields D cdc infos (vs[FIndex f := v]) bz n))"
        if n': "n' + length bz' = N" "length bz' \<le> length bz" for bz' n'
      proof (rule good_dstep)
        show "run_ok c (has_ty impl (FType f)) (length bz') (D bz' finfo (FType f) (vs ! FIndex f) (FOptions f))"
          using D [OF _ f info t] n'(2) Cons.prems(4) by simp
      next
        fix v :: aval and bz'' :: bytes and n'' e
        assume v: "has_ty impl (FType f) v" "n'' + length bz'' = N" "length bz'' \<le> length bz'"
        have u: "vals_ok impl fs (vs[FIndex f := v])" by (rule vals_ok_update [OF Cons.prems(2) f v(1)])
        have "length bz'' \<le> L" using v(3) n'(2) Cons.prems(4) by simp
        from Cons.IH [OF more u v(2) this] u v(2)
        show "run_ok c ?P N (if e \<noteq> None then Ret (AVStruct (vs[FIndex f := v]), n'', e) else bin_fields D cdc infos (vs[FIndex f := v]) bz'' n'')"
          by auto
      qed (rule n'(1))
      have slid: "run_ok c ?P N (dstep_err (Ret ((), m, err)) bz n (AVStruct vs) (\<lambda>_ bz n.
          if BinFieldNum (FOptions f) \<noteq> fieldNum then Ret (AVStruct vs, n, Some ''Expected field number'')
          else case typeToTyp4 (FType f) (FOptions f) of
                 None \<Rightarrow> Crash
               | Some typWanted \<Rightarrow>
                   (if t3 \<noteq> Typ4_Typ3 typWanted then Ret (AVStruct vs, n, Some ''Expected field type'')
                    else dstep (D bz finfo (FType f) (vs ! FIndex f) (FOptions f)) bz n (\<lambda>v bz n err.
                      if err \<noteq> None then Ret (AVStruct (vs[FIndex f := v]), n, err)
                      else bin_fields D cdc infos (vs[FIndex f := v]) bz n))))"
        by (rule good_dstep_err [where P = "\<lambda>_. True"]) (use m Cons.prems item t4 in \<open>auto simp del: not_None_eq intro!: good_if\<close>)
      show ?thesis
        unfolding bin_fields.simps info k prod.case option.case sum.case
        using i zero trm slid by (simp only: not_le [symmetric] if_False good_if split: if_split)
    qed
  qed
qed

lemma slide_step_ok:
  "slide_step z D bz n k = Some (x, m, None) \<Longrightarrow> \<exists>y bz' n'. k y bz' n' = Some (x, m, None)"
  by (auto simp: slide_step_def split: prod.splits option.splits if_splits)

lemma DecodeTime_ok: "DecodeTime bz = Some (t, n, None) \<Longrightarrow> time_ok t"
  unfolding DecodeTime_def
  by (auto dest!: slide_step_ok split: if_splits simp: time_ok_def word_sless_alt not_less)

lemma good_ok:
  assumes "r = None \<Longrightarrow> \<not> c" "within N r" "P rv" "\<And>x n. r = Some (x, n, None) \<Longrightarrow> P (mk x)" "N = length bz"
  shows "run_ok c P N (dstep_err (of_opt r) bz 0 rv (\<lambda>x bz n. Ret (mk x, n, None)))"
  using assms by (cases r) (auto simp: dstep_err_def dstep_def of_opt_def within_def slide_def)

lemma good_Typ4AndCheck:
  assumes "c \<Longrightarrow> safe cdc t"
  shows "run_ok c (\<lambda>_. True) (length bz) (of_opt (decodeTyp4AndCheck t bz opts))"
proof -
  obtain x n e where d: "decodeTyp4 bz = (x, n, e)" by (metis prod.collapse)
  have "n \<le> length bz" using typ4.reads_within [OF d] .
  then show ?thesis
    using assms typeToTyp4_safe [of cdc t opts] d
    by (auto simp: decodeTyp4AndCheck_def of_opt_def split: option.splits)
qed

lemma good_byte_array:
  assumes "under t = AArray len e" "is_byte e" "has_ty impl t rv" "c \<Longrightarrow> safe cdc t"
  shows "run_ok c (has_ty impl t) (length bz) (decodeReflectBinaryByteArray bz len e rv)"
proof -
  have "e = AUint8" if c using assms(2, 4) that safe_under [of cdc t] by (simp add: assms(1))
  then have "run_ok c (has_ty impl t) (length bz) (dstep_err (of_opt (DecodeByteSlice bz)) bz 0 rv (\<lambda>byteslice bz n.
        if length byteslice \<noteq> len then Ret (rv, n, Some ''Mismatched byte array length'')
        else if e = AUint8 then Ret (AVByteArr byteslice, n, None) else Crash))"
    by (intro good_dstep_err [where P = "\<lambda>_. True", OF good_within [OF DecodeByteSlice_within]])
      (use assms in \<open>auto simp: has_ty_array\<close>)
  with assms(3) show ?thesis by (auto simp: decodeReflectBinaryByteArray_def)
qed

lemma good_byte_slice:
  assumes "under t = ASlice e" "is_byte e" "has_ty impl t rv" "c \<Longrightarrow> safe cdc t"
  shows "run_ok c (has_ty impl t) (length bz) (decodeReflectBinaryByteSlice bz e rv)"
proof -
  have "e = AUint8" if c using assms(2, 4) that safe_under [of cdc t] by (simp add: assms(1))
  then show ?thesis
    unfolding decodeReflectBinaryByteSlice_def
    by (intro good_dstep_err [where P = "\<lambda>_. True", OF good_within [OF DecodeByteSlice_within]])
      (use assms in \<open>auto simp: has_ty_slice\<close>)
qed

text \<open>An element or a field: a smaller type, on no more bytes.\<close>

lemma weight_less: "length bz' \<le> length bz \<Longrightarrow> size e < size t \<Longrightarrow> weight cdc bz t < Suc B \<Longrightarrow> weight cdc bz' e < B"
  using mult_le_mono1 [of "length bz'" "length bz" "Suc (max_size cdc)"] by linarith

lemma good_part:
  assumes "codec_inv impl cdc" "rec_good c impl cdc B rec" "weight cdc bz t < Suc B" "size e < size t" "length bz' \<le> length bz"
    "typeInfo cdc e = Some (Inr info)" "has_ty impl e rv" "c \<Longrightarrow> safe cdc e \<and> \<not> registered cdc e"
  shows "run_ok c (has_ty impl e) (length bz') (decodeReflectBinary rec bz' info e rv opts)"
  by (rule good_decodeReflectBinary [OF assms(1, 2) weight_less [OF assms(5, 4, 3)] assms(6-8)])

lemma good_array:
  assumes "codec_inv impl cdc" "rec_good c impl cdc B rec" "weight cdc bz t < Suc B" "under t = AArray len e" "\<not> is_byte e"
    "has_ty impl t rv" "c \<Longrightarrow> safe cdc t"
  shows "run_ok c (has_ty impl t) (length bz) (decodeReflectBinaryArray (decodeReflectBinary rec) cdc bz len e rv opts)"
proof -
  have c: "safe cdc e \<and> \<not> registered cdc e" if c using assms(5, 7) that safe_under [of cdc t] by (auto simp: assms(4) is_byte_def)
  obtain ts where ts: "rv = AVArray ts" "length ts = len" "\<forall>x \<in> set ts. has_ty impl e x"
    using assms(5, 6) by (auto simp: has_ty_array [OF assms(4)])
  have e: "run_ok c (has_ty impl t) (length bz) (case decode_elems (\<lambda>bz t. decodeReflectBinary rec bz einfo e t opts) (zero_of e) ptr ts bz' n of
      Ret (vs, n, err) \<Rightarrow> Ret (AVArray vs, n, err) | Crash \<Rightarrow> Crash | NoFuel \<Rightarrow> NoFuel)"
    if "typeInfo cdc e = Some (Inr einfo)" "n + length bz' = length bz" for einfo ptr bz' n
  proof -
    have "run_ok c (\<lambda>vs. length vs = length ts \<and> (\<forall>v \<in> set vs. has_ty impl e v)) (length bz)
        (decode_elems (\<lambda>bz t. decodeReflectBinary rec bz einfo e t opts) (zero_of e) ptr ts bz' n)"
      by (rule good_elems [where L = "length bz"])
        (use assms that c ts size_elem has_ty_zero in \<open>auto intro!: good_part\<close>)
    then show ?thesis
      using ts(2) assms(5) by (auto simp: run_ok_def has_ty_array [OF assms(4)] split: run.splits)
  qed
  have "typeInfo cdc e \<noteq> None" if c using typeInfo_safe c that by blast
  then show ?thesis
    unfolding decodeReflectBinaryArray_def
    using assms(5, 6) ts e
    by (auto split: option.splits sum.splits intro!: good_dstep_err [where P = "\<lambda>_. True"] good_Typ4AndCheck
        good_dec [OF DecodeUvarint_within] dest: c simp del: run_ok_def)
qed

lemma good_slice:
  assumes "codec_inv impl cdc" "rec_good c impl cdc B rec" "weight cdc bz t < Suc B" "under t = ASlice e" "\<not> is_byte e"
    "has_ty impl t rv" "c \<Longrightarrow> safe cdc t"
  shows "run_ok c (has_ty impl t) (length bz) (decodeReflectBinarySlice (decodeReflectBinary rec) cdc bz e rv opts)"
proof -
  have c: "safe cdc e \<and> \<not> registered cdc e" if c using assms(5, 7) that safe_under [of cdc t] by (auto simp: assms(4) is_byte_def)
  have e: "run_ok c (has_ty impl t) (length bz)
      (case decode_elems (\<lambda>bz t. decodeReflectBinary rec bz einfo e t opts) (zero_of e) ptr (replicate k (zero_of e)) bz' n of
         Ret (vs, n, None) \<Rightarrow> Ret (AVSlice vs, n, None) | Ret (vs, n, Some err) \<Rightarrow> Ret (rv, n, Some err) | Crash \<Rightarrow> Crash | NoFuel \<Rightarrow> NoFuel)"
    if "typeInfo cdc e = Some (Inr einfo)" "n + length bz' = length bz" for einfo ptr bz' n k
  proof -
    have "run_ok c (\<lambda>vs. length vs = length (replicate k (zero_of e)) \<and> (\<forall>v \<in> set vs. has_ty impl e v)) (length bz)
        (decode_elems (\<lambda>bz t. decodeReflectBinary rec bz einfo e t opts) (zero_of e) ptr (replicate k (zero_of e)) bz' n)"
      by (rule good_elems [where L = "length bz"])
        (use assms that c size_elem has_ty_zero in \<open>auto intro!: good_part\<close>)
    then show ?thesis
      using assms(5, 6) by (auto simp: run_ok_def has_ty_slice [OF assms(4)] split: run.splits option.splits)
  qed
  have "typeInfo cdc e \<noteq> None" if c using typeInfo_safe c that by blast
  moreover have "has_ty impl t (AVSlice [])" using assms(5) by (simp add: has_ty_slice [OF assms(4)])
  ultimately show ?thesis
    unfolding decodeReflectBinarySlice_def
    using assms(5, 6) e
    by (auto split: option.splits sum.splits intro!: good_dstep_err [where P = "\<lambda>_. True"] good_Typ4AndCheck
        good_dec [OF DecodeUvarint_within] dest: c simp del: run_ok_def)
qed

lemma good_time:
  assumes "under t = ATime" "c_Type d = t" "has_ty impl t rv" "Fields d = []"
  shows "run_ok c (has_ty impl t) (length bz) (decodeReflectBinaryStruct D cdc bz d rv)"
proof -
  have "run_ok c (has_ty impl t) (length bz) (dstep_err (of_opt (DecodeTime bz)) bz 0 rv (\<lambda>t bz n. Ret (AVTime t, n, None)))"
    by (rule good_ok [OF _ DecodeTime_within])
      (use assms DecodeTime_within [of bz] DecodeTime_ok in \<open>auto simp: has_ty_time within_def\<close>)
  moreover obtain x where "rv = AVTime x" using assms(1, 3) by (auto simp: has_ty_time)
  ultimately show ?thesis
    using good_term [of "has_ty impl t" rv 0 bz "length bz" c] assms(2, 3, 4) by (auto simp: decodeReflectBinaryStruct_def)
qed

lemma good_struct:
  assumes "codec_inv impl cdc" "rec_good c impl cdc B rec" "weight cdc bz t < Suc B" "under t = AStruct fs"
    "has_ty impl t rv" "c \<Longrightarrow> safe cdc t" "c_Type d = t" "\<forall>f \<in> set (Fields d). field_at fs f"
  shows "run_ok c (has_ty impl t) (length bz) (decodeReflectBinaryStruct (decodeReflectBinary rec) cdc bz d rv)"
proof -
  obtain vs where vs: "rv = AVStruct vs" "vals_ok impl fs vs"
    using assms(5) by (auto simp: has_ty_struct [OF assms(4)] vals_ok_def)
  have p: "size (FType f) < size t" "c \<Longrightarrow> safe cdc (FType f) \<and> \<not> registered cdc (FType f)" if f: "field_at fs f" for f
  proof -
    have "size (AStruct fs) \<le> size t" using size_under [of t] by (simp add: assms(4))
    then show "size (FType f) < size t" using size_field [of "FIndex f" fs] f by (auto simp: field_at_def)
    show "safe cdc (FType f) \<and> \<not> registered cdc (FType f)" if c
      using safe_field_ty [of cdc fs "FIndex f"] assms(6) [OF that] f safe_under [of cdc t] by (auto simp: assms(4) field_at_def)
  qed
  have "run_ok c (\<lambda>v. \<exists>vs. v = AVStruct vs \<and> vals_ok impl fs vs) (length bz)
      (bin_fields (decodeReflectBinary rec) cdc (Fields d) vs bz 0)"
  proof (rule good_fields [where L = "length bz"])
    show "c \<Longrightarrow> field_at fs f \<Longrightarrow> typeInfo cdc (FType f) \<noteq> None" for f using p(2) typeInfo_safe by blast
  qed (use assms(8) vs(2) p in \<open>auto intro!: good_part [OF assms(1-3)]\<close>)
  then have "run_ok c (has_ty impl t) (length bz) (bin_fields (decodeReflectBinary rec) cdc (Fields d) vs bz 0)"
    by (rule good_mono) (auto simp: has_ty_struct [OF assms(4)] vals_ok_def)
  moreover have "t \<noteq> ATime" using assms(4) by auto
  ultimately show ?thesis using assms(7) vs(1) by (simp add: decodeReflectBinaryStruct_def)
qed

lemma good_through_ptrs:
  assumes "\<And>u. has_ty impl (deref_ty t) u \<Longrightarrow> run_ok c (has_ty impl (deref_ty t)) N (f u)"
  shows "has_ty impl t rv \<Longrightarrow> run_ok c (has_ty impl t) N (through_ptrs t rv f)"
  using assms
proof (induction t arbitrary: rv)
  case (APtr t)
  have p: "under (APtr t) = APtr t" by simp
  obtain q where q: "rv = AVPtr q" "\<And>u. q = Some u \<Longrightarrow> has_ty impl t u" using APtr.prems(1) by (auto simp: has_ty_ptr [OF p])
  have "has_ty impl t (case q of None \<Rightarrow> zero_of t | Some u \<Rightarrow> u)"
    using q(2) has_ty_zero by (cases q) auto
  from APtr.IH [OF this] APtr.prems(2) show ?case
    by (auto simp: q(1) run_ok_def has_ty_ptr [OF p] split: run.splits)
next
  case (ANamed s t)
  show ?case
  proof (cases "is_ptr t")
    case True
    then obtain e where e: "under t = APtr e" "under (ANamed s t) = APtr e" by (auto simp: under_is_ptr)
    have "has_ty impl (ANamed s t) v = has_ty impl t v" for v by (simp add: has_ty_ptr [OF e(1)] has_ty_ptr [OF e(2)])
    with ANamed True show ?thesis by auto
  next
    case False
    with ANamed show ?thesis by auto
  qed
qed auto

lemma DecodeDisambPrefixBytes_reads:
  "DecodeDisambPrefixBytes bz = (dp, n, e) \<Longrightarrow> n \<le> length bz \<and> (e = None \<longrightarrow> \<not> dp_isNil dp \<longrightarrow> 4 \<le> n)"
  by (auto simp: DecodeDisambPrefixBytes_def split: if_splits prod.splits)

lemma size_max_size: "d \<in> set (concreteInfos cdc) \<Longrightarrow> size (c_Type d) \<le> max_size cdc"
  unfolding max_size_def by (rule Max_ge) auto

lemma implementer_lookup:
  assumes "codec_inv impl cdc" "ifaceInfos cdc it = Some ii"
    "(if hasDb then Some (getTypeInfoFromDisfix_rlock cdc df) else if hasPb then getTypeInfoFromPrefix_rlock ii pb
      else Some (Inl msg)) = r"
  shows "r \<noteq> None" "r = Some (Inr d) \<Longrightarrow> d \<in> set (concreteInfos cdc)"
proof -
  have io: "iface_ok impl cdc it ii" and df: "\<And>df c. disfixToTypeInfo cdc df = Some c \<Longrightarrow> c \<in> set (concreteInfos cdc)"
    using assms(1, 2) by (simp_all add: codec_inv_def)
  show "r \<noteq> None"
    using assms(3) by (auto simp: getTypeInfoFromPrefix_rlock_def impls_lookup [OF io] split: if_splits)
  show "d \<in> set (concreteInfos cdc)" if "r = Some (Inr d)"
  proof (cases hasDb)
    case True
    with that assms(3) df show ?thesis by (auto simp: getTypeInfoFromDisfix_rlock_def split: option.splits)
  next
    case False
    with that assms(3) have "d = implementers_of impl cdc it pb ! 0" "implementers_of impl cdc it pb \<noteq> []"
      by (auto simp: getTypeInfoFromPrefix_rlock_def impls_lookup [OF io] split: if_splits)
    then have "d \<in> set (implementers_of impl cdc it pb)" by (metis length_greater_0_conv nth_mem)
    then show ?thesis by (simp add: implementers_of_def)
  qed
qed

lemma typeInfo_registered:
  assumes "codec_inv impl cdc" "d \<in> set (concreteInfos cdc)"
  shows "typeInfo cdc (c_Type d) = Some (Inr (CInfo d))" "\<not> is_ptr (c_Type d)"
proof -
  have "typeInfos cdc (c_Type d) = Some d" using assms by (simp add: codec_inv_def concrete_ok_def)
  moreover from this have "type_ok cdc (c_Type d) d" using assms(1) by (simp add: codec_inv_def)
  ultimately show "typeInfo cdc (c_Type d) = Some (Inr (CInfo d))" "\<not> is_ptr (c_Type d)"
    by (simp_all add: type_ok_def getTypeInfo_wlock_def deref_ty_id)
qed

lemma weight_implementer:
  assumes "weight cdc bz t < Suc B" "length bz' < length bz" "d \<in> set (concreteInfos cdc)"
  shows "weight cdc bz' (c_Type d) < B"
proof -
  have "Suc (length bz') * Suc (max_size cdc) \<le> length bz * Suc (max_size cdc)" using assms(2) by (intro mult_le_mono1) simp
  moreover have "size (c_Type d) \<le> max_size cdc" by (rule size_max_size [OF assms(3)])
  ultimately show ?thesis using assms(1) by simp
qed

lemma good_implementer:
  assumes "codec_inv impl cdc" "rec_good c impl cdc B rec" "weight cdc bz t < Suc B" "length bz' < length bz"
    "d \<in> set (concreteInfos cdc)" "c \<Longrightarrow> codec_safe impl cdc"
  shows "run_ok c (has_ty impl (c_Type d)) (length bz') (rec bz' (CInfo d) (c_Type d) (zero_of (c_Type d)) opts)"
proof (rule rec_goodD [OF assms(2) _ typeInfo_registered(1) [OF assms(1, 5)] has_ty_zero])
  show "weight cdc bz' (c_Type d) < B" by (rule weight_implementer [OF assms(3, 4, 5)])
  show "safe cdc (c_Type d)" if c using assms(5, 6) that by (auto simp: codec_safe_def)
qed

lemma has_ty_iface: "is_iface t \<Longrightarrow> has_ty impl t v \<longleftrightarrow>
    v = AVIface None \<or> (\<exists>dt u. v = AVIface (Some (dt, u)) \<and> impl dt t \<and> has_ty impl dt u)"
  by (subst has_ty.simps) (auto simp: is_iface_def basic_ty_def split: aty.splits)

lemma constructConcreteType_ok:
  "has_ty impl (c_Type d) v \<Longrightarrow> constructConcreteType d v = (irt, irv) \<Longrightarrow> irt = set_type d \<and> has_ty impl irt irv"
  by (auto simp: constructConcreteType_def set_type_def split: if_splits intro: has_ty.ptr)

lemma good_interface:
  assumes "codec_inv impl cdc" "rec_good c impl cdc B rec" "weight cdc bz t < Suc B" "ifaceInfos cdc t = Some ii" "is_iface t"
    "i_Type ii = t" "has_ty impl t rv" "c \<Longrightarrow> codec_safe impl cdc"
  shows "run_ok c (has_ty impl t) (length bz) (decodeReflectBinaryInterface rec impl cdc bz ii rv opts)"
proof (cases "rv = AVIface None")
  case True
  obtain dp m e where dp: "DecodeDisambPrefixBytes bz = (dp, m, e)" by (metis prod.collapse)
  have m: "m \<le> length bz" "e = None \<Longrightarrow> \<not> dp_isNil dp \<Longrightarrow> 4 \<le> m" using DecodeDisambPrefixBytes_reads [OF dp] by auto
  define r where "r = (if dp_hasDb dp then Some (getTypeInfoFromDisfix_rlock cdc (toDisfix (dp_db dp) (dp_pb dp)))
                   else if dp_hasPb dp then getTypeInfoFromPrefix_rlock ii (dp_pb dp)
                   else Some (Inl ''Expected disambiguation or prefix bytes.''))"
  note lk = implementer_lookup [OF assms(1, 4) r_def [symmetric]]
  have val: "run_ok c (has_ty impl t) (length bz)
      (dstep (rec (drop m bz) (CInfo d) (c_Type d) (zero_of (c_Type d)) opts) (drop m bz) m (\<lambda>crv bz n err.
         case constructConcreteType d crv of
           (irt, irv) \<Rightarrow> if impl irt (i_Type ii) then Ret (AVIface (Some (irt, irv)), n, err) else Crash))"
    if "r = Some (Inr d)" "4 \<le> m" for d
  proof (rule good_dstep)
    have d: "d \<in> set (concreteInfos cdc)" by (rule lk(2) [OF that(1)])
    show "run_ok c (has_ty impl (c_Type d)) (length (drop m bz)) (rec (drop m bz) (CInfo d) (c_Type d) (zero_of (c_Type d)) opts)"
      by (rule good_implementer [OF assms(1-3) _ d assms(8)]) (use m(1) that(2) in simp)
    have "impl (set_type d) t" if c using assms(4, 8) d that by (auto simp: codec_safe_def)
    then show "run_ok c (has_ty impl t) (length bz) (case constructConcreteType d v of
        (irt, irv) \<Rightarrow> if impl irt (i_Type ii) then Ret (AVIface (Some (irt, irv)), n, err) else Crash)"
      if "has_ty impl (c_Type d) v" "n + length bz' = length bz" for v bz' n err
      using that constructConcreteType_ok [of impl d v] assms(5, 6)
      by (auto simp: has_ty_iface [OF assms(5)] split: prod.splits)
  qed (use m(1) in simp)
  have t3: "checkTyp3 (c_Type d) x opts = None \<Longrightarrow> r = Some (Inr d) \<Longrightarrow> \<not> c" for d x
  proof
    assume that: c "r = Some (Inr d)" "checkTyp3 (c_Type d) x opts = None"
    show False
      using typeToTyp3_safe [of cdc "c_Type d" opts] assms(8) [OF that(1)] lk(2) [OF that(2)] that(3)
        typeInfo_registered(2) [OF assms(1)]
      by (auto simp: checkTyp3_def codec_safe_def)
  qed
  have "has_ty impl t (AVIface None)" using assms(7) by (simp add: True)
  then show ?thesis
    using m lk(1) val t3
    by (auto simp: decodeReflectBinaryInterface_def True dstep_err_def dstep_def [of "Ret (dp, m, e)"] dp slide_def r_def [symmetric]
        split: option.splits sum.splits)
qed (use assms(7) in \<open>simp add: decodeReflectBinaryInterface_def\<close>)

lemma has_ty_simple:
  assumes "case u of AArray _ _ \<Rightarrow> False | ASlice _ \<Rightarrow> False | AStruct _ \<Rightarrow> False | APtr _ \<Rightarrow> False | AInterface _ \<Rightarrow> False | _ \<Rightarrow> True"
    "u = under t"
  shows "has_ty impl t v \<longleftrightarrow> basic_ty u v"
  using assms by (subst has_ty.simps) (auto simp: is_iface_def basic_ty_def split: aty.splits)

lemma good_kind:
  assumes "codec_inv impl cdc" "rec_good c impl cdc B rec" "weight cdc bz t < Suc B" "has_ty impl t rv" "c \<Longrightarrow> safe cdc t"
    "c_Type d = t" "\<not> is_iface t" "map_option Fields (newTypeInfoUnregistered t) = Some (Fields d)" "\<not> is_ptr t"
  shows "run_ok c (has_ty impl t) (length bz) (decode_kind (decodeReflectBinary rec) cdc bz d rv opts)"
proof -
  have fields: "parseStructInfo t = Some (Fields d)" if "is_struct t"
    using that assms(8) by (auto simp: newTypeInfoUnregistered_def split: if_splits)
  have basic: "run_ok c (has_ty impl t) (length bz) (decode_basic (under t) bz rv opts)"
    if "case under t of AArray _ _ \<Rightarrow> False | ASlice _ \<Rightarrow> False | AStruct _ \<Rightarrow> False | ATime \<Rightarrow> False | _ \<Rightarrow> True"
  proof (rule good_basic)
    have u: "has_ty impl t = basic_ty (under t)"
      by (rule ext, rule has_ty_simple) (use that assms(7, 9) in \<open>auto simp: is_iface_def is_ptr_def split: aty.splits\<close>)
    then show "has_ty impl t = basic_ty (under t)" .
    show "c \<longrightarrow> is_basic (under t)"
    proof
      assume c
      then have "safe cdc (under t)" using assms(5) safe_under by blast
      then show "is_basic (under t)"
        using that assms(7, 9) by (cases "under t") (auto simp: is_basic_def is_iface_def is_ptr_def)
    qed
  qed (rule assms(4))
  note lists = good_array [OF assms(1-3) _ _ assms(4, 5)] good_slice [OF assms(1-3) _ _ assms(4, 5)]
    good_byte_array [OF _ _ assms(4, 5)] good_byte_slice [OF _ _ assms(4, 5)]
  show ?thesis
  proof (cases "under t")
    case (AStruct fs)
    have "\<forall>f \<in> set (Fields d). field_at fs f"
      using fields parse_fields_all [of fs] by (auto simp: AStruct is_struct_def parseStructInfo_def)
    with good_struct [OF assms(1-3) AStruct assms(4-6)] show ?thesis by (simp add: decode_kind_def assms(6) AStruct)
  next
    case ATime
    have "Fields d = []" using fields by (simp add: ATime is_struct_def parseStructInfo_def)
    from good_time [OF ATime assms(6, 4) this] show ?thesis by (simp add: decode_kind_def assms(6) ATime)
  qed (use basic lists in \<open>auto simp: decode_kind_def assms(6)\<close>)
qed

lemma rec_good_decode:
  assumes inv: "codec_inv impl cdc" and safe: "c \<Longrightarrow> codec_safe impl cdc"
  shows "rec_good c impl cdc k (u_decodeReflectBinary k impl cdc)"
proof (induction k)
  case 0
  show ?case by (simp add: rec_good_def)
next
  case (Suc k)
  show ?case unfolding rec_good_def
  proof (intro allI impI)
    fix bz info t rv opts
    assume w: "weight cdc bz t < Suc k" and info: "typeInfo cdc t = Some (Inr info)" and ty: "has_ty impl t rv" and c: "c \<longrightarrow> safe cdc t"
    have w': "weight cdc bz (deref_ty t) < Suc k" using w size_deref [of t] by linarith
    have c': "c \<Longrightarrow> safe cdc (deref_ty t)" using c safe_deref by blast
    show "run_ok c (has_ty impl t) (length bz) (u_decodeReflectBinary (Suc k) impl cdc bz info t rv opts)"
    proof (cases info)
      case (IInfo ii)
      note i = typeInfo_IInfo [OF inv info [unfolded IInfo]]
      show ?thesis
      proof (cases "is_ptr t")
        case True
        with i c safe_ptr show ?thesis by (auto simp: IInfo)
      next
        case False
        have "run_ok c (has_ty impl (deref_ty t)) (length bz) (decodeReflectBinaryInterface (u_decodeReflectBinary k impl cdc) impl cdc bz ii u opts)"
          if "has_ty impl (deref_ty t) u" for u
          by (rule good_interface [OF inv Suc.IH w' i(1-3) that safe])
        from good_through_ptrs [OF this ty] False show ?thesis by (simp add: IInfo Let_def)
      qed
    next
      case (CInfo d)
      note i = typeInfo_CInfo [OF inv info [unfolded CInfo]]
      have "run_ok c (has_ty impl (deref_ty t)) (length bz) (decode_kind (decodeReflectBinary (u_decodeReflectBinary k impl cdc)) cdc bz d u opts)"
        if "has_ty impl (deref_ty t) u" for u
        by (rule good_kind [OF inv Suc.IH w' that c' i(1-3)]) simp_all
      from good_through_ptrs [OF this ty] i show ?thesis by (simp add: CInfo Let_def)
    qed
  qed
qed

section \<open>Decoding arbitrary bytes\<close>

lemma good_Unmarshal:
  assumes "codec_inv impl cdc" "has_ty impl rt rv" "c \<Longrightarrow> codec_safe impl cdc" "c \<Longrightarrow> safe cdc rt \<and> \<not> registered cdc rt"
  shows "case UnmarshalBinaryBare impl cdc bz rt rv of Ret (v, e) \<Rightarrow> has_ty impl rt v | Crash \<Rightarrow> \<not> c | NoFuel \<Rightarrow> False"
proof (cases "typeInfo cdc rt")
  case None
  with typeInfo_safe [of cdc rt] assms(2, 4) show ?thesis by (auto simp: UnmarshalBinaryBare_def)
next
  case (Some r)
  show ?thesis
  proof (cases r)
    case (Inl e)
    with Some assms(2) show ?thesis by (auto simp: UnmarshalBinaryBare_def)
  next
    case (Inr info)
    have "weight cdc bz rt < decode_fuel cdc rt bz" by (simp add: decode_fuel_def)
    from good_decodeReflectBinary [OF assms(1) rec_good_decode [OF assms(1, 3)] this Some [unfolded Inr] assms(2, 4)]
    have "run_ok c (has_ty impl rt) (length bz)
      (decodeReflectBinary (u_decodeReflectBinary (decode_fuel cdc rt bz) impl cdc) bz info rt rv no_options)" .
    with Some Inr assms(2) show ?thesis
      by (auto simp: UnmarshalBinaryBare_def run_ok_def split: run.splits option.splits)
  qed
qed

text \<open>C5. Type soundness of decoding, with a codec whose registrations all succeeded. Whatever the bytes,
  \<open>UnmarshalBinaryBare\<close> ends, within the fuel of the model, and unless it panics a target of type \<open>rt\<close> holds a value of type \<open>rt\<close> afterwards, also when an error is returned
  half way through: the values of interfaces have registered types that implement them, arrays keep their
  length, structs their fields, and times have nanoseconds within the second.\<close>

theorem UnmarshalBinaryBare_type:
  assumes "codec_reach impl sha256 cdc" "has_ty impl rt rv"
  shows "case UnmarshalBinaryBare impl cdc bz rt rv of Ret (v, err) \<Rightarrow> has_ty impl rt v | Crash \<Rightarrow> True | NoFuel \<Rightarrow> False"
  using good_Unmarshal [OF codec_reach_inv [OF assms(1)] assms(2), of False bz] by (auto split: run.splits)

text \<open>C7. Decoding does not panic, with a codec whose registrations all succeeded. If no part of the target's type, and of the types registered, is a map,
  a pointer to an interface or a registered concrete type outside an interface, and every registered type
  implements every interface, then \<open>UnmarshalBinaryBare\<close> returns on all bytes, with or without an error.\<close>

theorem UnmarshalBinaryBare_returns:
  assumes "codec_reach impl sha256 cdc" "has_ty impl rt rv" "codec_safe impl cdc" "safe cdc rt" "\<not> registered cdc rt"
  shows "\<exists>v err. UnmarshalBinaryBare impl cdc bz rt rv = Ret (v, err) \<and> has_ty impl rt v"
  using good_Unmarshal [OF codec_reach_inv [OF assms(1)] assms(2), of True bz] assms(3-5)
  by (auto split: run.splits)

subsection \<open>The small codec\<close>

lemma sample_cdc_sel: "typeInfos sample_cdc = [sample_foo \<mapsto> sample_info]"
  "ifaceInfos sample_cdc = [AInterface ''I'' \<mapsto> \<lparr>i_Type = AInterface ''I'', Priority = [], AlwaysDisambiguate = False,
     Implementers = [([4, 5, 6, 8], [sample_info])]\<rparr>]"
  by (simp_all add: sample_cdc_def sample_step)

lemma sample_parse: "parse_fields 0 [(''A'', ('''', '''', ''''), True, AString)] [] = Some [sample_field]"
  by (simp add: parseFieldOptions_def typeToTyp4_def typeToTyp3_def checkUnsafe_def is_ptr_def
      sample_field_def Typ4_Typ3_def Typ3_ByteLength_def no_options_def)

lemma sample_safe: "codec_safe sample_impl sample_cdc" "safe sample_cdc (ASlice (AInterface ''I''))"
  "\<not> registered sample_cdc (ASlice (AInterface ''I''))"
  using sample_parse by (auto simp: codec_safe_def sample_register(2) sample_cdc_sel sample_impl_def sample_info_def sample_foo_def
      registered_def is_byte_def split: if_splits)

lemma sample_slice: "has_ty impl (ASlice (AInterface ''I'')) (AVSlice [])"
  by (rule has_ty.slice) (auto simp: is_byte_def)

theorem UnmarshalBinaryBare_type_witness:
  "case UnmarshalBinaryBare sample_impl sample_cdc [7, 2, 0, 0, 4, 5, 6, 11, 10, 1, 65, 4] (ASlice (AInterface ''I'')) (AVSlice []) of
     Ret (v, err) \<Rightarrow> has_ty sample_impl (ASlice (AInterface ''I'')) v | Crash \<Rightarrow> True | NoFuel \<Rightarrow> False"
  by (rule UnmarshalBinaryBare_type [OF sample_reach sample_slice])

theorem UnmarshalBinaryBare_returns_witness:
  "\<exists>v err. UnmarshalBinaryBare sample_impl sample_cdc [7, 2, 0, 0, 4, 5, 6, 11, 10, 1, 65, 4] (ASlice (AInterface ''I'')) (AVSlice []) =
     Ret (v, err) \<and> has_ty sample_impl (ASlice (AInterface ''I'')) v"
  by (rule UnmarshalBinaryBare_returns [OF sample_reach sample_slice sample_safe])

end
