(* ===== verification/AminoRoundtrip.thy ===== *)
theory AminoRoundtrip
  imports AminoSafe
begin

text \<open>
  The binary codec of go-amino reads back what it writes. \<open>surv\<close> says which values survive: those of
  supported types in which a pointer inside a struct or a list never points to an empty value, fields that
  are not encoded are zero, and the values of interfaces have the form the decoder makes. Field order,
  omitted fields, nil elements, prefix and disambiguation bytes are all part of the proof.
\<close>

section \<open>Values that survive\<close>

definition is_void :: "aval \<Rightarrow> bool" where
  "is_void v = snd (isVoid v)"

definition basic_ok :: "FieldOptions \<Rightarrow> aty \<Rightarrow> aval \<Rightarrow> bool" where
  "basic_ok opts t v \<longleftrightarrow> is_basic t \<and> basic_ty t v \<and> (t \<in> {AFloat32, AFloat64} \<longrightarrow> Unsafe opts) \<and>
     (case v of AVString s \<Rightarrow> length s < 2 ^ 63 | _ \<Rightarrow> True)"

inductive surv :: "implements \<Rightarrow> codec \<Rightarrow> FieldOptions \<Rightarrow> aty \<Rightarrow> aval \<Rightarrow> bool" for impl cdc where
  basic: "basic_ok opts (under t) v \<Longrightarrow> surv impl cdc opts t v"
| time: "time_ok x \<Longrightarrow> surv impl cdc opts ATime (AVTime x)"
| byte_slice: "under t = ASlice AUint8 \<Longrightarrow> length bs < 2 ^ 63 \<Longrightarrow> surv impl cdc opts t (AVBytes bs)"
| byte_array: "under t = AArray n AUint8 \<Longrightarrow> length bs = n \<Longrightarrow> n < 2 ^ 63 \<Longrightarrow> surv impl cdc opts t (AVByteArr bs)"
| ptr: "under t = APtr e \<Longrightarrow> \<not> is_iface (deref_ty e) \<Longrightarrow> surv impl cdc opts e v \<Longrightarrow> surv impl cdc opts t (AVPtr (Some v))"
| slice: "under t = ASlice e \<Longrightarrow> \<not> is_byte e \<Longrightarrow> length vs < 2 ^ 63 \<Longrightarrow> typeInfo cdc e = Some (Inr einfo) \<Longrightarrow>
    typeToTyp4 e opts \<noteq> None \<Longrightarrow>
    \<forall>v \<in> set vs. (is_ptr e \<and> is_void v \<and> v = zero_of e) \<or> (\<not> (is_ptr e \<and> is_void v) \<and> surv impl cdc opts e v) \<Longrightarrow>
    surv impl cdc opts t (AVSlice vs)"
| array: "under t = AArray n e \<Longrightarrow> \<not> is_byte e \<Longrightarrow> length vs = n \<Longrightarrow> n < 2 ^ 63 \<Longrightarrow> typeInfo cdc e = Some (Inr einfo) \<Longrightarrow>
    typeToTyp4 e opts \<noteq> None \<Longrightarrow>
    \<forall>v \<in> set vs. (is_ptr e \<and> is_void v \<and> v = zero_of e) \<or> (\<not> (is_ptr e \<and> is_void v) \<and> surv impl cdc opts e v) \<Longrightarrow>
    surv impl cdc opts t (AVArray vs)"
| struct: "under t = AStruct fs \<Longrightarrow> parse_fields 0 fs [] = Some infos \<Longrightarrow> length fs < 2 ^ 29 \<Longrightarrow> length vs = length fs \<Longrightarrow>
    \<forall>i < length fs. i \<notin> FIndex ` set infos \<longrightarrow> vs ! i = zero_of (snd (snd (snd (fs ! i)))) \<Longrightarrow>
    \<forall>f \<in> set infos. \<exists>finfo. typeInfo cdc (FType f) = Some (Inr finfo) \<Longrightarrow>
    \<forall>f \<in> set infos. (is_void (vs ! FIndex f) \<and> vs ! FIndex f = zero_of (FType f)) \<or>
      (\<not> is_void (vs ! FIndex f) \<and> surv impl cdc (FOptions f) (FType f) (vs ! FIndex f)) \<Longrightarrow>
    surv impl cdc opts t (AVStruct vs)"
| nil_iface: "is_iface t \<Longrightarrow> surv impl cdc opts t (AVIface None)"
| iface: "is_iface t \<Longrightarrow> d \<in> set (concreteInfos cdc) \<Longrightarrow> impl (APtr (c_Type d)) t \<Longrightarrow> constructConcreteType d crv = (dt, dv) \<Longrightarrow>
    impl dt t \<Longrightarrow> typeToTyp3 (c_Type d) opts \<noteq> None \<Longrightarrow> surv impl cdc opts (c_Type d) crv \<Longrightarrow>
    surv impl cdc opts t (AVIface (Some (dt, dv)))"

text \<open>\<open>bz\<close> carries the value \<open>v\<close> of type \<open>t\<close>: it is what the encoder writes and what the decoder reads,
  before (\<open>pre\<close>) or after the prefix bytes.\<close>

definition enc_at :: "bool \<Rightarrow> codec \<Rightarrow> nat \<Rightarrow> bytes encoder" where
  "enc_at pre cdc k = (if pre then encodeReflectBinary (u_encodeReflectBinary k cdc buffer) buffer else u_encodeReflectBinary k cdc buffer)"

definition dec_at :: "bool \<Rightarrow> implements \<Rightarrow> codec \<Rightarrow> nat \<Rightarrow> bin_decoder" where
  "dec_at pre impl cdc k = (if pre then decodeReflectBinary (u_decodeReflectBinary k impl cdc) else u_decodeReflectBinary k impl cdc)"

definition carries :: "bool \<Rightarrow> implements \<Rightarrow> codec \<Rightarrow> FieldOptions \<Rightarrow> aty \<Rightarrow> aval \<Rightarrow> bytes \<Rightarrow> bool" where
  "carries pre impl cdc opts t v bz \<longleftrightarrow> bz \<noteq> [] \<and>
     (\<exists>u p. derefPointers v = (Some u, p, False) \<and>
        (\<forall>info. typeInfo cdc t = Some (Inr info) \<longrightarrow>
          (\<forall>k ca w. size u < k \<longrightarrow> enc_at pre cdc k info ca u opts w = Ret (None, w @ bz)) \<and>
          (\<forall>k rest. weight cdc (bz @ rest) t < k \<longrightarrow>
             dec_at pre impl cdc k (bz @ rest) info t (zero_of t) opts = Ret (v, length bz, None))))"

lemma carriesD:
  assumes "carries pre impl cdc opts t v bz" "typeInfo cdc t = Some (Inr info)"
  obtains u p where "bz \<noteq> []" "derefPointers v = (Some u, p, False)"
    "\<And>k ca w. size u < k \<Longrightarrow> enc_at pre cdc k info ca u opts w = Ret (None, w @ bz)"
    "\<And>k rest. weight cdc (bz @ rest) t < k \<Longrightarrow> dec_at pre impl cdc k (bz @ rest) info t (zero_of t) opts = Ret (v, length bz, None)"
  using assms unfolding carries_def by blast

text \<open>A value that is not a pointer, of a type that is not one.\<close>

lemma carriesI:
  assumes "bz \<noteq> []" "derefPointers v = (Some v, False, False)" "\<not> is_ptr t"
    "\<And>info k ca w. typeInfo cdc t = Some (Inr info) \<Longrightarrow> size v < Suc k \<Longrightarrow>
      u_encodeReflectBinary (Suc k) cdc buffer info ca v opts w = Ret (None, w @ bz)"
    "\<And>info k rest. typeInfo cdc t = Some (Inr info) \<Longrightarrow> weight cdc (bz @ rest) t < Suc k \<Longrightarrow>
      u_decodeReflectBinary (Suc k) impl cdc (bz @ rest) info t (zero_of t) opts = Ret (v, length bz, None)"
  shows "carries False impl cdc opts t v bz"
proof -
  have e: "enc_at False cdc k info ca v opts w = Ret (None, w @ bz)"
    if "typeInfo cdc t = Some (Inr info)" "size v < k" for info k ca w
    using assms(4) [of info "k - 1"] that by (cases k) (simp_all add: enc_at_def)
  have d: "dec_at False impl cdc k (bz @ rest) info t (zero_of t) opts = Ret (v, length bz, None)"
    if "typeInfo cdc t = Some (Inr info)" "weight cdc (bz @ rest) t < k" for info k rest
    using assms(5) [of info rest "k - 1"] that by (cases k) (simp_all add: dec_at_def)
  show ?thesis unfolding carries_def using assms(1, 2) e d by blast
qed

lemma through_ptrs_id: "\<not> is_ptr t \<Longrightarrow> through_ptrs t v f = f v"
  by (cases t) (auto simp: is_ptr_def)

lemma derefPointers_id: "(\<And>p. v \<noteq> AVPtr p) \<Longrightarrow> derefPointers v = (Some v, False, False)"
  by (cases v) auto

lemma dstep_Ret: "m \<le> length bz \<Longrightarrow> dstep (Ret (x, m, e)) bz n k = k x (drop m bz) (n + m) e"
  by (simp add: dstep_def slide_def)

lemma dstep_err_Ret: "m \<le> length bz \<Longrightarrow> dstep_err (Ret (x, m, None)) bz n rv k = k x (drop m bz) (n + m)"
  by (simp add: dstep_err_def dstep_Ret)

context coder
begin

lemma dstep_err_enc: "ok a \<Longrightarrow> dstep_err (Ret (D (enc a @ rest))) (enc a @ rest) n rv k = k a rest (n + length (enc a))"
  by (simp add: decodes dstep_err_Ret)

lemma decode_into_enc: "ok a \<Longrightarrow> decode_into D mk (enc a @ rest) rv = Ret (mk a, length (enc a), None)"
  by (simp add: decode_into_def dstep_err_enc)

end

section \<open>Basic values\<close>

lemma PutVarint_nonempty: "PutVarint i \<noteq> []"
  by (simp add: PutVarint_def Let_def PutUvarint_nonempty)

definition basic_enc :: "FieldOptions \<Rightarrow> aty \<Rightarrow> aval \<Rightarrow> bytes" where
  "basic_enc opts t v =
     (case v of
        AVBool b \<Rightarrow> PutUvarint (if b then 1 else 0)
      | AVInt i \<Rightarrow> if t = AInt32 then PutUint32 (ucast i) else if t = AInt64 \<and> \<not> BinVarint opts then PutUint64 i else PutVarint i
      | AVUint u \<Rightarrow> if t = AUint32 then PutUint32 (ucast u) else if t = AUint64 \<and> \<not> BinVarint opts then PutUint64 u else PutUvarint u
      | AVF32 f \<Rightarrow> PutUint32 f
      | AVF64 f \<Rightarrow> PutUint64 f
      | AVString s \<Rightarrow> PutUvarint (of_nat (length s)) @ s
      | _ \<Rightarrow> [])"

lemma basic_enc_write:
  assumes "basic_ok opts t v"
  shows "encode_basic buffer t v opts w = Ret (None, w @ basic_enc opts t v)" "basic_enc opts t v \<noteq> []"
proof -
  have ne: "PutUint64 i \<noteq> []" "PutUint32 j \<noteq> []" for i j using length_Put by (metis length_0_conv zero_neq_numeral)+
  have u: "ucast (1 :: byte) = (1 :: u64)" "ucast (0 :: byte) = (0 :: u64)" by simp_all
  show "encode_basic buffer t v opts w = Ret (None, w @ basic_enc opts t v)"
    using assms
    by (cases v; cases t; simp add: basic_ok_def basic_ty_def is_basic_def encode_basic_def basic_enc_def encoder_defs buffer_def
        EncodeString_def EncodeByteSlice_buffer u)
  show "basic_enc opts t v \<noteq> []"
    using assms ne PutUvarint_nonempty PutVarint_nonempty
    by (cases v) (auto simp: basic_ok_def basic_ty_def is_basic_def basic_enc_def split: aty.splits)
qed

lemma basic_enc_read:
  assumes "basic_ok opts t v"
  shows "decode_basic t (basic_enc opts t v @ rest) rv opts = Ret (v, length (basic_enc opts t v), None)"
proof (cases v)
  case (AVInt i)
  then have t: "t \<in> {AInt, AInt8, AInt16, AInt32, AInt64}" and ty: "basic_ty t (AVInt i)"
    using assms by (auto simp: basic_ok_def basic_ty_def split: aty.splits)
  then show ?thesis
    using int8.decode_into_enc [where a = "ucast i" and mk = "\<lambda>i. AVInt (scast i)" and rest = rest and rv = rv] int16.decode_into_enc [where a = "ucast i" and mk = "\<lambda>i. AVInt (scast i)" and rest = rest and rv = rv]
    by (auto simp: AVInt basic_ty_def decode_basic_def basic_enc_def varint.decode_into_enc int64.decode_into_enc int32.decode_into_enc)
next
  case (AVUint u)
  then have t: "t \<in> {AUint, AUint8, AUint16, AUint32, AUint64}" and ty: "basic_ty t (AVUint u)"
    using assms by (auto simp: basic_ok_def basic_ty_def split: aty.splits)
  then show ?thesis
    using uint8.decode_into_enc [where a = "ucast u" and mk = "\<lambda>i. AVUint (ucast i)" and rest = rest and rv = rv] uint16.decode_into_enc [where a = "ucast u" and mk = "\<lambda>i. AVUint (ucast i)" and rest = rest and rv = rv]
    by (auto simp: AVUint basic_ty_def decode_basic_def basic_enc_def uvarint.decode_into_enc uint64.decode_into_enc uint32.decode_into_enc)
next
  case (AVString s)
  with assms have "t = AString" "length s < 2 ^ 63" by (auto simp: basic_ok_def basic_ty_def split: aty.splits)
  with DecodeByteSlice_enc [of s rest] show ?thesis
    by (simp add: AVString decode_basic_def basic_enc_def DecodeString_def of_opt_def dstep_err_Ret)
next
  case (AVBool b)
  with assms have "t = ABool" by (auto simp: basic_ok_def basic_ty_def split: aty.splits)
  with bool.decode_into_enc [where a = b and mk = AVBool and rest = rest and rv = rv] show ?thesis by (simp add: AVBool decode_basic_def basic_enc_def)
qed (use assms in \<open>auto simp: basic_ok_def basic_ty_def is_basic_def decode_basic_def basic_enc_def float32.decode_into_enc
      float64.decode_into_enc split: aty.splits\<close>)

lemma info_cases:
  assumes "codec_inv impl cdc" "typeInfo cdc t = Some (Inr info)" "\<not> is_ptr t" "\<not> is_iface t"
  obtains d where "info = CInfo d" "c_Type d = t" "parseStructInfo t = (if is_struct t then Some (Fields d) else parseStructInfo t)"
    "Registered d \<Longrightarrow> d \<in> set (concreteInfos cdc)"
proof (cases info)
  case (IInfo i)
  with typeInfo_IInfo [OF assms(1), of t i] assms show ?thesis by (simp add: deref_ty_id)
next
  case (CInfo d)
  from typeInfo_CInfo [OF assms(1), of t d] assms CInfo that [of d] show ?thesis
    by (auto simp: deref_ty_id newTypeInfoUnregistered_def split: if_splits)
qed

text \<open>The switches on the kind of a concrete type, in both directions.\<close>

lemma carries_concrete:
  assumes "codec_inv impl cdc" "\<not> is_ptr t" "\<not> is_iface t" "\<And>p. v \<noteq> AVPtr p" "bz \<noteq> []"
    "\<And>k d ca w. c_Type d = t \<Longrightarrow> (is_struct t \<Longrightarrow> parseStructInfo t = Some (Fields d)) \<Longrightarrow> size v < Suc k \<Longrightarrow>
      encode_kind (enc_at True cdc k) cdc buffer d ca v opts w = Ret (None, w @ bz)"
    "\<And>k d rest. c_Type d = t \<Longrightarrow> (is_struct t \<Longrightarrow> parseStructInfo t = Some (Fields d)) \<Longrightarrow> weight cdc (bz @ rest) t < Suc k \<Longrightarrow>
      decode_kind (dec_at True impl cdc k) cdc (bz @ rest) d (zero_of t) opts = Ret (v, length bz, None)"
  shows "carries False impl cdc opts t v bz"
proof (rule carriesI)
  show "derefPointers v = (Some v, False, False)" using assms(4) by (rule derefPointers_id)
next
  fix info k ca w assume i: "typeInfo cdc t = Some (Inr info)" and k: "size v < Suc k"
  obtain d where "info = CInfo d" "c_Type d = t" "is_struct t \<Longrightarrow> parseStructInfo t = Some (Fields d)"
    by (rule info_cases [OF assms(1) i assms(2, 3)]) (metis (full_types))
  with assms(6) [of d k ca w] k assms(4) show "u_encodeReflectBinary (Suc k) cdc buffer info ca v opts w = Ret (None, w @ bz)"
    by (cases v) (auto simp: enc_at_def Let_def)
next
  fix info k rest assume i: "typeInfo cdc t = Some (Inr info)" and k: "weight cdc (bz @ rest) t < Suc k"
  obtain d where "info = CInfo d" "c_Type d = t" "is_struct t \<Longrightarrow> parseStructInfo t = Some (Fields d)"
    by (rule info_cases [OF assms(1) i assms(2, 3)]) (metis (full_types))
  with assms(7) [of d rest k] k assms(2)
  show "u_decodeReflectBinary (Suc k) impl cdc (bz @ rest) info t (zero_of t) opts = Ret (v, length bz, None)"
    by (simp add: dec_at_def through_ptrs_id Let_def)
qed (use assms in simp_all)

lemma carries_basic:
  assumes "codec_inv impl cdc" "basic_ok opts (under t) v"
  shows "carries False impl cdc opts t v (basic_enc opts (under t) v)"
proof (rule carries_concrete [OF assms(1)])
  have b: "is_basic (under t)" using assms(2) by (simp add: basic_ok_def)
  then show "\<not> is_ptr t" "\<not> is_iface t" by (auto simp: is_basic_def is_ptr_def is_iface_def split: aty.splits)
  show "v \<noteq> AVPtr p" for p using assms(2) by (auto simp: basic_ok_def basic_ty_def split: aty.splits)
  show "basic_enc opts (under t) v \<noteq> []" by (rule basic_enc_write(2) [OF assms(2)])
  show "encode_kind E cdc buffer d ca v opts w = Ret (None, w @ basic_enc opts (under t) v)" if "c_Type d = t" for E d ca w
    using b basic_enc_write(1) [OF assms(2)] that by (auto simp: encode_kind_def is_basic_def)
  show "decode_kind D cdc (basic_enc opts (under t) v @ rest) d rv opts = Ret (v, length (basic_enc opts (under t) v), None)"
    if "c_Type d = t" for D d rest rv
    using b basic_enc_read [OF assms(2)] that by (auto simp: decode_kind_def is_basic_def)
qed

lemma time_bytes_nonempty: "time_bytes t \<noteq> []"
  by (simp add: time_bytes_def)

lemma carries_time:
  assumes "codec_inv impl cdc" "time_ok x"
  shows "carries False impl cdc opts ATime (AVTime x) (time_bytes x)"
  by (rule carries_concrete [OF assms(1)])
    (simp_all add: is_ptr_def is_iface_def time_bytes_nonempty encode_kind_def encodeReflectBinaryStruct_def of_opt_def
      EncodeTime_buffer decode_kind_def decodeReflectBinaryStruct_def DecodeTime_enc [OF assms(2)] dstep_err_Ret)

lemma carries_byte_slice:
  assumes "codec_inv impl cdc" "under t = ASlice AUint8" "length bs < 2 ^ 63"
  shows "carries False impl cdc opts t (AVBytes bs) (PutUvarint (of_nat (length bs)) @ bs)"
  by (rule carries_concrete [OF assms(1)])
    (use assms(2) DecodeByteSlice_enc [OF assms(3)] in \<open>simp_all add: is_ptr_def is_iface_def PutUvarint_nonempty encode_kind_def is_byte_def
      encodeReflectBinaryByteSlice_def EncodeByteSlice_buffer decode_kind_def decodeReflectBinaryByteSlice_def of_opt_def dstep_err_Ret\<close>)

lemma carries_byte_array:
  assumes "codec_inv impl cdc" "under t = AArray n AUint8" "length bs = n" "n < 2 ^ 63"
  shows "carries False impl cdc opts t (AVByteArr bs) (PutUvarint (of_nat (length bs)) @ bs)"
  by (rule carries_concrete [OF assms(1)])
    (use assms(2-4) DecodeByteSlice_enc [of bs] in \<open>simp_all add: is_ptr_def is_iface_def PutUvarint_nonempty encode_kind_def is_byte_def
      encodeReflectBinaryByteArray_def EncodeByteSlice_buffer decode_kind_def decodeReflectBinaryByteArray_def of_opt_def dstep_err_Ret\<close>)

section \<open>Pointers and prefix bytes\<close>

lemma deref_under: "under t = APtr e \<Longrightarrow> deref_ty t = deref_ty e"
  by (induction t rule: deref_ty.induct) (auto simp: is_ptr_def)

lemma typeInfo_deref: "typeInfo cdc t = typeInfo cdc (deref_ty t)"
  by (simp add: getTypeInfo_wlock_def)

lemma through_ptrs_under:
  "under t = APtr e \<Longrightarrow> through_ptrs t (zero_of t) f =
     (case through_ptrs e (zero_of e) f of Ret (u, n, err) \<Rightarrow> Ret (AVPtr (Some u), n, err) | Crash \<Rightarrow> Crash | NoFuel \<Rightarrow> NoFuel)"
proof (induction t)
  case (ANamed s t)
  moreover have "is_ptr t" using ANamed.prems by (simp add: is_ptr_def)
  moreover have "zero_of (ANamed s t) = zero_of t" by simp
  ultimately show ?case by simp
qed simp_all

lemma carries_ptr:
  assumes inv: "codec_inv impl cdc" and t: "under t = APtr e" "\<not> is_iface (deref_ty e)" and c: "carries False impl cdc opts e v bz"
  shows "carries False impl cdc opts t (AVPtr (Some v)) bz"
proof -
  have i: "typeInfo cdc t = typeInfo cdc e" using typeInfo_deref [of t] typeInfo_deref [of e] deref_under [OF t(1)] by simp
  have w: "weight cdc bz' t < k \<Longrightarrow> weight cdc bz' e < k" for bz' k using size_under [of t] t(1) by simp
  have d: "dec_at False impl cdc k (bz @ rest) info t (zero_of t) opts = Ret (AVPtr (Some v), length bz, None)"
    if info: "typeInfo cdc e = Some (Inr info)" and k: "weight cdc (bz @ rest) e < k"
      and e: "dec_at False impl cdc k (bz @ rest) info e (zero_of e) opts = Ret (v, length bz, None)" for k rest info
  proof -
    have "\<not> is_iface (info_type info)"
      using typeInfo_CInfo(1) [OF inv, of e] typeInfo_IInfo(3) [OF inv, of e] info t(2) by (cases info) auto
    with e k show ?thesis by (cases k) (simp_all add: dec_at_def through_ptrs_under [OF t(1)] Let_def)
  qed
  from c obtain u p where u: "bz \<noteq> []" "derefPointers v = (Some u, p, False)"
    and A: "\<And>info k ca w. typeInfo cdc e = Some (Inr info) \<Longrightarrow> size u < k \<Longrightarrow> enc_at False cdc k info ca u opts w = Ret (None, w @ bz)"
    and B: "\<And>info k rest. typeInfo cdc e = Some (Inr info) \<Longrightarrow> weight cdc (bz @ rest) e < k \<Longrightarrow>
      dec_at False impl cdc k (bz @ rest) info e (zero_of e) opts = Ret (v, length bz, None)"
    unfolding carries_def by blast
  have "derefPointers (AVPtr (Some v)) = (Some u, True, False)" using u(2) by simp
  moreover have "dec_at False impl cdc k (bz @ rest) info t (zero_of t) opts = Ret (AVPtr (Some v), length bz, None)"
    if "typeInfo cdc e = Some (Inr info)" "weight cdc (bz @ rest) t < k" for info k rest
    using d [OF that(1) w [OF that(2)] B [OF that(1) w [OF that(2)]]] .
  ultimately show ?thesis unfolding carries_def i using u(1) A by blast
qed

lemma typ3_small: "typeToTyp3 t opts = Some x \<Longrightarrow> x AND 0xF8 = 0 \<and> x AND 0x07 = x"
  by (auto simp: typeToTyp3_def Typ3_Interface_def Typ3_ByteLength_def Typ3_List_def Typ3_Struct_def Typ3_Varint_def
      Typ3_8Byte_def Typ3_4Byte_def split: aty.splits if_splits)

lemma surv_typ: "surv impl cdc opts t v \<Longrightarrow> typeToTyp3 (deref_ty t) opts \<noteq> None \<and> (is_ptr t \<longrightarrow> \<not> is_iface (deref_ty t))"
proof (induction rule: surv.induct)
  case (basic opts t v)
  then have "is_basic (under t)" by (simp add: basic_ok_def)
  moreover from this have "\<not> is_ptr t" by (auto simp: is_basic_def is_ptr_def split: aty.splits)
  ultimately show ?case by (auto simp: deref_ty_id is_basic_def typeToTyp3_def)
next
  case (ptr t e opts v)
  then show ?case by (simp add: deref_under)
qed (auto simp: deref_ty_id is_ptr_def typeToTyp3_def is_iface_def split: aty.splits)

lemma derefPointers_not_ptr: "derefPointers v = (Some u, p, b) \<Longrightarrow> u \<noteq> AVPtr q"
  by (induction v arbitrary: p b rule: derefPointers.induct) (auto split: prod.splits)

lemma carries_prefix:
  assumes inv: "codec_inv impl cdc" and t: "typeToTyp3 (deref_ty t) opts = Some x" "is_ptr t \<longrightarrow> \<not> is_iface (deref_ty t)"
    and c: "carries False impl cdc opts t v bz"
  shows "\<exists>bz'. carries True impl cdc opts t v bz'"
proof (cases "\<exists>info. typeInfo cdc t = Some (Inr info)")
  case False
  with c show ?thesis unfolding carries_def by blast
next
  case True
  then obtain info where i: "typeInfo cdc t = Some (Inr info)" by blast
  obtain u p where u: "bz \<noteq> []" "derefPointers v = (Some u, p, False)"
    and A: "\<And>k ca w. size u < k \<Longrightarrow> enc_at False cdc k info ca u opts w = Ret (None, w @ bz)"
    and B: "\<And>k rest. weight cdc (bz @ rest) t < k \<Longrightarrow> dec_at False impl cdc k (bz @ rest) info t (zero_of t) opts = Ret (v, length bz, None)"
    using carriesD [OF c i] by metis
  have np: "u \<noteq> AVPtr q" for q using derefPointers_not_ptr [OF u(2)] .
  have ni: "\<not> (is_iface (info_type info) \<and> is_ptr t)"
    using typeInfo_CInfo(1) [OF inv, of t] typeInfo_IInfo(3) [OF inv, of t] i t(2) by (cases info) auto
  define pre where "pre = (case info of CInfo d \<Rightarrow> if Registered d then WithTyp3 (Prefix d) x else [] | IInfo _ \<Rightarrow> [])"
  have reg: "c_Type d = deref_ty t" "prefix_ok (Prefix d)" "typeToTyp4 (c_Type d) opts = Some x" if "info = CInfo d" "Registered d" for d
    using typeInfo_CInfo [OF inv, of t d] i that inv t(1) by (auto simp: codec_inv_def concrete_ok_def typeToTyp4_def)
  have E: "enc_at True cdc k info ca u opts w = Ret (None, w @ pre @ bz)" if "size u < k" for k ca w
    using A [OF that] np reg typ3_small [OF t(1)]
    by (cases u; cases info) (auto simp: enc_at_def encodeReflectBinary_def pre_def buffer_def bind_w_def Typ4_Typ3_def)
  have D: "dec_at True impl cdc k ((pre @ bz) @ rest) info t (zero_of t) opts = Ret (v, length (pre @ bz), None)"
    if k: "weight cdc ((pre @ bz) @ rest) t < k" for k rest
  proof -
    have "weight cdc (bz @ rest) t < k"
      using k mult_le_mono1 [of "length (bz @ rest)" "length ((pre @ bz) @ rest)" "Suc (max_size cdc)"] by simp
    note b = B [OF this, unfolded dec_at_def if_False]
    show ?thesis
    proof (cases "\<exists>d. info = CInfo d \<and> Registered d")
      case True
      then obtain d where d: "info = CInfo d" "Registered d" by blast
      have p: "length (WithTyp3 (Prefix d) x) = 4" "SplitTyp3 (WithTyp3 (Prefix d) x) = (Prefix d, x)"
        using reg [OF d] SplitTyp3_WithTyp3 typ3_small [OF t(1)] by (auto simp: WithTyp3_def prefix_ok_def)
      have "checkTyp3 (c_Type d) x opts = Some None" using reg [OF d] t(1) by (simp add: checkTyp3_def)
      then show ?thesis
        using ni d p b by (simp add: dec_at_def decodeReflectBinary_def pre_def dstep_Ret)
    next
      case False
      with ni b show ?thesis by (cases info) (auto simp: dec_at_def decodeReflectBinary_def pre_def dstep_Ret)
    qed
  qed
  have "carries True impl cdc opts t v (pre @ bz)"
    unfolding carries_def using u E D i by auto
  then show ?thesis by blast
qed

section \<open>Lists\<close>

definition elem_carries :: "implements \<Rightarrow> codec \<Rightarrow> FieldOptions \<Rightarrow> aty \<Rightarrow> aval \<Rightarrow> bytes \<Rightarrow> bool" where
  "elem_carries impl cdc opts e v b \<longleftrightarrow>
     (if is_ptr e \<and> is_void v then v = zero_of e \<and> b = [1]
      else \<exists>b'. carries True impl cdc opts e v b' \<and> b = (if is_ptr e then 0 # b' else b'))"

lemma isVoid_deref: "derefPointers v = (Some u, p, False) \<Longrightarrow> isVoid v = (Some u, is_void v)"
  by (simp add: isVoid_def is_void_def)

lemma derefPointers_size: "derefPointers v = (Some u, p, b) \<Longrightarrow> size u \<le> size v"
  by (induction v arbitrary: p b rule: derefPointers.induct) (auto split: prod.splits)

lemma elem_nonempty: "elem_carries impl cdc opts e v b \<Longrightarrow> b \<noteq> []"
  by (auto simp: elem_carries_def carries_def split: if_splits)

lemma elems_length: "list_all2 (elem_carries impl cdc opts e) vs bs \<Longrightarrow> length vs \<le> length (concat bs)"
proof (induction rule: list_all2_induct)
  case (Cons v vs b bs)
  with elem_nonempty [of impl cdc opts e v b] show ?case by (cases b) auto
qed simp

lemma encode_elems_carries:
  assumes "typeInfo cdc e = Some (Inr einfo)"
  shows "list_all2 (elem_carries impl cdc opts e) vs bs \<Longrightarrow> \<forall>v \<in> set vs. size v < k \<Longrightarrow>
    encode_elems (\<lambda>a v. enc_at True cdc k einfo a v opts) buffer (is_ptr e) ca vs None w = Ret (None, w @ concat bs)"
proof (induction arbitrary: w rule: list_all2_induct)
  case (Cons v vs b bs)
  show ?case
  proof (cases "is_ptr e \<and> is_void v")
    case True
    with Cons.hyps(1) have b: "b = [1]" by (simp add: elem_carries_def)
    obtain erv where "isVoid v = (erv, True)" using True by (metis is_void_def prod.collapse)
    with True b Cons show ?thesis by (simp add: buffer_def)
  next
    case False
    then obtain b' where b: "carries True impl cdc opts e v b'" "b = (if is_ptr e then 0 # b' else b')"
      using Cons.hyps(1) by (auto simp: elem_carries_def split: if_splits)
    obtain u p where u: "derefPointers v = (Some u, p, False)"
        "\<And>ca w. size u < k \<Longrightarrow> enc_at True cdc k einfo ca u opts w = Ret (None, w @ b')"
      using carriesD [OF b(1) assms] by metis
    have "size u < k" using derefPointers_size [OF u(1)] Cons.prems by auto
    with u(2) False b(2) Cons isVoid_deref [OF u(1)] show ?thesis by (auto simp: buffer_def bind_w_def)
  qed
qed simp

lemma decode_elems_carries:
  assumes "typeInfo cdc e = Some (Inr einfo)"
  shows "list_all2 (elem_carries impl cdc opts e) vs bs \<Longrightarrow> weight cdc (concat bs @ rest) e < k \<Longrightarrow>
    decode_elems (\<lambda>bz t. dec_at True impl cdc k bz einfo e t opts) (zero_of e) (is_ptr e) (replicate (length vs) (zero_of e))
      (concat bs @ rest) n = Ret (vs, n + length (concat bs), None)"
proof (induction arbitrary: n rule: list_all2_induct)
  case (Cons v vs b bs)
  have w: "weight cdc bz e < k" if "length bz \<le> length (concat (b # bs) @ rest)" for bz
    using Cons.prems mult_le_mono1 [OF that, of "Suc (max_size cdc)"] by linarith
  have IH: "decode_elems (\<lambda>bz t. dec_at True impl cdc k bz einfo e t opts) (zero_of e) (is_ptr e) (replicate (length vs) (zero_of e))
      (concat bs @ rest) m = Ret (vs, m + length (concat bs), None)" for m
    by (rule Cons.IH) (rule w, simp)
  note nil0 = nil.dstep_err_enc [where a = 0, simplified] and nil1 = nil.dstep_err_enc [where a = 1, simplified]
  show ?case
  proof (cases "is_ptr e \<and> is_void v")
    case True
    with Cons.hyps(1) have "b = [1]" "v = zero_of e" by (simp_all add: elem_carries_def)
    with True IH show ?thesis by (simp add: Let_def nil1)
  next
    case False
    then obtain b' where b: "carries True impl cdc opts e v b'" "b = (if is_ptr e then 0 # b' else b')"
      using Cons.hyps(1) by (auto simp: elem_carries_def split: if_splits)
    have d: "dec_at True impl cdc k (b' @ concat bs @ rest) einfo e (zero_of e) opts = Ret (v, length b', None)"
      using carriesD [OF b(1) assms] w [of "b' @ concat bs @ rest"] b(2) by (metis (no_types, lifting) append_assoc concat.simps(2)
          length_append length_Cons le_add_same_cancel2 le_SucI add_Suc le_refl)
    show ?thesis using False b(2) d IH by (cases "is_ptr e") (simp_all add: Let_def nil0 dstep_Ret)
  qed
qed simp

lemma typ4_byte:
  assumes "typeToTyp4 e opts = Some y"
  shows "y AND 0xF0 = 0" "PutUvarint (ucast y) = [y]" "Typ4_IsPointer y \<longleftrightarrow> is_ptr e" "y AND 0x08 \<noteq> 0 \<longleftrightarrow> is_ptr e"
proof -
  obtain x where x: "typeToTyp3 (deref_ty e) opts = Some x" and y: "y = (if is_ptr e then x OR 8 else x)"
    using assms by (auto simp: typeToTyp4_def Typ4_Pointer_def)
  have "x \<in> {0, 1, 2, 3, 5, 6, 7}"
    using x by (auto simp: typeToTyp3_def Typ3_Interface_def Typ3_ByteLength_def Typ3_List_def Typ3_Struct_def Typ3_Varint_def
        Typ3_8Byte_def Typ3_4Byte_def split: aty.splits if_splits)
  then show "y AND 0xF0 = 0" "PutUvarint (ucast y) = [y]" "Typ4_IsPointer y \<longleftrightarrow> is_ptr e" "y AND 0x08 \<noteq> 0 \<longleftrightarrow> is_ptr e"
    unfolding y by (auto simp: PutUvarint_small Typ4_IsPointer_def)
qed

lemma Typ4AndCheck_enc:
  "typeToTyp4 e opts = Some y \<Longrightarrow> decodeTyp4AndCheck e (y # rest) opts = Some (is_ptr e, 1, None)"
  using typ4.decodes [of y rest] typ4_byte [of e opts y] by (simp add: decodeTyp4AndCheck_def)

definition list_bytes :: "byte \<Rightarrow> bytes list \<Rightarrow> bytes" where
  "list_bytes y bs = y # PutUvarint (of_nat (length bs)) @ concat bs"

lemma encode_list_carries:
  assumes "\<not> is_byte e" "typeInfo cdc e = Some (Inr einfo)" "typeToTyp4 e opts = Some y"
    "list_elems v = Some vs" "list_all2 (elem_carries impl cdc opts e) vs bs" "\<forall>v \<in> set vs. size v < k"
  shows "encodeReflectBinaryList (enc_at True cdc k) cdc buffer e ca v opts w = Ret (None, w @ list_bytes y bs)"
  using assms typ4_byte [OF assms(3)] list_all2_lengthD [OF assms(5)]
  by (simp add: encodeReflectBinaryList_def EncodeByte_def EncodeUvarint_def buffer_def bind_w_def encode_elems_carries list_bytes_def)

lemma decode_count:
  assumes "typeToTyp4 e opts = Some y"
  shows "dstep_err (of_opt (decodeTyp4AndCheck e (list_bytes y bs @ rest) opts)) (list_bytes y bs @ rest) 0 rv (\<lambda>ptr bz n.
      dstep_err (Ret (DecodeUvarint bz)) bz n rv (F ptr)) =
    F (is_ptr e) (of_nat (length bs)) (concat bs @ rest) (length (list_bytes y bs) - length (concat bs))"
  by (simp add: list_bytes_def Typ4AndCheck_enc [OF assms] of_opt_def dstep_err_Ret uvarint.dstep_err_enc)

lemma decode_list_weight:
  "weight cdc (list_bytes y bs @ rest) t < Suc k \<Longrightarrow> size e < size t \<Longrightarrow> weight cdc (concat bs @ rest) e < k"
  by (rule weight_less [of _ "list_bytes y bs @ rest"]) (simp_all add: list_bytes_def)

lemma decode_slice_carries:
  assumes "\<not> is_byte e" "typeInfo cdc e = Some (Inr einfo)" "typeToTyp4 e opts = Some y"
    "list_all2 (elem_carries impl cdc opts e) vs bs" "length vs < 2 ^ 63" "weight cdc (list_bytes y bs @ rest) t < Suc k" "size e < size t"
  shows "decodeReflectBinarySlice (dec_at True impl cdc k) cdc (list_bytes y bs @ rest) e rv opts =
    Ret (AVSlice vs, length (list_bytes y bs), None)"
proof -
  have l: "length bs = length vs" using list_all2_lengthD [OF assms(4)] by simp
  have n: "length (list_bytes y bs) - length (concat bs) + length (concat bs) = length (list_bytes y bs)" by (simp add: list_bytes_def)
  have z: "(of_nat (length vs) :: u64) = 0 \<longleftrightarrow> vs = []" 
    by (simp only: unat_eq_0 [symmetric] count_ok(3) [OF assms(5)] length_0_conv)
  have e: "decode_elems (\<lambda>bz t. dec_at True impl cdc k bz einfo e t opts) (zero_of e) (is_ptr e) (replicate (length vs) (zero_of e))
      (concat bs @ rest) m = Ret (vs, m + length (concat bs), None)" for m
    by (rule decode_elems_carries [OF assms(2, 4) decode_list_weight [OF assms(6, 7)]])
  have c: "length (list_bytes y bs) - length (concat bs) = length (list_bytes y bs)" if "vs = []" using assms(4) that by simp
  show ?thesis
    unfolding decodeReflectBinarySlice_def decode_count [OF assms(3)] l
    using assms(1, 2) count_ok [OF assms(5)] elems_length [OF assms(4)] z n c
    by (simp add: e del: of_nat_eq_0_iff)
qed

lemma decode_array_carries:
  assumes "\<not> is_byte e" "typeInfo cdc e = Some (Inr einfo)" "typeToTyp4 e opts = Some y"
    "list_all2 (elem_carries impl cdc opts e) vs bs" "length vs < 2 ^ 63" "weight cdc (list_bytes y bs @ rest) t < Suc k" "size e < size t"
    "list_elems rv = Some (replicate (length vs) (zero_of e))"
  shows "decodeReflectBinaryArray (dec_at True impl cdc k) cdc (list_bytes y bs @ rest) (length vs) e rv opts =
    Ret (AVArray vs, length (list_bytes y bs), None)"
proof -
  have l: "length bs = length vs" using list_all2_lengthD [OF assms(4)] by simp
  have n: "length (list_bytes y bs) - length (concat bs) + length (concat bs) = length (list_bytes y bs)" by (simp add: list_bytes_def)
  show ?thesis
    using assms(1, 2, 8) count_ok [OF assms(5)] n decode_elems_carries [OF assms(2, 4) decode_list_weight [OF assms(6, 7)]]
    by (simp add: decodeReflectBinaryArray_def decode_count [OF assms(3)] l)
qed

lemma elem_sizes: "v \<in> set vs \<Longrightarrow> size v < size (AVSlice vs)" "v \<in> set vs \<Longrightarrow> size v < size (AVArray vs)"
  "v \<in> set vs \<Longrightarrow> size v < size (AVStruct vs)"
  by (auto simp: less_Suc_eq_le intro: size_list_estimation')

lemma carries_slice:
  assumes "codec_inv impl cdc" "under t = ASlice e" "\<not> is_byte e" "length vs < 2 ^ 63" "typeInfo cdc e = Some (Inr einfo)"
    "typeToTyp4 e opts = Some y" "list_all2 (elem_carries impl cdc opts e) vs bs"
  shows "carries False impl cdc opts t (AVSlice vs) (list_bytes y bs)"
proof (rule carries_concrete [OF assms(1)])
  have s: "size e < size t" using size_elem assms(2) by blast
  show "encode_kind (enc_at True cdc k) cdc buffer d ca (AVSlice vs) opts w = Ret (None, w @ list_bytes y bs)"
    if "c_Type d = t" "size (AVSlice vs) < Suc k" for k d ca w
  proof -
    have "\<forall>v \<in> set vs. size v < k" using elem_sizes(1) [of _ vs] that(2) by (meson less_Suc_eq_le less_le_trans)
    then show ?thesis using that(1) assms(2, 3) encode_list_carries [OF assms(3, 5, 6) _ assms(7), of "AVSlice vs" k ca w] by (simp add: encode_kind_def)
  qed
  show "decode_kind (dec_at True impl cdc k) cdc (list_bytes y bs @ rest) d (zero_of t) opts = Ret (AVSlice vs, length (list_bytes y bs), None)"
    if "c_Type d = t" "weight cdc (list_bytes y bs @ rest) t < Suc k" for k d rest
    using that(1) assms(2, 3) decode_slice_carries [OF assms(3, 5, 6, 7, 4) that(2) s] by (simp add: decode_kind_def)
qed (use assms(2) in \<open>simp_all add: is_ptr_def is_iface_def list_bytes_def\<close>)

lemma carries_array:
  assumes "codec_inv impl cdc" "under t = AArray n e" "\<not> is_byte e" "length vs = n" "n < 2 ^ 63" "typeInfo cdc e = Some (Inr einfo)"
    "typeToTyp4 e opts = Some y" "list_all2 (elem_carries impl cdc opts e) vs bs"
  shows "carries False impl cdc opts t (AVArray vs) (list_bytes y bs)"
proof (rule carries_concrete [OF assms(1)])
  have s: "size e < size t" using size_elem assms(2) by blast
  have z: "zero_of t = AVArray (replicate n (zero_of e))" by (subst zero_of_under) (simp add: assms(2, 3))
  have l: "length vs < 2 ^ 63" using assms(4, 5) by simp
  show "encode_kind (enc_at True cdc k) cdc buffer d ca (AVArray vs) opts w = Ret (None, w @ list_bytes y bs)"
    if "c_Type d = t" "size (AVArray vs) < Suc k" for k d ca w
  proof -
    have "\<forall>v \<in> set vs. size v < k" using elem_sizes(2) [of _ vs] that(2) by (meson less_Suc_eq_le less_le_trans)
    then show ?thesis using that(1) assms(2, 3) encode_list_carries [OF assms(3, 6, 7) _ assms(8), of "AVArray vs" k ca w] by (simp add: encode_kind_def)
  qed
  show "decode_kind (dec_at True impl cdc k) cdc (list_bytes y bs @ rest) d (zero_of t) opts = Ret (AVArray vs, length (list_bytes y bs), None)"
    if "c_Type d = t" "weight cdc (list_bytes y bs @ rest) t < Suc k" for k d rest
    using that(1) assms(2-4) z decode_array_carries [OF assms(3, 6, 7, 8) l that(2) s, of "zero_of t"] by (simp add: decode_kind_def)
qed (use assms(2) in \<open>simp_all add: is_ptr_def is_iface_def list_bytes_def\<close>)

section \<open>Structs\<close>

abbreviation field_num :: "field_info \<Rightarrow> u32" where
  "field_num f \<equiv> BinFieldNum (FOptions f)"

lemma parse_fields_numbers:
  "parse_fields i fs infos = Some r \<Longrightarrow> map field_num infos = map (\<lambda>j. of_nat (Suc j)) [0..<length infos] \<Longrightarrow>
     \<forall>f \<in> set infos. FIndex f < i \<Longrightarrow> distinct (map FIndex infos) \<Longrightarrow>
     map field_num r = map (\<lambda>j. of_nat (Suc j)) [0..<length r] \<and> distinct (map FIndex r) \<and> length r \<le> length infos + length fs"
proof (induction fs arbitrary: i infos)
  case (Cons fld fs)
  obtain name tags exported ftype where fld: "fld = (name, tags, exported, ftype)" by (cases fld)
  obtain skip opts where o: "parseFieldOptions fld = (skip, opts)" by fastforce
  show ?case
  proof (cases "\<not> exported \<or> skip")
    case True
    with Cons.prems(1) o have "parse_fields (i + 1) fs infos = Some r" by (auto simp: fld Let_def split: if_splits)
    moreover have "\<forall>f \<in> set infos. FIndex f < i + 1" using Cons.prems(3) by auto
    ultimately show ?thesis using Cons.IH [of "i + 1" infos] Cons.prems(2, 4) by simp
  next
    case False
    let ?opts = "opts\<lparr>BinFieldNum := of_nat (length infos + 1)\<rparr>"
    from False o Cons.prems(1) obtain t4 where t4: "typeToTyp4 ftype ?opts = Some t4"
      by (auto simp: fld Let_def split: option.splits)
    let ?f = "\<lparr>FName = name, FType = ftype, FIndex = i, FOptions = ?opts, BinTyp3 = Typ4_Typ3 t4\<rparr>"
    have u: "parse_fields (i + 1) fs (infos @ [?f]) = Some r"
      using False o t4 Cons.prems(1) by (auto simp: fld Let_def split: if_splits)
    have "map field_num (infos @ [?f]) = map (\<lambda>j. of_nat (Suc j)) [0..<length (infos @ [?f])]" using Cons.prems(2) by simp
    moreover have "\<forall>f \<in> set (infos @ [?f]). FIndex f < i + 1" "distinct (map FIndex (infos @ [?f]))"
      using Cons.prems(3, 4) by auto
    ultimately show ?thesis using Cons.IH [OF u] by simp
  qed
qed simp

text \<open>The numbers of the fields go up and are fit for a key.\<close>

definition keys_ok :: "field_info list \<Rightarrow> bool" where
  "keys_ok l \<longleftrightarrow> sorted_wrt (<) (map field_num l) \<and> (\<forall>f \<in> set l. 0 < field_num f \<and> key_ok (field_num f, BinTyp3 f))"

lemma keys_ok_Cons: "keys_ok (f # l) \<longleftrightarrow> keys_ok l \<and> 0 < field_num f \<and> key_ok (field_num f, BinTyp3 f) \<and> (\<forall>g \<in> set l. field_num f < field_num g)"
  by (auto simp: keys_ok_def)

lemma typ3_key: "Typ4_Typ3 x AND 0xF8 = 0"
proof -
  have "Typ4_Typ3 x AND 0xF8 = x AND (0x07 AND 0xF8)" by (simp only: Typ4_Typ3_def and.assoc)
  then show ?thesis by simp
qed

lemma parse_fields_keys:
  assumes "parse_fields 0 fs [] = Some r" "length fs < 2 ^ 29"
  shows "keys_ok r" "distinct (map FIndex r)"
proof -
  have n: "map field_num r = map (\<lambda>j. of_nat (Suc j)) [0..<length r]" "distinct (map FIndex r)" "length r \<le> length fs"
    using parse_fields_numbers [OF assms(1)] by simp_all
  show "distinct (map FIndex r)" by (rule n(2))
  have u: "unat (of_nat (Suc j) :: u32) = Suc j" if "j < length r" for j
    using that n(3) assms(2) by (simp add: unat_of_nat del: of_nat_Suc)
  have "sorted_wrt (<) (map field_num r)"
    unfolding n(1) by (auto simp: sorted_wrt_iff_nth_less word_less_nat_alt u simp del: of_nat_Suc)
  moreover have "0 < field_num f \<and> key_ok (field_num f, BinTyp3 f)" if f: "f \<in> set r" for f
  proof -
    have "field_num f \<in> set (map field_num r)" using f by simp
    then obtain j where j: "j < length r" "field_num f = of_nat (Suc j)" unfolding n(1) by auto
    have "unat (field_num f) = Suc j" using u [OF j(1)] j(2) by (simp only:)
    then have "0 < field_num f" "field_num f \<le> 2 ^ 29 - 1" using j(1) n(3) assms(2) by (simp_all add: word_less_nat_alt word_le_nat_alt)
    moreover obtain y where "Typ4_Typ3 y = BinTyp3 f" using parse_fields_all [OF assms(1) f] by (auto simp: field_at_def)
    ultimately show ?thesis using typ3_key [of y] by (simp add: key_ok_def)
  qed
  ultimately show "keys_ok r" by (simp add: keys_ok_def)
qed

definition field_carries :: "implements \<Rightarrow> codec \<Rightarrow> aval list \<Rightarrow> field_info \<Rightarrow> bytes \<Rightarrow> bool" where
  "field_carries impl cdc vs f b \<longleftrightarrow>
     (if is_void (vs ! FIndex f) then vs ! FIndex f = zero_of (FType f) \<and> b = []
      else \<exists>b'. carries True impl cdc (FOptions f) (FType f) (vs ! FIndex f) b' \<and> b = field_key (field_num f, BinTyp3 f) @ b')"

lemma encode_fields_carries:
  "list_all2 (field_carries impl cdc vs) l bs \<Longrightarrow> keys_ok l \<Longrightarrow> \<forall>v \<in> set vs. size v < k \<Longrightarrow> \<forall>f \<in> set l. FIndex f < length vs \<Longrightarrow>
    \<forall>f \<in> set l. \<exists>finfo. typeInfo cdc (FType f) = Some (Inr finfo) \<Longrightarrow>
    encode_fields (enc_at True cdc k) cdc buffer ca vs l w = Ret (None, w @ concat bs)"
proof (induction arbitrary: w rule: list_all2_induct)
  case (Cons f l b bs)
  have IH: "encode_fields (enc_at True cdc k) cdc buffer ca vs l w = Ret (None, w @ concat bs)" for w
    by (rule Cons.IH) (use Cons.prems in \<open>auto simp: keys_ok_Cons\<close>)
  have i: "FIndex f < length vs" and ko: "key_ok (field_num f, BinTyp3 f)" using Cons.prems by (simp_all add: keys_ok_Cons)
  obtain finfo where fi: "typeInfo cdc (FType f) = Some (Inr finfo)" using Cons.prems by auto
  show ?case
  proof (cases "is_void (vs ! FIndex f)")
    case True
    with Cons.hyps(1) have b: "b = []" by (simp add: field_carries_def)
    obtain erv where "isVoid (vs ! FIndex f) = (erv, True)" using True by (metis is_void_def prod.collapse)
    with i b IH show ?thesis by simp
  next
    case False
    then obtain b' where b: "carries True impl cdc (FOptions f) (FType f) (vs ! FIndex f) b'" "b = field_key (field_num f, BinTyp3 f) @ b'"
      using Cons.hyps(1) by (auto simp: field_carries_def)
    obtain u p where u: "derefPointers (vs ! FIndex f) = (Some u, p, False)"
        "\<And>ca w. size u < k \<Longrightarrow> enc_at True cdc k finfo ca u (FOptions f) w = Ret (None, w @ b')"
      using carriesD [OF b(1) fi] by metis
    have "size u < k" using derefPointers_size [OF u(1)] Cons.prems(2) i by (metis le_less_trans nth_mem)
    with u(2) isVoid_deref [OF u(1)] False i fi IH b(2) show ?thesis
      by (simp add: encodeFieldNumberAndTyp3_key [OF ko] of_opt_def buffer_def [of "field_key (field_num f, BinTyp3 f)"] bind_w_def)
  qed
qed simp

lemma term_key: "decodeFieldNumberAndTyp3 (4 # rest) = ((0, 4), 1, None)"
proof -
  have k: "field_key (0, 4) = [4]" by (simp add: field_key_def PutUvarint_small)
  have "key_ok (0, 4)" by (simp add: key_ok_def)
  from key.decodes [OF this, of rest] k show ?thesis by simp
qed

lemma next_key:
  "list_all2 (field_carries impl cdc vs) l bs \<Longrightarrow> keys_ok l \<Longrightarrow> \<forall>g \<in> set l. m < field_num g \<Longrightarrow>
    (concat bs = [] \<and> (\<forall>g \<in> set l. vs ! FIndex g = zero_of (FType g))) \<or>
    (\<exists>num x n e. decodeFieldNumberAndTyp3 (concat bs @ 4 # rest) = ((num, x), n, e) \<and> m < num)"
proof (induction rule: list_all2_induct)
  case (Cons f l b bs)
  have ko: "key_ok (field_num f, BinTyp3 f)" using Cons.prems by (simp add: keys_ok_Cons)
  show ?case
  proof (cases "is_void (vs ! FIndex f)")
    case True
    then have "b = []" "vs ! FIndex f = zero_of (FType f)" using Cons.hyps(1) by (auto simp: field_carries_def)
    with Cons.IH Cons.prems show ?thesis by (auto simp: keys_ok_Cons)
  next
    case False
    then obtain b' where "b = field_key (field_num f, BinTyp3 f) @ b'" using Cons.hyps(1) by (auto simp: field_carries_def)
    with key.decodes [OF ko] Cons.prems(2) show ?thesis by simp
  qed
qed simp

lemma decode_term_4: "decode_term rv (4 # rest) n = Ret (rv, Suc n, None)"
  by (simp add: decode_term_def Typ3_StructTerm_def typ3.dstep_err_enc [where a = 4, simplified])

text \<open>\<open>cur\<close> holds the fields read so far, and zero in the fields \<open>l\<close> still to read.\<close>

definition filled :: "aval list \<Rightarrow> field_info list \<Rightarrow> aval list \<Rightarrow> bool" where
  "filled vs l cur \<longleftrightarrow> length cur = length vs \<and> (\<forall>i < length vs. i \<notin> FIndex ` set l \<longrightarrow> cur ! i = vs ! i) \<and>
     (\<forall>f \<in> set l. FIndex f < length vs \<and> cur ! FIndex f = zero_of (FType f)) \<and> distinct (map FIndex l)"

lemma filled_done: "filled vs l cur \<Longrightarrow> \<forall>f \<in> set l. vs ! FIndex f = zero_of (FType f) \<Longrightarrow> cur = vs"
  by (rule nth_equalityI) (auto simp: filled_def)

lemma filled_step: "filled vs (f # l) cur \<Longrightarrow> filled vs l (cur[FIndex f := vs ! FIndex f])"
  unfolding filled_def by (auto simp: nth_list_update)

lemma bin_fields_carries:
  "list_all2 (field_carries impl cdc vs) l bs \<Longrightarrow> keys_ok l \<Longrightarrow> filled vs l cur \<Longrightarrow> \<forall>f \<in> set l. field_at fs f \<Longrightarrow>
    \<forall>f \<in> set l. \<exists>finfo. typeInfo cdc (FType f) = Some (Inr finfo) \<Longrightarrow>
    \<forall>f \<in> set l. weight cdc (concat bs @ 4 # rest) (FType f) < k \<Longrightarrow>
    bin_fields (dec_at True impl cdc k) cdc l cur (concat bs @ 4 # rest) n = Ret (AVStruct vs, n + length (concat bs) + 1, None)"
proof (induction arbitrary: cur n rule: list_all2_induct)
  case Nil
  then have "cur = vs" using filled_done by fastforce
  then show ?case by (simp add: decode_term_4)
next
  case (Cons f l b bs)
  have w: "weight cdc bz (FType g) < k" if "length bz \<le> length (concat (b # bs) @ 4 # rest)" "g \<in> set (f # l)" for bz g
    using Cons.prems(5) that(2) mult_le_mono1 [OF that(1), of "Suc (max_size cdc)"] by fastforce
  have IH: "bin_fields (dec_at True impl cdc k) cdc l cur' (concat bs @ 4 # rest) m = Ret (AVStruct vs, m + length (concat bs) + 1, None)"
    if "filled vs l cur'" for cur' m
  proof (rule Cons.IH)
    show "\<forall>f \<in> set l. weight cdc (concat bs @ 4 # rest) (FType f) < k" by (intro ballI w) simp_all
  qed (use Cons.prems that in \<open>simp_all add: keys_ok_Cons\<close>)
  have step: "filled vs l (cur[FIndex f := vs ! FIndex f])" using filled_step [OF Cons.prems(2)] .
  have i: "\<not> length cur \<le> FIndex f" "cur ! FIndex f = zero_of (FType f)" using Cons.prems(2) by (auto simp: filled_def)
  have ko: "key_ok (field_num f, BinTyp3 f)" "field_num f \<noteq> 0" using Cons.prems(1) by (auto simp: keys_ok_Cons)
  obtain finfo where fi: "typeInfo cdc (FType f) = Some (Inr finfo)" using Cons.prems by auto
  show ?case
  proof (cases "is_void (vs ! FIndex f)")
    case True
    with Cons.hyps(1) have b: "b = []" "vs ! FIndex f = zero_of (FType f)" by (simp_all add: field_carries_def)
    consider (last) "concat bs = []" "\<forall>g \<in> set l. vs ! FIndex g = zero_of (FType g)"
      | (skip) num x m e where "decodeFieldNumberAndTyp3 (concat bs @ 4 # rest) = ((num, x), m, e)" "field_num f < num"
      using next_key [OF Cons.hyps(2), of "field_num f" rest] Cons.prems(1) by (auto simp: keys_ok_Cons)
    then show ?thesis
    proof cases
      case last
      then have "cur = vs" using filled_done [OF Cons.prems(2)] b(2) by simp
      with last b i fi show ?thesis by (simp add: term_key decode_term_4 del: concat_eq_Nil_conv)
    next
      case skip
      with b i fi IH [OF step] show ?thesis by simp
    qed
  next
    case False
    then obtain b' where b: "carries True impl cdc (FOptions f) (FType f) (vs ! FIndex f) b'" "b = field_key (field_num f, BinTyp3 f) @ b'"
      using Cons.hyps(1) by (auto simp: field_carries_def)
    have d: "dec_at True impl cdc k (b' @ concat bs @ 4 # rest) finfo (FType f) (zero_of (FType f)) (FOptions f) = Ret (vs ! FIndex f, length b', None)"
      using carriesD [OF b(1) fi] w [of "b' @ concat bs @ 4 # rest" f] b(2) by (metis append_assoc concat.simps(2) le_add2 length_append list.set_intros(1))
    obtain t4 where "typeToTyp4 (FType f) (FOptions f) = Some t4" "BinTyp3 f = Typ4_Typ3 t4"
      using Cons.prems(3) by (auto simp: field_at_def)
    with b(2) d i ko fi IH [OF step] show ?thesis by (simp add: key.decodes dstep_err_Ret dstep_Ret)
  qed
qed

lemma carries_struct:
  assumes "codec_inv impl cdc" "under t = AStruct fs" "parse_fields 0 fs [] = Some infos" "length fs < 2 ^ 29" "length vs = length fs"
    "\<forall>i < length fs. i \<notin> FIndex ` set infos \<longrightarrow> vs ! i = zero_of (snd (snd (snd (fs ! i))))"
    "\<forall>f \<in> set infos. \<exists>finfo. typeInfo cdc (FType f) = Some (Inr finfo)" "list_all2 (field_carries impl cdc vs) infos bs"
  shows "carries False impl cdc opts t (AVStruct vs) (concat bs @ [4])"
proof (rule carries_concrete [OF assms(1)])
  note keys = parse_fields_keys [OF assms(3, 4)]
  have at: "\<forall>f \<in> set infos. field_at fs f" using parse_fields_all [OF assms(3)] by blast
  have ix: "\<forall>f \<in> set infos. FIndex f < length vs" using at assms(5) by (auto simp: field_at_def)
  define zs where "zs = map (\<lambda>(name, tags, exported, t). zero_of t) fs"
  have zs: "length zs = length fs" "\<And>i. i < length fs \<Longrightarrow> zs ! i = zero_of (snd (snd (snd (fs ! i))))"
    by (auto simp: zs_def split: prod.splits)
  have z: "zero_of t = AVStruct zs" by (subst zero_of_under) (simp add: assms(2) zs_def)
  have fill: "filled vs infos zs" using keys(2) at ix zs assms(5, 6) by (auto simp: filled_def field_at_def)
  have nt: "t \<noteq> ATime" using assms(2) by auto
  have info: "Fields d = infos" if "is_struct t \<Longrightarrow> parseStructInfo t = Some (Fields d)" for d
    using that assms(2, 3) by (simp add: is_struct_def parseStructInfo_def)
  show "encode_kind (enc_at True cdc k) cdc buffer d ca (AVStruct vs) opts w = Ret (None, w @ concat bs @ [4])"
    if "c_Type d = t" "is_struct t \<Longrightarrow> parseStructInfo t = Some (Fields d)" "size (AVStruct vs) < Suc k" for k d ca w
  proof -
    have "\<forall>v \<in> set vs. size v < k"
      using elem_sizes(3) [of _ vs] that(3) by (meson less_Suc_eq_le less_le_trans)
    from encode_fields_carries [OF assms(8) keys(1) this ix assms(7), of ca w] that(1) assms(2) nt info [OF that(2)]
    show ?thesis by (simp add: encode_kind_def encodeReflectBinaryStruct_def bind_w_def EncodeByte_def EncodeUvarint_def
          Typ3_StructTerm_def PutUvarint_small buffer_def [of "[4]"])
  qed
  show "decode_kind (dec_at True impl cdc k) cdc ((concat bs @ [4]) @ rest) d (zero_of t) opts = Ret (AVStruct vs, length (concat bs @ [4]), None)"
    if "c_Type d = t" "is_struct t \<Longrightarrow> parseStructInfo t = Some (Fields d)" "weight cdc ((concat bs @ [4]) @ rest) t < Suc k" for k d rest
  proof -
    have "\<forall>f \<in> set infos. weight cdc (concat bs @ 4 # rest) (FType f) < k"
    proof
      fix f assume f: "f \<in> set infos"
      have "size (FType f) < size (AStruct fs)" using at f size_field [of "FIndex f" fs] by (auto simp: field_at_def)
      also have "\<dots> \<le> size t" using size_under [of t] by (simp add: assms(2))
      finally show "weight cdc (concat bs @ 4 # rest) (FType f) < k" by (rule weight_less [OF _ _ that(3), rotated]) simp
    qed
    from bin_fields_carries [OF assms(8) keys(1) fill at assms(7) this, of 0] that(1) assms(2) nt z info [OF that(2)]
    show ?thesis by (simp add: decode_kind_def decodeReflectBinaryStruct_def)
  qed
qed (use assms(2) in \<open>simp_all add: is_ptr_def is_iface_def\<close>)

section \<open>Interfaces\<close>

lemma carries_nil_iface:
  assumes inv: "codec_inv impl cdc" and t: "is_iface t"
  shows "carries False impl cdc opts t (AVIface None) [0, 0]"
proof (rule carriesI)
  show p: "\<not> is_ptr t" using t by (auto simp: is_ptr_def is_iface_def split: aty.splits)
  have z: "zero_of t = AVIface None" using t by (subst zero_of_under) (auto simp: is_iface_def split: aty.splits)
  have i: "\<exists>ii. info = IInfo ii" if "typeInfo cdc t = Some (Inr info)" for info
    using typeInfo_CInfo(2) [OF inv, of t] that t p by (cases info) (auto simp: deref_ty_id)
  show "u_encodeReflectBinary (Suc k) cdc buffer info ca (AVIface None) opts w = Ret (None, w @ [0, 0])"
    if "typeInfo cdc t = Some (Inr info)" for info k ca w
    using i [OF that] by (auto simp: Let_def encodeReflectBinaryInterface_def buffer_def)
  show "u_decodeReflectBinary (Suc k) impl cdc ([0, 0] @ rest) info t (zero_of t) opts = Ret (AVIface None, length [0 :: byte, 0], None)"
    if "typeInfo cdc t = Some (Inr info)" for info k rest
    using i [OF that] p z by (auto simp: Let_def through_ptrs_id decodeReflectBinaryInterface_def DecodeDisambPrefixBytes_def dstep_err_Ret)
qed simp_all

definition iface_prefix :: "interface_info \<Rightarrow> concrete_info \<Rightarrow> byte \<Rightarrow> bytes" where
  "iface_prefix ii d x =
     (if AlwaysDisambiguate ii \<or> length (impls ii (Prefix d)) > 1 then 0 # Disamb d else []) @ WithTyp3 (Prefix d) x"

lemma WithTyp3_sel: "length (WithTyp3 pb x) = length pb" "0 < length pb \<Longrightarrow> WithTyp3 pb x ! 0 = pb ! 0"
  by (simp_all add: WithTyp3_def)

text \<open>The bytes before the value name the type: the decoder finds it again.\<close>

lemma iface_prefix_decodes:
  assumes inv: "codec_inv impl cdc" and ii: "ifaceInfos cdc t = Some ii" and d: "d \<in> set (concreteInfos cdc)"
    and im: "impl (APtr (c_Type d)) t" and x: "x AND 0xF8 = 0"
  obtains dp where "DecodeDisambPrefixBytes (iface_prefix ii d x @ rest) = (dp, length (iface_prefix ii d x), None)"
    "\<not> dp_isNil dp" "dp_typ dp = x"
    "(if dp_hasDb dp then Some (getTypeInfoFromDisfix_rlock cdc (toDisfix (dp_db dp) (dp_pb dp)))
      else if dp_hasPb dp then getTypeInfoFromPrefix_rlock ii (dp_pb dp) else Some (Inl msg)) = Some (Inr d)"
proof -
  have co: "disamb_ok (Disamb d)" "prefix_ok (Prefix d)" "disfixToTypeInfo cdc (GetDisfix d) = Some d"
    using inv d by (simp_all add: codec_inv_def concrete_ok_def)
  have io: "iface_ok impl cdc t ii" using inv ii by (simp add: codec_inv_def)
  note sp = SplitTyp3_WithTyp3 [OF co(2) x]
  have p: "length (WithTyp3 (Prefix d) x) = 4" "WithTyp3 (Prefix d) x ! 0 \<noteq> 0" "length (Disamb d) = 3" "Disamb d ! 0 \<noteq> 0"
    using co WithTyp3_sel [of "Prefix d" x] by (auto simp: prefix_ok_def disamb_ok_def)
  show thesis
  proof (cases "AlwaysDisambiguate ii \<or> length (impls ii (Prefix d)) > 1")
    case True
    let ?dp = "no_prefix\<lparr>dp_db := Disamb d, dp_hasDb := True, dp_pb := Prefix d, dp_typ := x, dp_hasPb := True\<rparr>"
    have b: "iface_prefix ii d x @ rest = 0 # Disamb d @ WithTyp3 (Prefix d) x @ rest" "length (iface_prefix ii d x) = 8"
      using True p by (auto simp: iface_prefix_def)
    have "DecodeDisambPrefixBytes (iface_prefix ii d x @ rest) = (?dp, length (iface_prefix ii d x), None)"
      unfolding b using p sp by (simp add: DecodeDisambPrefixBytes_def nth_append)
    then show thesis
      by (rule that) (simp_all add: no_prefix_def getTypeInfoFromDisfix_rlock_def GetDisfix_def [symmetric] co)
  next
    case False
    let ?dp = "no_prefix\<lparr>dp_pb := Prefix d, dp_typ := x, dp_hasPb := True\<rparr>"
    have b: "iface_prefix ii d x = WithTyp3 (Prefix d) x" using False by (simp add: iface_prefix_def)
    have "DecodeDisambPrefixBytes (iface_prefix ii d x @ rest) = (?dp, length (iface_prefix ii d x), None)"
      unfolding b using p sp by (simp add: DecodeDisambPrefixBytes_def nth_append)
    moreover have "implementers_of impl cdc t (Prefix d) = [d]"
    proof -
      have "d \<in> set (implementers_of impl cdc t (Prefix d))" using d im by (simp add: implementers_of_def)
      moreover have "length (implementers_of impl cdc t (Prefix d)) \<le> 1" using False io by (simp add: iface_ok_def)
      ultimately show ?thesis by (cases "implementers_of impl cdc t (Prefix d)") auto
    qed
    ultimately show thesis
      by (intro that [of ?dp]) (simp_all add: no_prefix_def getTypeInfoFromPrefix_rlock_def impls_lookup [OF io])
  qed
qed

lemma carries_iface:
  assumes inv: "codec_inv impl cdc" and t: "is_iface t" and d: "d \<in> set (concreteInfos cdc)" "impl (APtr (c_Type d)) t"
    and v: "constructConcreteType d crv = (dt, dv)" "impl dt t" and x: "typeToTyp3 (c_Type d) opts = Some x"
    and c: "carries False impl cdc opts (c_Type d) crv bz" and info: "typeInfo cdc t = Some (Inr (IInfo ii))"
  shows "carries False impl cdc opts t (AVIface (Some (dt, dv))) (iface_prefix ii d x @ bz)"
proof (rule carriesI)
  show p: "\<not> is_ptr t" using t by (auto simp: is_ptr_def is_iface_def split: aty.splits)
  have z: "zero_of t = AVIface None" using t by (subst zero_of_under) (auto simp: is_iface_def split: aty.splits)
  note ii = typeInfo_IInfo [OF inv info, unfolded deref_ty_id [OF p]]
  note reg = typeInfo_registered [OF inv d(1)]
  have rd: "Registered d" "\<not> is_iface (c_Type d)"
    using inv d(1) by (simp_all add: codec_inv_def concrete_ok_def type_ok_def)
  have dt: "deref_ty dt = c_Type d" using v(1) reg(2) by (auto simp: constructConcreteType_def deref_ty_id split: if_splits)
  obtain u q where u: "derefPointers crv = (Some u, q, False)"
    and A: "\<And>k ca w. size u < k \<Longrightarrow> enc_at False cdc k (CInfo d) ca u opts w = Ret (None, w @ bz)"
    and B: "\<And>k rest. weight cdc (bz @ rest) (c_Type d) < k \<Longrightarrow>
      dec_at False impl cdc k (bz @ rest) (CInfo d) (c_Type d) (zero_of (c_Type d)) opts = Ret (crv, length bz, None)"
    using carriesD [OF c reg(1)] by metis
  obtain q' where dv: "derefPointers dv = (Some u, q', False)" "size u \<le> size dv"
    using v(1) u derefPointers_size [OF u] by (auto simp: constructConcreteType_def split: if_splits)
  have eq: "info' = IInfo ii" if "typeInfo cdc t = Some (Inr info')" for info' using info that by simp
  show "u_encodeReflectBinary (Suc k) cdc buffer info' ca (AVIface (Some (dt, dv))) opts w = Ret (None, w @ iface_prefix ii d x @ bz)"
    if i: "typeInfo cdc t = Some (Inr info')" and k: "size (AVIface (Some (dt, dv))) < Suc k" for info' k ca w
  proof -
    have "size u < k" using k dv(2) by simp
    from A [OF this] dv(1) reg(1) rd x dt eq [OF i] show ?thesis
      by (simp add: Let_def encodeReflectBinaryInterface_def iface_prefix_def buffer_def bind_w_def enc_at_def)
  qed
  show "u_decodeReflectBinary (Suc k) impl cdc ((iface_prefix ii d x @ bz) @ rest) info' t (zero_of t) opts =
      Ret (AVIface (Some (dt, dv)), length (iface_prefix ii d x @ bz), None)"
    if i: "typeInfo cdc t = Some (Inr info')" and k: "weight cdc ((iface_prefix ii d x @ bz) @ rest) t < Suc k" for info' k rest
  proof -
    obtain dp where dp: "DecodeDisambPrefixBytes (iface_prefix ii d x @ bz @ rest) = (dp, length (iface_prefix ii d x), None)"
      "\<not> dp_isNil dp" "dp_typ dp = x"
      "(if dp_hasDb dp then Some (getTypeInfoFromDisfix_rlock cdc (toDisfix (dp_db dp) (dp_pb dp)))
        else if dp_hasPb dp then getTypeInfoFromPrefix_rlock ii (dp_pb dp)
        else Some (Inl ''Expected disambiguation or prefix bytes.'')) = Some (Inr d)"
      using iface_prefix_decodes [OF inv ii(1) d, of x "bz @ rest"] typ3_small [OF x] by metis
    have "length (iface_prefix ii d x) > 0"
      using inv d(1) by (auto simp: iface_prefix_def WithTyp3_sel codec_inv_def concrete_ok_def prefix_ok_def)
    then have "weight cdc (bz @ rest) (c_Type d) < k" using weight_implementer [OF k _ d(1), of "bz @ rest"] by simp
    note b = B [OF this, unfolded dec_at_def if_False]
    show ?thesis
      using eq [OF i] p z dp b v ii(3) x
      by (simp add: Let_def through_ptrs_id decodeReflectBinaryInterface_def dstep_err_Ret dstep_Ret checkTyp3_def)
  qed
qed (use c in \<open>simp_all add: carries_def\<close>)

section \<open>Round trips\<close>

lemma all2_choice: "\<forall>x \<in> set xs. \<exists>y. P x y \<Longrightarrow> \<exists>ys. list_all2 P xs ys"
proof (induction xs)
  case (Cons x xs)
  then obtain y ys where "P x y" "list_all2 P xs ys" by auto
  then show ?case by (intro exI [of _ "y # ys"]) simp
qed (auto intro: exI [of _ "[]"])

lemma surv_prefix:
  assumes "codec_inv impl cdc" "surv impl cdc opts t v" "\<exists>bz. carries False impl cdc opts t v bz"
  shows "\<exists>bz. carries True impl cdc opts t v bz"
proof -
  obtain x where x: "typeToTyp3 (deref_ty t) opts = Some x" "is_ptr t \<longrightarrow> \<not> is_iface (deref_ty t)" using surv_typ [OF assms(2)] by auto
  obtain bz where "carries False impl cdc opts t v bz" using assms(3) ..
  from carries_prefix [OF assms(1) x this] show ?thesis .
qed

lemma surv_elems:
  assumes "codec_inv impl cdc"
    "\<forall>v \<in> set vs. (is_ptr e \<and> is_void v \<and> v = zero_of e) \<or>
      (\<not> (is_ptr e \<and> is_void v) \<and> surv impl cdc opts e v \<and> (\<exists>bz. carries False impl cdc opts e v bz))"
  shows "\<exists>bs. list_all2 (elem_carries impl cdc opts e) vs bs"
proof (rule all2_choice, rule ballI)
  fix v assume "v \<in> set vs"
  with assms(2) have v: "(is_ptr e \<and> is_void v \<and> v = zero_of e) \<or>
      (\<not> (is_ptr e \<and> is_void v) \<and> surv impl cdc opts e v \<and> (\<exists>bz. carries False impl cdc opts e v bz))" by blast
  then show "\<exists>b. elem_carries impl cdc opts e v b"
    using surv_prefix [OF assms(1), of opts e v] unfolding elem_carries_def by (cases "is_ptr e \<and> is_void v") auto
qed

lemma surv_fields:
  assumes "codec_inv impl cdc"
    "\<forall>f \<in> set infos. (is_void (vs ! FIndex f) \<and> vs ! FIndex f = zero_of (FType f)) \<or>
      (\<not> is_void (vs ! FIndex f) \<and> surv impl cdc (FOptions f) (FType f) (vs ! FIndex f) \<and>
        (\<exists>bz. carries False impl cdc (FOptions f) (FType f) (vs ! FIndex f) bz))"
  shows "\<exists>bs. list_all2 (field_carries impl cdc vs) infos bs"
proof (rule all2_choice, rule ballI)
  fix f assume "f \<in> set infos"
  with assms(2) have f: "(is_void (vs ! FIndex f) \<and> vs ! FIndex f = zero_of (FType f)) \<or>
      (\<not> is_void (vs ! FIndex f) \<and> surv impl cdc (FOptions f) (FType f) (vs ! FIndex f) \<and>
        (\<exists>bz. carries False impl cdc (FOptions f) (FType f) (vs ! FIndex f) bz))" by blast
  then show "\<exists>b. field_carries impl cdc vs f b"
    using surv_prefix [OF assms(1), of "FOptions f" "FType f" "vs ! FIndex f"] unfolding field_carries_def
    by (cases "is_void (vs ! FIndex f)") auto
qed

lemma surv_carries:
  assumes inv: "codec_inv impl cdc"
  shows "surv impl cdc opts t v \<Longrightarrow> \<exists>bz. carries False impl cdc opts t v bz"
proof (induction rule: surv.induct)
  case (ptr t e opts v)
  then show ?case using carries_ptr [OF inv] by blast
next
  case (slice t e vs einfo opts)
  obtain bs where "list_all2 (elem_carries impl cdc opts e) vs bs" using surv_elems [OF inv slice.IH] ..
  with slice.hyps carries_slice [OF inv] show ?case by blast
next
  case (array t n e vs einfo opts)
  obtain bs where "list_all2 (elem_carries impl cdc opts e) vs bs" using surv_elems [OF inv array.IH] ..
  with array.hyps carries_array [OF inv] show ?case by blast
next
  case (struct t fs infos vs opts)
  obtain bs where "list_all2 (field_carries impl cdc vs) infos bs" using surv_fields [OF inv struct.IH] ..
  with struct.hyps carries_struct [OF inv] show ?case by blast
next
  case (iface t d crv dt dv opts)
  show ?case
  proof (cases "\<exists>ii. typeInfo cdc t = Some (Inr (IInfo ii))")
    case True
    with iface carries_iface [OF inv] show ?thesis by blast
  next
    case False
    have "\<not> is_ptr t" using iface.hyps(1) by (auto simp: is_ptr_def is_iface_def split: aty.splits)
    then have "typeInfo cdc t \<noteq> Some (Inr info)" for info
      using False typeInfo_CInfo(2) [OF inv, of t] iface.hyps(1) by (cases info) (auto simp: deref_ty_id)
    moreover have "derefPointers (AVIface (Some (dt, dv))) = (Some (AVIface (Some (dt, dv))), False, False)" "[0 :: byte] \<noteq> []" by simp_all
    ultimately have "carries False impl cdc opts t (AVIface (Some (dt, dv))) [0]" unfolding carries_def by blast
    then show ?thesis ..
  qed
qed (use carries_basic [OF inv] carries_time [OF inv] carries_byte_slice [OF inv] carries_byte_array [OF inv]
    carries_nil_iface [OF inv] in blast)+

text \<open>C2. Round trip of go-amino's binary codec, for codecs whose registrations all succeeded. A value that survives, of a type the codec has information
  on, is encoded by \<open>MarshalBinaryBare\<close>, given itself or by a pointer, without an error or panic; and
  \<open>UnmarshalBinaryBare\<close> of the bytes, into a fresh target, gives exactly this value back.\<close>

theorem MarshalBinaryBare_roundtrip:
  assumes "codec_reach impl sha256 cdc" "surv impl cdc no_options t v" "typeInfo cdc t = Some (Inr info)"
  shows "\<exists>bz. MarshalBinaryBare cdc t v = Ret (Inr bz) \<and> MarshalBinaryBare cdc (APtr t) (AVPtr (Some v)) = Ret (Inr bz) \<and>
    UnmarshalBinaryBare impl cdc bz t (zero_of t) = Ret (v, None)"
proof -
  have inv: "codec_inv impl cdc" by (rule codec_reach_inv [OF assms(1)])
  obtain bz where "carries True impl cdc no_options t v bz"
    using surv_prefix [OF inv assms(2) surv_carries [OF inv assms(2)]] ..
  then obtain u p where u: "bz \<noteq> []" "derefPointers v = (Some u, p, False)"
    and A: "\<And>k ca w. size u < k \<Longrightarrow> enc_at True cdc k info ca u no_options w = Ret (None, w @ bz)"
    and B: "\<And>k rest. weight cdc (bz @ rest) t < k \<Longrightarrow> dec_at True impl cdc k (bz @ rest) info t (zero_of t) no_options = Ret (v, length bz, None)"
    using carriesD [OF _ assms(3)] by metis
  have "weight cdc (bz @ []) t < decode_fuel cdc t bz" by (simp add: decode_fuel_def)
  note b = B [OF this, unfolded dec_at_def if_True append_Nil2]
  have a: "encodeReflectBinary (u_encodeReflectBinary (Suc (size u)) cdc buffer) buffer info ca u no_options [] = Ret (None, bz)" for ca
    using A [of "Suc (size u)" ca "[]"] by (simp add: enc_at_def)
  have "typeInfo cdc (deref_ty t) = Some (Inr info)" using assms(3) typeInfo_deref by metis
  with a u have "MarshalBinaryBare cdc t v = Ret (Inr bz)" "MarshalBinaryBare cdc (APtr t) (AVPtr (Some v)) = Ret (Inr bz)"
    by (simp_all add: MarshalBinaryBare_def)
  with b u(1) assms(3) show ?thesis by (auto simp: UnmarshalBinaryBare_def)
qed

subsection \<open>The small codec\<close>

lemma sample_typeInfo:
  "typeInfo sample_cdc (AInterface ''I'') = Some (Inr (IInfo (the (ifaceInfos sample_cdc (AInterface ''I'')))))"
  by (simp add: getTypeInfo_wlock_def is_iface_def sample_cdc_sel Let_def)

lemma sample_concrete_typeInfo:
  "\<exists>d. typeInfo sample_cdc (ASlice (AInterface ''I'')) = Some (Inr d)" "\<exists>d. typeInfo sample_cdc AString = Some (Inr d)"
  by (simp_all add: getTypeInfo_wlock_def is_iface_def sample_cdc_sel newTypeInfoUnregistered_def is_ptr_def is_struct_def
      setTypeInfo_nolock_def Let_def sample_foo_def)

lemma sample_value_surv: "surv sample_impl sample_cdc opts sample_foo (AVStruct [AVString [65, 66]])"
proof (rule surv.struct [where infos = "[sample_field]"])
  show "under sample_foo = AStruct [(''A'', ('''', '''', ''''), True, AString)]" by (simp add: sample_foo_def)
  show "parse_fields 0 [(''A'', ('''', '''', ''''), True, AString)] [] = Some [sample_field]" by (rule sample_parse)
  show "\<forall>f \<in> set [sample_field]. \<exists>finfo. typeInfo sample_cdc (FType f) = Some (Inr finfo)"
    using sample_concrete_typeInfo(2) by (simp add: sample_field_def)
  have "surv sample_impl sample_cdc o' AString (AVString [65, 66])" for o'
    by (rule surv.basic) (simp add: basic_ok_def is_basic_def basic_ty_def)
  then show "\<forall>f \<in> set [sample_field]. (is_void ([AVString [65, 66]] ! FIndex f) \<and> [AVString [65, 66]] ! FIndex f = zero_of (FType f)) \<or>
      (\<not> is_void ([AVString [65, 66]] ! FIndex f) \<and> surv sample_impl sample_cdc (FOptions f) (FType f) ([AVString [65, 66]] ! FIndex f))"
    by (simp add: sample_field_def is_void_def isVoid_def)
qed (simp_all add: sample_field_def)

lemma sample_list_surv:
  "surv sample_impl sample_cdc no_options (ASlice (AInterface ''I''))
     (AVSlice [AVIface None, AVIface (Some (sample_foo, AVStruct [AVString [65, 66]]))])"
proof (rule surv.slice [where e = "AInterface ''I''"])
  have i: "is_iface (AInterface ''I'')" by (simp add: is_iface_def)
  have "surv sample_impl sample_cdc no_options (AInterface ''I'') (AVIface (Some (sample_foo, AVStruct [AVString [65, 66]])))"
    by (rule surv.iface [where d = sample_info and crv = "AVStruct [AVString [65, 66]]"])
      (use i sample_value_surv in \<open>simp_all add: sample_register(2) sample_impl_def constructConcreteType_def sample_info_def typeToTyp3_def sample_foo_def\<close>)
  then show "\<forall>v \<in> set [AVIface None, AVIface (Some (sample_foo, AVStruct [AVString [65, 66]]))].
      (is_ptr (AInterface ''I'') \<and> is_void v \<and> v = zero_of (AInterface ''I'')) \<or>
      (\<not> (is_ptr (AInterface ''I'') \<and> is_void v) \<and> surv sample_impl sample_cdc no_options (AInterface ''I'') v)"
    using surv.nil_iface [OF i] by (simp add: is_ptr_def)
qed (simp_all add: is_byte_def sample_typeInfo typeToTyp4_def typeToTyp3_def)

theorem MarshalBinaryBare_roundtrip_witness:
  "\<exists>bz. MarshalBinaryBare sample_cdc (ASlice (AInterface ''I''))
       (AVSlice [AVIface None, AVIface (Some (sample_foo, AVStruct [AVString [65, 66]]))]) = Ret (Inr bz) \<and>
     UnmarshalBinaryBare sample_impl sample_cdc bz (ASlice (AInterface ''I'')) (AVSlice []) =
       Ret (AVSlice [AVIface None, AVIface (Some (sample_foo, AVStruct [AVString [65, 66]]))], None)"
proof -
  obtain info where "typeInfo sample_cdc (ASlice (AInterface ''I'')) = Some (Inr info)" using sample_concrete_typeInfo(1) by blast
  from MarshalBinaryBare_roundtrip [OF sample_reach sample_list_surv this] show ?thesis by (simp add: is_byte_def) blast
qed

section \<open>Panics\<close>

lemma foreign_disfix_panics:
  assumes inv: "codec_inv impl cdc" and d: "d \<in> set (concreteInfos cdc)" and it: "ifaceInfos cdc it = Some ii"
    and s: "surv impl cdc no_options (c_Type d) crv" and im: "\<not> impl (set_type d) it"
  shows "\<exists>bz. UnmarshalBinaryBare impl cdc bz it (AVIface None) = Crash"
proof -
  have io: "i_Type ii = it" "is_iface it" using inv it by (auto simp: codec_inv_def iface_ok_def)
  have p: "\<not> is_ptr it" using io(2) by (auto simp: is_ptr_def is_iface_def split: aty.splits)
  have info: "typeInfo cdc it = Some (Inr (IInfo ii))" using it io(2) p by (simp add: getTypeInfo_wlock_def deref_ty_id Let_def)
  note reg = typeInfo_registered [OF inv d]
  obtain x where x: "typeToTyp3 (c_Type d) no_options = Some x" using surv_typ [OF s] reg(2) by (auto simp: deref_ty_id)
  obtain b where c: "carries False impl cdc no_options (c_Type d) crv b" using surv_carries [OF inv s] ..
  have R: "\<And>k rest. weight cdc (b @ rest) (c_Type d) < k \<Longrightarrow>
      dec_at False impl cdc k (b @ rest) (CInfo d) (c_Type d) (zero_of (c_Type d)) no_options = Ret (crv, length b, None)"
    using carriesD [OF c reg(1)] by metis
  have B: "u_decodeReflectBinary k impl cdc b (CInfo d) (c_Type d) (zero_of (c_Type d)) no_options = Ret (crv, length b, None)"
    if "weight cdc b (c_Type d) < k" for k
    using R [of "[]" k] that by (simp add: dec_at_def)
  have co: "disamb_ok (Disamb d)" "prefix_ok (Prefix d)" "disfixToTypeInfo cdc (toDisfix (Disamb d) (Prefix d)) = Some d"
    using inv d by (simp_all add: codec_inv_def concrete_ok_def GetDisfix_def)
  define bz where "bz = 0 # Disamb d @ WithTyp3 (Prefix d) x @ b"
  have l: "length (WithTyp3 (Prefix d) x) = 4" "length (Disamb d) = 3" "Disamb d ! 0 \<noteq> 0"
    using co(1, 2) by (auto simp: prefix_ok_def disamb_ok_def WithTyp3_sel)
  have dp: "DecodeDisambPrefixBytes bz =
      (no_prefix\<lparr>dp_db := Disamb d, dp_hasDb := True, dp_pb := Prefix d, dp_typ := x, dp_hasPb := True\<rparr>, 8, None)"
    using l SplitTyp3_WithTyp3 [OF co(2)] typ3_small [OF x] by (simp add: bz_def DecodeDisambPrefixBytes_def nth_append)
  have k: "weight cdc b (c_Type d) < length bz * Suc (max_size cdc) + size it"
    by (rule weight_implementer [OF _ _ d, of bz it]) (simp_all add: bz_def)
  have db: "drop 8 bz = b" "8 \<le> length bz" using l by (simp_all add: bz_def)
  let ?k = "length bz * Suc (max_size cdc) + size it"
  have "decodeReflectBinaryInterface (u_decodeReflectBinary ?k impl cdc) impl cdc bz ii (AVIface None) no_options = Crash"
    using io(1) im db x B [OF k]
    by (cases "PointerPreferred d") (simp_all add: decodeReflectBinaryInterface_def dp dstep_err_Ret no_prefix_def
        getTypeInfoFromDisfix_rlock_def co(3) checkTyp3_def dstep_Ret constructConcreteType_def set_type_def del: mult_Suc_right)
  then have "u_decodeReflectBinary (Suc ?k) impl cdc bz (IInfo ii) it (AVIface None) no_options = Crash"
    by (simp only: u_decodeReflectBinary.simps Let_def through_ptrs_id [OF p] p simp_thms if_False type_info.case)
  then have "UnmarshalBinaryBare impl cdc bz it (AVIface None) = Crash"
    using info p db by (auto simp: UnmarshalBinaryBare_def decodeReflectBinary_def decode_fuel_def dstep_def simp del: u_decodeReflectBinary.simps mult_Suc_right)
  then show ?thesis ..
qed

text \<open>C40. Panics and stale fields of the decoder, with a codec whose registrations all succeeded. Bytes whose prefix is not the one of a registered target
  type make \<open>UnmarshalBinaryBare\<close> panic instead of returning an error; so does every input for a pointer to
  an interface, and an interface value that names, by its disambiguation bytes, a registered type that does
  not implement the interface. A field that was empty when it was encoded keeps the old value of the target
  if no later field was encoded.\<close>

theorem UnmarshalBinaryBare_defects:
  assumes "codec_reach impl sha256 cdc" "d \<in> set (concreteInfos cdc)" "ifaceInfos cdc it = Some ii"
    "4 \<le> length bz" "fst (SplitTyp3 (take 4 bz)) \<noteq> Prefix d"
    "surv impl cdc no_options (c_Type d) crv" "\<not> impl (set_type d) it"
  shows "UnmarshalBinaryBare impl cdc bz (c_Type d) rv = Crash \<and>
    UnmarshalBinaryBare impl cdc bz (APtr it) rv' = Crash \<and>
    (\<exists>bz'. UnmarshalBinaryBare impl cdc bz' it (AVIface None) = Crash) \<and>
    MarshalBinaryBare NewCodec (AStruct [(''A'', ('''', '''', ''''), True, AString)]) (AVStruct [AVString []]) = Ret (Inr [4]) \<and>
    UnmarshalBinaryBare impl NewCodec [4] (AStruct [(''A'', ('''', '''', ''''), True, AString)]) (AVStruct [AVString s]) =
      Ret (AVStruct [AVString s], None)"
proof (intro conjI)
  have inv: "codec_inv impl cdc" by (rule codec_reach_inv [OF assms(1)])
  note reg = typeInfo_registered [OF inv assms(2)]
  have rd: "Registered d" using inv assms(2) by (simp add: codec_inv_def concrete_ok_def)
  show "UnmarshalBinaryBare impl cdc bz (c_Type d) rv = Crash"
    using reg rd assms(4, 5) by (auto simp: UnmarshalBinaryBare_def decodeReflectBinary_def split: prod.splits)
  have io: "i_Type ii = it" "is_iface it" using inv assms(3) by (auto simp: codec_inv_def iface_ok_def)
  have p: "\<not> is_ptr it" "is_ptr (APtr it)" using io(2) by (auto simp: is_ptr_def is_iface_def split: aty.splits)
  have "typeInfo cdc (APtr it) = Some (Inr (IInfo ii))" using assms(3) io(2) p by (simp add: getTypeInfo_wlock_def deref_ty_id Let_def)
  with io p assms(4) show "UnmarshalBinaryBare impl cdc bz (APtr it) rv' = Crash"
    by (auto simp: UnmarshalBinaryBare_def decodeReflectBinary_def)
  show "\<exists>bz'. UnmarshalBinaryBare impl cdc bz' it (AVIface None) = Crash"
    by (rule foreign_disfix_panics [OF inv assms(2, 3, 6, 7)])
  let ?S = "AStruct [(''A'', ('''', '''', ''''), True, AString)]"
  let ?c = "\<lparr>c_Type = ?S, Registered = False, PointerPreferred = False, c_Name = '''', Disamb = [0, 0, 0], Prefix = [0, 0, 0, 0],
    Fields = [sample_field]\<rparr>"
  have S: "typeInfo NewCodec ?S = Some (Inr (CInfo ?c))"
    using sample_parse by (simp add: getTypeInfo_wlock_def NewCodec_def is_iface_def newTypeInfoUnregistered_def is_ptr_def is_struct_def
        parseStructInfo_def setTypeInfo_nolock_def Let_def)
  show "MarshalBinaryBare NewCodec ?S (AVStruct [AVString []]) = Ret (Inr [4])"
    using S by (simp add: MarshalBinaryBare_def encodeReflectBinary_def encode_kind_def encodeReflectBinaryStruct_def sample_field_def
        isVoid_def bind_w_def EncodeByte_def EncodeUvarint_def Typ3_StructTerm_def PutUvarint_small buffer_def Let_def)
  obtain i where "typeInfo NewCodec AString = Some (Inr i)"
    by (simp add: getTypeInfo_wlock_def NewCodec_def is_iface_def newTypeInfoUnregistered_def is_ptr_def is_struct_def
        setTypeInfo_nolock_def Let_def)
  with S term_key [of "[]"] show "UnmarshalBinaryBare impl NewCodec [4] ?S (AVStruct [AVString s]) = Ret (AVStruct [AVString s], None)"
    by (simp add: UnmarshalBinaryBare_def decodeReflectBinary_def decode_fuel_def is_iface_def Let_def decode_kind_def
        decodeReflectBinaryStruct_def sample_field_def decode_term_4 dstep_Ret)
qed

text \<open>A second interface that the struct does not implement.\<close>

definition sample_cdc2 :: codec where
  "sample_cdc2 = fst (RegisterInterface sample_impl sample_sha (APtr (AInterface ''J'')) None sample_cdc)"

lemma sample_cdc2_reach: "codec_reach sample_impl sample_sha sample_cdc2"
  unfolding sample_cdc2_def by (rule codec_reach.iface [OF sample_reach])

lemma sample_cdc2_sel:
  "concreteInfos sample_cdc2 = [sample_info]" "typeInfos sample_cdc2 = [sample_foo \<mapsto> sample_info]"
  "ifaceInfos sample_cdc2 (AInterface ''J'') = Some \<lparr>i_Type = AInterface ''J'', Priority = [], AlwaysDisambiguate = False, Implementers = []\<rparr>"
  by (simp_all add: sample_cdc2_def RegisterInterface_def getTypeFromPointer_def newTypeInfoFromInterfaceType_def is_iface_def
      collectImplementers_nolock_def checkConflictsInPrio_nolock_def setInterfaceInfo_nolock_def sample_register(2) sample_cdc_sel sample_impl_def)

lemma sample_cdc2_surv: "surv sample_impl sample_cdc2 opts sample_foo (AVStruct [AVString []])"
proof (rule surv.struct [where infos = "[sample_field]"])
  show "under sample_foo = AStruct [(''A'', ('''', '''', ''''), True, AString)]" by (simp add: sample_foo_def)
  show "parse_fields 0 [(''A'', ('''', '''', ''''), True, AString)] [] = Some [sample_field]" by (rule sample_parse)
  show "\<forall>f \<in> set [sample_field]. \<exists>finfo. typeInfo sample_cdc2 (FType f) = Some (Inr finfo)"
    by (simp add: sample_field_def getTypeInfo_wlock_def is_iface_def sample_cdc2_sel newTypeInfoUnregistered_def is_ptr_def is_struct_def
      setTypeInfo_nolock_def Let_def sample_foo_def)
qed (simp_all add: sample_field_def is_void_def isVoid_def)

theorem UnmarshalBinaryBare_defects_witness:
  "UnmarshalBinaryBare sample_impl sample_cdc2 [9, 9, 9, 9] sample_foo (AVStruct [AVString []]) = Crash \<and>
   UnmarshalBinaryBare sample_impl sample_cdc2 [9, 9, 9, 9] (APtr (AInterface ''J'')) (AVPtr None) = Crash \<and>
   (\<exists>bz. UnmarshalBinaryBare sample_impl sample_cdc2 bz (AInterface ''J'') (AVIface None) = Crash)"
proof -
  have "sample_info \<in> set (concreteInfos sample_cdc2)" "4 \<le> length [9 :: byte, 9, 9, 9]"
    "fst (SplitTyp3 (take 4 [9, 9, 9, 9])) \<noteq> Prefix sample_info" "surv sample_impl sample_cdc2 no_options (c_Type sample_info) (AVStruct [AVString []])"
    "\<not> sample_impl (set_type sample_info) (AInterface ''J'')"
    using sample_cdc2_surv by (simp_all add: sample_cdc2_sel SplitTyp3_def sample_info_def sample_impl_def)
  from UnmarshalBinaryBare_defects [OF sample_cdc2_reach this(1) sample_cdc2_sel(3) this(2-5), of "AVStruct [AVString []]" "AVPtr None" "[]"]
  show ?thesis by (simp add: sample_info_def)
qed

end
