(* ===== verification/Merkle.thy ===== *)
theory Merkle
  imports DbLaws AminoRoundtrip "HOL-Library.Product_Lexorder" "HOL-Library.Multiset"
begin

text \<open>
  The simple Merkle trees of \<^verbatim>\<open>src/tendermint/tmlibs/merkle\<close>: tree hashes
  (\<^verbatim>\<open>simple_tree.go\<close>), inclusion proofs with the linked nodes they are built from
  (\<^verbatim>\<open>simple_proof.go\<close>) and maps (\<^verbatim>\<open>simple_map.go\<close>, with the sorting of
  \<^verbatim>\<open>tmlibs/common/kvpair.go\<close>). The hash function (RIPEMD-160) is the parameter \<open>H\<close>; a
  \<^verbatim>\<open>Hasher\<close> is an item with a function \<open>hash\<close>. A slice that may be nil is an option.
\<close>

section \<open>Tree hashes\<close>

type_synonym slice = "bytes option"

definition content :: "slice \<Rightarrow> bytes" where
  "content s = (case s of None \<Rightarrow> [] | Some b \<Rightarrow> b)"

text \<open>The writer is always a hasher: the bytes written to it so far. It never returns an error, so the
  panics behind the error checks are not reached.\<close>

definition encodeUvarint :: "u64 \<Rightarrow> bytes \<Rightarrow> bytes" where
  "encodeUvarint i w = w @ PutUvarint i"

definition encodeByteSlice :: "bytes \<Rightarrow> bytes \<Rightarrow> bytes" where
  "encodeByteSlice bz w = encodeUvarint (of_nat (length bz)) w @ bz"

definition two_hashes :: "slice \<Rightarrow> slice \<Rightarrow> bytes" where
  "two_hashes l r = encodeByteSlice (content r) (encodeByteSlice (content l) [])"

definition SimpleHashFromTwoHashes :: "(bytes \<Rightarrow> bytes) \<Rightarrow> slice \<Rightarrow> slice \<Rightarrow> slice" where
  "SimpleHashFromTwoHashes H l r = Some (H (two_hashes l r))"

text \<open>The size of the left half: \<open>(len(hashes)+1)/2\<close>.\<close>

definition half :: "'a list \<Rightarrow> nat" where
  "half xs = (length xs + 1) div 2"

lemma half_less: "half (x # y # xs) < length (x # y # xs)" "0 < half (x # y # xs)"
  by (auto simp: half_def)

function SimpleHashFromHashes :: "(bytes \<Rightarrow> bytes) \<Rightarrow> slice list \<Rightarrow> slice" where
  "SimpleHashFromHashes H [] = None"
| "SimpleHashFromHashes H [h] = h"
| "SimpleHashFromHashes H (h # h' # hs) =
     SimpleHashFromTwoHashes H (SimpleHashFromHashes H (take (half (h # h' # hs)) (h # h' # hs)))
       (SimpleHashFromHashes H (drop (half (h # h' # hs)) (h # h' # hs)))"
  by pat_completeness auto
termination SimpleHashFromHashes
  by (relation "measure (\<lambda>(H, hs). length hs)") (auto simp: half_def)

definition SimpleHashFromBytes :: "(bytes \<Rightarrow> bytes) \<Rightarrow> bytes \<Rightarrow> slice" where
  "SimpleHashFromBytes H bz = Some (H bz)"

definition SimpleHashFromByteslices :: "(bytes \<Rightarrow> bytes) \<Rightarrow> bytes list \<Rightarrow> slice" where
  "SimpleHashFromByteslices H bzs = SimpleHashFromHashes H (map (SimpleHashFromBytes H) bzs)"

definition SimpleHashFromHashers :: "(bytes \<Rightarrow> bytes) \<Rightarrow> ('a \<Rightarrow> slice) \<Rightarrow> 'a list \<Rightarrow> slice" where
  "SimpleHashFromHashers H hash items = SimpleHashFromHashes H (map hash items)"

section \<open>Proofs\<close>

text \<open>Go's \<open>int\<close> has 64 bits.\<close>

definition wrap_int :: "int \<Rightarrow> int" where
  "wrap_int i = sint (of_int i :: u64)"

lemma wrap_int_range: "- (2 ^ 63) \<le> wrap_int i" "wrap_int i < 2 ^ 63"
  using sint_ge [of "of_int i :: u64"] sint_lt [of "of_int i :: u64"] by (simp_all add: wrap_int_def)

lemma wrap_int_id: "- (2 ^ 63) \<le> i \<Longrightarrow> i < 2 ^ 63 \<Longrightarrow> wrap_int i = i"
  by (simp add: wrap_int_def signed_of_int signed_take_bit_int_eq_self_iff)

lemma numLeft_less:
  assumes "1 < n" "l = wrap_int (n + 1) div 2"
  shows "l < n" "wrap_int (n - l) < n"
proof -
  show "l < n"
    using assms wrap_int_id [of "n + 1"] wrap_int_range [of "n + 1"] by (cases "n + 1 < 2 ^ 63") auto
  consider "n + 1 < 2 ^ 63" | "n = 2 ^ 63 - 1" | "2 ^ 63 \<le> n" by fastforce
  then show "wrap_int (n - l) < n"
  proof cases
    case 1
    then have "l = (n + 1) div 2" using assms wrap_int_id [of "n + 1"] by simp
    then show ?thesis using assms(1) 1 wrap_int_id [of "n - l"] by simp
  next
    case 2
    then have "l = - (2 ^ 62)" using assms(2) by (simp add: wrap_int_def)
    then show ?thesis using 2 by (simp add: wrap_int_def)
  next
    case 3
    then show ?thesis using wrap_int_range(2) [of "n - l"] by linarith
  qed
qed

text \<open>Indexing and slicing: \<open>innerHashes[:len(innerHashes)-1]\<close> is \<open>butlast\<close>.\<close>

function computeHashFromAunts :: "(bytes \<Rightarrow> bytes) \<Rightarrow> int \<Rightarrow> int \<Rightarrow> slice \<Rightarrow> slice list \<Rightarrow> slice" where
  "computeHashFromAunts H index n leafHash innerHashes =
     (if index \<ge> n \<or> index < 0 \<or> n \<le> 0 then None
      else if n = 1 then (if length innerHashes \<noteq> 0 then None else leafHash)
      else if length innerHashes = 0 then None
      else let numLeft = wrap_int (n + 1) div 2
           in if index < numLeft then
                (case computeHashFromAunts H index numLeft leafHash (butlast innerHashes) of
                   None \<Rightarrow> None
                 | Some h \<Rightarrow> SimpleHashFromTwoHashes H (Some h) (last innerHashes))
              else
                (case computeHashFromAunts H (wrap_int (index - numLeft)) (wrap_int (n - numLeft)) leafHash (butlast innerHashes) of
                   None \<Rightarrow> None
                 | Some h \<Rightarrow> SimpleHashFromTwoHashes H (last innerHashes) (Some h)))"
  by pat_completeness auto
termination computeHashFromAunts
proof (relation "measure (\<lambda>(H, index, n, leafHash, innerHashes). nat n)", goal_cases)
  case (2 H index n leafHash innerHashes l)
  then show ?case using numLeft_less(1) [of n l] by auto
next
  case (3 H index n leafHash innerHashes l)
  then show ?case using numLeft_less(2) [of n l] by auto
qed simp

declare computeHashFromAunts.simps [simp del]

text \<open>\<^verbatim>\<open>bytes.Equal\<close> does not tell nil from empty.\<close>

definition Verify :: "(bytes \<Rightarrow> bytes) \<Rightarrow> slice list \<Rightarrow> int \<Rightarrow> int \<Rightarrow> slice \<Rightarrow> slice \<Rightarrow> bool" where
  "Verify H aunts index n leafHash rootHash =
     (case computeHashFromAunts H index n leafHash aunts of None \<Rightarrow> False | Some h \<Rightarrow> h = content rootHash)"

subsection \<open>Construction\<close>

text \<open>The nodes of the tree are objects; a pointer is an index into the list of all nodes.\<close>

record SimpleProofNode =
  Hash :: slice
  Parent :: "nat option"
  Left :: "nat option"
  Right :: "nat option"

type_synonym nodes = "SimpleProofNode list"

definition new_node :: "slice \<Rightarrow> SimpleProofNode" where
  "new_node h = \<lparr>Hash = h, Parent = None, Left = None, Right = None\<rparr>"

text \<open>\<open>None\<close> is a loop that does not end, on nodes linked in a circle.\<close>

partial_function (option) FlattenAunts :: "nodes \<Rightarrow> nat option \<Rightarrow> slice list \<Rightarrow> slice list option" where
  "FlattenAunts st spn innerHashes =
     (case spn of
        None \<Rightarrow> Some innerHashes
      | Some a \<Rightarrow>
          (case Left (st ! a) of
             Some l \<Rightarrow> FlattenAunts st (Parent (st ! a)) (innerHashes @ [Hash (st ! l)])
           | None \<Rightarrow>
               (case Right (st ! a) of
                  Some r \<Rightarrow> FlattenAunts st (Parent (st ! a)) (innerHashes @ [Hash (st ! r)])
                | None \<Rightarrow> Some innerHashes)))"

text \<open>The four assignments after both halves are built; \<open>None\<close> is the panic on a nil root.\<close>

definition join_trails :: "(bytes \<Rightarrow> bytes) \<Rightarrow> nat list \<times> nat option \<Rightarrow> nat list \<times> nat option \<Rightarrow> nodes
    \<Rightarrow> (nat list \<times> nat option \<times> nodes) option" where
  "join_trails H left right st =
     (case (left, right) of
        ((lefts, Some l), (rights, Some r)) \<Rightarrow>
          (let root = length st;
               st = st @ [new_node (SimpleHashFromTwoHashes H (Hash (st ! l)) (Hash (st ! r)))];
               st = st[l := (st ! l)\<lparr>Parent := Some root, Right := Some r\<rparr>];
               st = st[r := (st ! r)\<lparr>Parent := Some root, Left := Some l\<rparr>]
           in Some (lefts @ rights, Some root, st))
      | _ \<Rightarrow> None)"

function trailsFromHashers :: "(bytes \<Rightarrow> bytes) \<Rightarrow> ('a \<Rightarrow> slice) \<Rightarrow> 'a list \<Rightarrow> nodes \<Rightarrow> (nat list \<times> nat option \<times> nodes) option" where
  "trailsFromHashers H hash [] st = Some ([], None, st)"
| "trailsFromHashers H hash [x] st = Some ([length st], Some (length st), st @ [new_node (hash x)])"
| "trailsFromHashers H hash (x # y # xs) st =
     (case trailsFromHashers H hash (take (half (x # y # xs)) (x # y # xs)) st of
        None \<Rightarrow> None
      | Some (lefts, leftRoot, st) \<Rightarrow>
          (case trailsFromHashers H hash (drop (half (x # y # xs)) (x # y # xs)) st of
             None \<Rightarrow> None
           | Some (rights, rightRoot, st) \<Rightarrow> join_trails H (lefts, leftRoot) (rights, rightRoot) st))"
  by pat_completeness auto
termination trailsFromHashers
  by (relation "measure (\<lambda>(H, hash, items, st). length items)") (auto simp: half_def)

text \<open>The root hash and the aunts of every proof. The root of no items is nil, and reading its hash panics.\<close>

definition SimpleProofsFromHashers :: "(bytes \<Rightarrow> bytes) \<Rightarrow> ('a \<Rightarrow> slice) \<Rightarrow> 'a list \<Rightarrow> (slice \<times> slice list list) run" where
  "SimpleProofsFromHashers H hash items =
     (case trailsFromHashers H hash items [] of
        Some (trails, Some root, st) \<Rightarrow>
          (case those (map (\<lambda>trail. FlattenAunts st (Some trail) []) trails) of
             None \<Rightarrow> NoFuel
           | Some proofs \<Rightarrow> Ret (Hash (st ! root), proofs))
      | _ \<Rightarrow> Crash)"

section \<open>Maps\<close>

text \<open>Key and value of a pair are kept as bytes: a nil hash is not told from an empty one.\<close>

type_synonym kv_pair = "bytes \<times> bytes"

definition Less :: "kv_pair \<Rightarrow> kv_pair \<Rightarrow> bool" where
  "Less a b =
     (if Compare (fst a) (fst b) = -1 then True
      else if Compare (fst a) (fst b) = 0 then Compare (snd a) (snd b) < 0
      else False)"

text \<open>\<^verbatim>\<open>sort.Sort\<close>: a permutation in the order of \<open>Less\<close>, here by insertion. There is only one
  (\<open>kvs_Sort_unique\<close>).\<close>

fun kv_insert :: "kv_pair \<Rightarrow> kv_pair list \<Rightarrow> kv_pair list" where
  "kv_insert x [] = [x]"
| "kv_insert x (y # ys) = (if Less y x then y # kv_insert x ys else x # y # ys)"

definition kvs_Sort :: "kv_pair list \<Rightarrow> kv_pair list" where
  "kvs_Sort kvs = foldr kv_insert kvs []"

record SimpleMap =
  kvs :: "kv_pair list"
  sorted_kvs :: bool

definition NewSimpleMap :: SimpleMap where
  "NewSimpleMap = \<lparr>kvs = [], sorted_kvs = False\<rparr>"

definition sm_Set :: "(bytes \<Rightarrow> bytes) \<Rightarrow> ('a \<Rightarrow> slice) \<Rightarrow> bytes \<Rightarrow> 'a \<Rightarrow> SimpleMap \<Rightarrow> SimpleMap" where
  "sm_Set H hash key val sm =
     sm\<lparr>sorted_kvs := False, kvs := kvs sm @ [(content (SimpleHashFromBytes H key), content (hash val))]\<rparr>"

definition sm_Sort :: "SimpleMap \<Rightarrow> SimpleMap" where
  "sm_Sort sm = (if sorted_kvs sm then sm else sm\<lparr>kvs := kvs_Sort (kvs sm), sorted_kvs := True\<rparr>)"

definition KVPair_Hash :: "(bytes \<Rightarrow> bytes) \<Rightarrow> kv_pair \<Rightarrow> slice" where
  "KVPair_Hash H kv = Some (H (encodeByteSlice (snd kv) (encodeByteSlice (fst kv) [])))"

definition hashKVPairs :: "(bytes \<Rightarrow> bytes) \<Rightarrow> kv_pair list \<Rightarrow> slice" where
  "hashKVPairs H ps = SimpleHashFromHashers H (KVPair_Hash H) ps"

definition sm_Hash :: "(bytes \<Rightarrow> bytes) \<Rightarrow> SimpleMap \<Rightarrow> slice \<times> SimpleMap" where
  "sm_Hash H sm = (let sm = sm_Sort sm in (hashKVPairs H (kvs sm), sm))"

definition sm_KVPairs :: "SimpleMap \<Rightarrow> kv_pair list \<times> SimpleMap" where
  "sm_KVPairs sm = (let sm = sm_Sort sm in (kvs sm, sm))"

text \<open>A Go map comes as the list of its entries in the order of one iteration, which is different each time.\<close>

definition SimpleHashFromMap :: "(bytes \<Rightarrow> bytes) \<Rightarrow> ('a \<Rightarrow> slice) \<Rightarrow> (bytes \<times> 'a) list \<Rightarrow> slice" where
  "SimpleHashFromMap H hash m = fst (sm_Hash H (fold (\<lambda>(k, v). sm_Set H hash k v) m NewSimpleMap))"

definition SimpleProofsFromMap :: "(bytes \<Rightarrow> bytes) \<Rightarrow> ('a \<Rightarrow> slice) \<Rightarrow> (bytes \<times> 'a) list \<Rightarrow> (slice \<times> slice list list) run" where
  "SimpleProofsFromMap H hash m =
     SimpleProofsFromHashers H (KVPair_Hash H) (kvs (sm_Sort (fold (\<lambda>(k, v). sm_Set H hash k v) m NewSimpleMap)))"

section \<open>Aunts\<close>

text \<open>The hashes a proof of item \<open>i\<close> needs, from the leaf to the root.\<close>

function aunts :: "(bytes \<Rightarrow> bytes) \<Rightarrow> slice list \<Rightarrow> nat \<Rightarrow> slice list" where
  "aunts H hs i =
     (if length hs \<le> 1 then []
      else if i < half hs then aunts H (take (half hs) hs) i @ [SimpleHashFromHashes H (drop (half hs) hs)]
      else aunts H (drop (half hs) hs) (i - half hs) @ [SimpleHashFromHashes H (take (half hs) hs)])"
  by pat_completeness auto
termination aunts
  by (relation "measure (\<lambda>(H, hs, i). length hs)") (auto simp: half_def)

declare aunts.simps [simp del]

lemma half_range: "1 < length xs \<Longrightarrow> 0 < half xs \<and> half xs < length xs"
  by (auto simp: half_def)

lemma SimpleHashFromHashes_split:
  "1 < length hs \<Longrightarrow> SimpleHashFromHashes H hs =
     SimpleHashFromTwoHashes H (SimpleHashFromHashes H (take (half hs) hs)) (SimpleHashFromHashes H (drop (half hs) hs))"
  by (cases "(H, hs)" rule: SimpleHashFromHashes.cases) auto

lemma halves_length:
  "1 < length hs \<Longrightarrow> length (take (half hs) hs) = half hs" "1 < length hs \<Longrightarrow> length (drop (half hs) hs) = length hs - half hs"
  by (auto simp: half_def)

lemma numLeft_half:
  assumes "int (length hs) < 2 ^ 63 - 1"
  shows "wrap_int (int (length hs) + 1) div 2 = int (half hs)"
  using assms wrap_int_id [of "int (length hs) + 1"] by (simp add: half_def zdiv_int)

lemma compute_left:
  assumes "1 < length hs" "int (length hs) < 2 ^ 63 - 1" "i < half hs"
  shows "computeHashFromAunts H (int i) (int (length hs)) leaf (as @ [a]) =
    (case computeHashFromAunts H (int i) (int (half hs)) leaf as of None \<Rightarrow> None | Some h \<Rightarrow> SimpleHashFromTwoHashes H (Some h) a)"
  using assms numLeft_half [OF assms(2)] half_range [OF assms(1)] by (subst computeHashFromAunts.simps) (auto simp: Let_def split: option.splits)

lemma compute_right:
  assumes "1 < length hs" "int (length hs) < 2 ^ 63 - 1" "half hs \<le> i" "i < length hs"
  shows "computeHashFromAunts H (int i) (int (length hs)) leaf (as @ [a]) =
    (case computeHashFromAunts H (int (i - half hs)) (int (length hs - half hs)) leaf as of None \<Rightarrow> None
     | Some h \<Rightarrow> SimpleHashFromTwoHashes H a (Some h))"
proof -
  have "wrap_int (int i - int (half hs)) = int (i - half hs)" "wrap_int (int (length hs) - int (half hs)) = int (length hs - half hs)"
    using assms half_range [OF assms(1)] wrap_int_id by auto
  then show ?thesis
    using assms numLeft_half [OF assms(2)] half_range [OF assms(1)] by (subst computeHashFromAunts.simps) (auto simp: Let_def split: option.splits)
qed

lemma compute_one: "computeHashFromAunts H 0 1 leaf as = (if as = [] then leaf else None)"
  by (subst computeHashFromAunts.simps) simp

lemma compute_aunts:
  "i < length hs \<Longrightarrow> int (length hs) < 2 ^ 63 - 1 \<Longrightarrow> hs ! i \<noteq> None \<Longrightarrow>
    computeHashFromAunts H (int i) (int (length hs)) (hs ! i) (aunts H hs i) = SimpleHashFromHashes H hs \<and> SimpleHashFromHashes H hs \<noteq> None"
proof (induction H hs i rule: aunts.induct)
  case (1 H hs i)
  let ?l = "take (half hs) hs" and ?r = "drop (half hs) hs"
  show ?case
  proof (cases "length hs \<le> 1")
    case True
    with 1 have i: "length hs = 1" "i = 0" by auto
    then obtain h where "hs = [h]" by (cases hs) auto
    with 1 i show ?thesis by (simp add: compute_one aunts.simps)
  next
    case False
    then have l: "1 < length hs" by simp
    note sp = SimpleHashFromHashes_split [OF l, of H] and hl = halves_length [OF l]
    show ?thesis
    proof (cases "i < half hs")
      case True
      have "computeHashFromAunts H (int i) (int (length ?l)) (?l ! i) (aunts H ?l i) = SimpleHashFromHashes H ?l \<and> SimpleHashFromHashes H ?l \<noteq> None"
        using 1 False True half_range [OF l] by (intro 1(1)) auto
      then show ?thesis
        using True l 1(4) hl compute_left [OF l 1(4) True, of H "hs ! i" "aunts H ?l i"]
        by (subst aunts.simps) (auto simp: sp SimpleHashFromTwoHashes_def split: option.splits)
    next
      case ge: False
      have "computeHashFromAunts H (int (i - half hs)) (int (length ?r)) (?r ! (i - half hs)) (aunts H ?r (i - half hs)) = SimpleHashFromHashes H ?r \<and>
          SimpleHashFromHashes H ?r \<noteq> None"
        using 1 False ge half_range [OF l] by (intro 1(2)) auto
      then show ?thesis
        using ge l 1(3, 4) hl compute_right [OF l 1(4) _ 1(3), of H "hs ! i" "aunts H ?r (i - half hs)"]
        by (subst aunts.simps) (auto simp: sp SimpleHashFromTwoHashes_def split: option.splits)
    qed
  qed
qed

section \<open>Trails\<close>

text \<open>\<open>S\<close> has the nodes of \<open>st\<close> from \<open>lo\<close> on, where the links of the root may have changed.\<close>

definition agree :: "nodes \<Rightarrow> nodes \<Rightarrow> nat \<Rightarrow> nat \<Rightarrow> bool" where
  "agree S st lo root \<longleftrightarrow> (\<forall>a. lo \<le> a \<longrightarrow> a < length st \<longrightarrow> a \<noteq> root \<longrightarrow> S ! a = st ! a) \<and> Hash (S ! root) = Hash (st ! root)"

text \<open>What the construction adds to \<open>st\<close>: a root and, for every item, a leaf from which the walk up to the
  root collects the aunts.\<close>

definition trails_ok :: "(bytes \<Rightarrow> bytes) \<Rightarrow> slice list \<Rightarrow> nodes \<Rightarrow> nat list \<Rightarrow> nat \<Rightarrow> nodes \<Rightarrow> bool" where
  "trails_ok H hs st trails root st' \<longleftrightarrow>
     length st \<le> root \<and> root < length st' \<and> (\<forall>a < length st. st' ! a = st ! a) \<and>
     st' ! root = new_node (SimpleHashFromHashes H hs) \<and> length trails = length hs \<and>
     (\<forall>i < length hs. \<forall>S acc. agree S st' (length st) root \<longrightarrow>
        FlattenAunts S (Some (trails ! i)) acc = FlattenAunts S (Some root) (acc @ aunts H hs i))"

lemma trails_okD:
  assumes "trails_ok H hs st trails root st'"
  shows "length st \<le> root" "root < length st'" "\<And>a. a < length st \<Longrightarrow> st' ! a = st ! a" "st' ! root = new_node (SimpleHashFromHashes H hs)"
    "length trails = length hs"
    "\<And>i S acc. i < length hs \<Longrightarrow> agree S st' (length st) root \<Longrightarrow>
      FlattenAunts S (Some (trails ! i)) acc = FlattenAunts S (Some root) (acc @ aunts H hs i)"
  using assms by (simp_all add: trails_ok_def)

lemma flatten_left: "Left (st ! a) = Some l \<Longrightarrow> FlattenAunts st (Some a) acc = FlattenAunts st (Parent (st ! a)) (acc @ [Hash (st ! l)])"
  by (subst FlattenAunts.simps) simp

lemma flatten_right:
  "Left (st ! a) = None \<Longrightarrow> Right (st ! a) = Some r \<Longrightarrow>
   FlattenAunts st (Some a) acc = FlattenAunts st (Parent (st ! a)) (acc @ [Hash (st ! r)])"
  by (subst FlattenAunts.simps) simp

lemma flatten_root: "st ! a = new_node h \<Longrightarrow> FlattenAunts st (Some a) acc = Some acc"
  by (subst FlattenAunts.simps) (simp add: new_node_def)

lemma join_ok:
  assumes n: "1 < length hs" and L: "trails_ok H (take (half hs) hs) st lefts l st1" and R: "trails_ok H (drop (half hs) hs) st1 rights r st2"
  shows "\<exists>st'. join_trails H (lefts, Some l) (rights, Some r) st2 = Some (lefts @ rights, Some (length st2), st') \<and>
    trails_ok H hs st (lefts @ rights) (length st2) st'"
proof -
  let ?L = "SimpleHashFromHashes H (take (half hs) hs)" and ?R = "SimpleHashFromHashes H (drop (half hs) hs)" and ?root = "length st2"
  let ?ln = "\<lparr>Hash = ?L, Parent = Some ?root, Left = None, Right = Some r\<rparr>" and ?rn = "\<lparr>Hash = ?R, Parent = Some ?root, Left = Some l, Right = None\<rparr>"
  define st' where "st' = ((st2 @ [new_node (SimpleHashFromHashes H hs)])[l := ?ln])[r := ?rn]"
  note l = trails_okD [OF L] and r = trails_okD [OF R]
  have lr: "l < r" "r < ?root" "l < ?root" "length st1 \<le> length st2" using l(2) r(1, 2) by simp_all
  have l2: "st2 ! l = new_node ?L" using r(3) [OF l(2)] l(4) by simp
  have "join_trails H (lefts, Some l) (rights, Some r) st2 = Some (lefts @ rights, Some ?root, st')"
    using lr l2 r(4) SimpleHashFromHashes_split [OF n, of H]
    by (simp add: join_trails_def Let_def st'_def nth_append new_node_def)
  moreover have at: "st' ! ?root = new_node (SimpleHashFromHashes H hs)" "st' ! l = ?ln" "st' ! r = ?rn" "length st' = Suc ?root"
    "\<And>a. a < ?root \<Longrightarrow> a \<noteq> l \<Longrightarrow> a \<noteq> r \<Longrightarrow> st' ! a = st2 ! a"
    using lr by (simp_all add: st'_def nth_list_update nth_append)
  have "trails_ok H hs st (lefts @ rights) ?root st'"
    unfolding trails_ok_def
  proof (intro conjI allI impI)
    show "length st \<le> ?root" "?root < length st'" "st' ! ?root = new_node (SimpleHashFromHashes H hs)" using l(1, 2) lr at by simp_all
    show "length (lefts @ rights) = length hs" using l(5) r(5) by simp
    show "st' ! a = st ! a" if "a < length st" for a using that l(1-3) r(3) at(5) lr by simp
    show "FlattenAunts S (Some ((lefts @ rights) ! i)) acc = FlattenAunts S (Some ?root) (acc @ aunts H hs i)"
      if i: "i < length hs" and ag: "agree S st' (length st) ?root" for i S acc
    proof -
      have S: "S ! a = st' ! a" if "length st \<le> a" "a < ?root" for a using ag that at(4) by (auto simp: agree_def)
      have ends: "S ! l = ?ln" "S ! r = ?rn" using S l(1) lr at(2, 3) by simp_all
      have gl: "agree S st1 (length st) l" unfolding agree_def using S at(5) r(1, 3) ends l(4) lr by (auto simp: new_node_def)
      have gr: "agree S st2 (length st1) r" unfolding agree_def using S at(5) ends r(4) lr l(1, 2) by (auto simp: new_node_def)
      have h: "half hs < length hs" using half_range [OF n] by simp
      show ?thesis
      proof (cases "i < half hs")
        case True
        have "FlattenAunts S (Some (lefts ! i)) acc = FlattenAunts S (Some l) (acc @ aunts H (take (half hs) hs) i)"
          using l(6) [OF _ gl] True h by simp
        also have "\<dots> = FlattenAunts S (Some ?root) (acc @ aunts H hs i)"
          using True n ends flatten_right [of S l r] by (subst (2) aunts.simps) simp
        finally show ?thesis using True h l(5) by (simp add: nth_append)
      next
        case False
        have "FlattenAunts S (Some (rights ! (i - half hs))) acc = FlattenAunts S (Some r) (acc @ aunts H (drop (half hs) hs) (i - half hs))"
          using r(6) [OF _ gr] False i by simp
        also have "\<dots> = FlattenAunts S (Some ?root) (acc @ aunts H hs i)"
          using False n ends flatten_left [of S r l] by (subst (2) aunts.simps) simp
        finally show ?thesis using False h l(5) by (simp add: nth_append)
      qed
    qed
  qed
  ultimately show ?thesis by blast
qed

lemma trailsFromHashers_ok:
  "items \<noteq> [] \<Longrightarrow> \<exists>trails root st'. trailsFromHashers H hash items st = Some (trails, Some root, st') \<and>
    trails_ok H (map hash items) st trails root st'"
proof (induction H hash items st rule: trailsFromHashers.induct)
  case (2 H hash x st)
  then show ?case by (auto simp: trails_ok_def nth_append aunts.simps)
next
  case (3 H hash x y xs st)
  let ?xs = "x # y # xs"
  have h: "half (map hash ?xs) = half ?xs" by (simp add: half_def)
  have ne: "take (half ?xs) ?xs \<noteq> []" "drop (half ?xs) ?xs \<noteq> []" using half_less [of x y xs] by auto
  obtain lefts l st1 where L: "trailsFromHashers H hash (take (half ?xs) ?xs) st = Some (lefts, Some l, st1)"
    "trails_ok H (take (half (map hash ?xs)) (map hash ?xs)) st lefts l st1"
    using 3(1) [OF ne(1)] unfolding h take_map by blast
  obtain rights r st2 where R: "trailsFromHashers H hash (drop (half ?xs) ?xs) st1 = Some (rights, Some r, st2)"
    "trails_ok H (drop (half (map hash ?xs)) (map hash ?xs)) st1 rights r st2"
    using 3(2) [OF L(1) refl refl ne(2)] unfolding h drop_map by blast
  have "1 < length (map hash ?xs)" by simp
  moreover have "trailsFromHashers H hash ?xs st = join_trails H (lefts, Some l) (rights, Some r) st2"
    by (simp only: trailsFromHashers.simps L(1) R(1) option.case prod.case)
  ultimately show ?case using join_ok [OF _ L(2) R(2)] by simp blast
qed simp

lemma those_map_Some: "(\<And>x. x \<in> set xs \<Longrightarrow> f x = Some (g x)) \<Longrightarrow> those (map f xs) = Some (map g xs)"
  by (induction xs) auto

lemma SimpleProofsFromHashers_aunts:
  assumes "items \<noteq> []"
  shows "SimpleProofsFromHashers H hash items =
    Ret (SimpleHashFromHashers H hash items, map (aunts H (map hash items)) [0..<length items])"
proof -
  obtain trails root st where t: "trailsFromHashers H hash items [] = Some (trails, Some root, st)"
    and ok: "trails_ok H (map hash items) [] trails root st"
    using trailsFromHashers_ok [OF assms] by blast
  note o = trails_okD [OF ok]
  have "FlattenAunts st (Some (trails ! i)) [] = Some (aunts H (map hash items) i)" if "i < length items" for i
    using o(6) [of i st "[]"] that flatten_root [OF o(4)] by (simp add: agree_def)
  then have "those (map (\<lambda>i. FlattenAunts st (Some (trails ! i)) []) [0..<length items]) = Some (map (aunts H (map hash items)) [0..<length items])"
    by (intro those_map_Some) simp
  moreover have "map (\<lambda>trail. FlattenAunts st (Some trail) []) trails = map (\<lambda>i. FlattenAunts st (Some (trails ! i)) []) [0..<length items]"
    using o(5) by (intro nth_equalityI) simp_all
  ultimately show ?thesis
    using t o(4) by (simp add: SimpleProofsFromHashers_def SimpleHashFromHashers_def new_node_def)
qed

text \<open>C10. Merkle proofs are complete. For items whose hashes are not nil \<open>SimpleProofsFromHashers\<close> returns the
  same root hash as \<open>SimpleHashFromHashers\<close> and one proof for every item, which \<open>Verify\<close> accepts for the
  index, the number of items, the item's hash and the root. For no items it panics, while
  \<open>SimpleHashFromHashers\<close> returns nil.\<close>

theorem proofs_complete:
  assumes "items \<noteq> []" "length items < 2 ^ 63 - 1" "\<forall>x \<in> set items. hash x \<noteq> None"
  shows "\<exists>proofs. SimpleProofsFromHashers H hash items = Ret (SimpleHashFromHashers H hash items, proofs) \<and>
    length proofs = length items \<and>
    (\<forall>i < length items. Verify H (proofs ! i) (int i) (int (length items)) (hash (items ! i)) (SimpleHashFromHashers H hash items)) \<and>
    SimpleProofsFromHashers H hash [] = Crash \<and> SimpleHashFromHashers H hash [] = None"
proof (intro exI conjI allI impI)
  show "SimpleProofsFromHashers H hash items =
      Ret (SimpleHashFromHashers H hash items, map (aunts H (map hash items)) [0..<length items])"
    by (rule SimpleProofsFromHashers_aunts [OF assms(1)])
  fix i assume i: "i < length items"
  have "int (length (map hash items)) < 2 ^ 63 - 1" using assms(2) by simp
  then have "computeHashFromAunts H (int i) (int (length items)) (hash (items ! i)) (aunts H (map hash items) i) =
      SimpleHashFromHashers H hash items \<and> SimpleHashFromHashers H hash items \<noteq> None"
    using compute_aunts [of i "map hash items" H] assms(3) i by (simp add: SimpleHashFromHashers_def)
  then show "Verify H (map (aunts H (map hash items)) [0..<length items] ! i) (int i) (int (length items)) (hash (items ! i))
      (SimpleHashFromHashers H hash items)"
    using i by (auto simp: Verify_def content_def)
qed (simp_all add: SimpleProofsFromHashers_def SimpleHashFromHashers_def)

theorem proofs_complete_witness:
  "\<exists>proofs. SimpleProofsFromHashers (\<lambda>x. take 20 x) Some [[1], [2], [3 :: byte]] =
      Ret (SimpleHashFromHashers (\<lambda>x. take 20 x) Some [[1], [2], [3]], proofs) \<and>
    Verify (\<lambda>x. take 20 x) (proofs ! 2) 2 3 (Some [3]) (SimpleHashFromHashers (\<lambda>x. take 20 x) Some [[1], [2], [3]])"
proof -
  obtain proofs where p: "SimpleProofsFromHashers (\<lambda>x. take 20 x) Some [[1], [2], [3 :: byte]] =
      Ret (SimpleHashFromHashers (\<lambda>x. take 20 x) Some [[1], [2], [3]], proofs)"
    "\<forall>i < length [[1], [2], [3 :: byte]]. Verify (\<lambda>x. take 20 x) (proofs ! i) (int i) (int (length [[1], [2], [3 :: byte]]))
      (Some ([[1], [2], [3]] ! i)) (SimpleHashFromHashers (\<lambda>x. take 20 x) Some [[1], [2], [3]])"
    using proofs_complete [of "[[1], [2], [3 :: byte]]" Some "\<lambda>x. take 20 x"] by auto
  from p(2) [rule_format, of 2] p(1) show ?thesis by (intro exI [of _ proofs]) simp
qed

section \<open>Soundness of proofs\<close>

lemma PutUvarint_append_eq: "PutUvarint u @ xs = PutUvarint v @ ys \<Longrightarrow> u = v \<and> xs = ys"
  using Uvarint_PutUvarint [of u xs] Uvarint_PutUvarint [of v ys] by auto

lemma encodeByteSlice_eq:
  assumes "length a < 2 ^ 64" "length b < 2 ^ 64" "PutUvarint (of_nat (length a)) @ a @ xs = PutUvarint (of_nat (length b)) @ b @ ys"
  shows "a = b \<and> xs = ys"
proof -
  have e: "(of_nat (length a) :: u64) = of_nat (length b)" "a @ xs = b @ ys" using PutUvarint_append_eq [OF assms(3)] by simp_all
  have u: "unat (of_nat n :: u64) = n" if "n < 2 ^ 64" for n using that by (simp add: unat_of_nat)
  have "length a = length b" using arg_cong [OF e(1), of unat] unfolding u [OF assms(1)] u [OF assms(2)] .
  then show ?thesis using e(2) by simp
qed

definition short :: "slice \<Rightarrow> bool" where
  "short s \<longleftrightarrow> length (content s) < 2 ^ 64"

lemma two_hashes_eq:
  assumes "two_hashes l r = two_hashes l' r'" "short l" "short r" "short l'" "short r'"
  shows "content l = content l'" "content r = content r'"
proof -
  have "PutUvarint (of_nat (length (content l))) @ content l @ PutUvarint (of_nat (length (content r))) @ content r @ [] =
      PutUvarint (of_nat (length (content l'))) @ content l' @ PutUvarint (of_nat (length (content r'))) @ content r' @ []"
    using assms(1) by (simp add: two_hashes_def encodeByteSlice_def encodeUvarint_def)
  from encodeByteSlice_eq [OF _ _ this] assms(2, 4)
  have 1: "content l = content l'" and 2: "PutUvarint (of_nat (length (content r))) @ content r @ [] = PutUvarint (of_nat (length (content r'))) @ content r' @ []"
    by (simp_all add: short_def)
  show "content l = content l'" by (rule 1)
  show "content r = content r'" using encodeByteSlice_eq [OF _ _ 2] assms(3, 5) by (simp add: short_def)
qed

text \<open>The strings hashed when a tree is built and when a proof is checked.\<close>

function tree_inputs :: "(bytes \<Rightarrow> bytes) \<Rightarrow> slice list \<Rightarrow> bytes set" where
  "tree_inputs H hs =
     (if length hs \<le> 1 then {}
      else insert (two_hashes (SimpleHashFromHashes H (take (half hs) hs)) (SimpleHashFromHashes H (drop (half hs) hs)))
        (tree_inputs H (take (half hs) hs) \<union> tree_inputs H (drop (half hs) hs)))"
  by pat_completeness auto
termination tree_inputs
  by (relation "measure (\<lambda>(H, hs). length hs)") (auto simp: half_def)

function proof_inputs :: "(bytes \<Rightarrow> bytes) \<Rightarrow> nat \<Rightarrow> nat \<Rightarrow> slice \<Rightarrow> slice list \<Rightarrow> bytes set" where
  "proof_inputs H i n leaf as =
     (if n \<le> 1 \<or> as = [] then {}
      else let m = (n + 1) div 2
           in if i < m then insert (two_hashes (computeHashFromAunts H (int i) (int m) leaf (butlast as)) (last as)) (proof_inputs H i m leaf (butlast as))
              else insert (two_hashes (last as) (computeHashFromAunts H (int (i - m)) (int (n - m)) leaf (butlast as)))
                (proof_inputs H (i - m) (n - m) leaf (butlast as)))"
  by pat_completeness auto
termination proof_inputs
  by (relation "measure (\<lambda>(H, i, n, leaf, as). length as)") auto

declare tree_inputs.simps [simp del] proof_inputs.simps [simp del]

lemma hashes_short: "\<forall>x. length (H x) < 2 ^ 64 \<Longrightarrow> \<forall>h \<in> set hs. short h \<Longrightarrow> short (SimpleHashFromHashes H hs)"
  by (induction H hs rule: SimpleHashFromHashes.induct) (auto simp: short_def content_def SimpleHashFromTwoHashes_def)

lemma compute_short: "\<forall>x. length (H x) < 2 ^ 64 \<Longrightarrow> short leaf \<Longrightarrow> short (computeHashFromAunts H i n leaf as)"
  by (subst computeHashFromAunts.simps)
    (auto simp: short_def content_def SimpleHashFromTwoHashes_def Let_def split: option.splits)

text \<open>One level of the tree: the two strings hashed at the root are the same.\<close>

lemma level_sound:
  assumes "inj_on H X" "two_hashes l r \<in> X" "two_hashes l' r' \<in> X" "SimpleHashFromTwoHashes H l r = Some h"
    "h = content (SimpleHashFromTwoHashes H l' r')" "short l" "short r" "short l'" "short r'"
  shows "content l = content l' \<and> content r = content r'"
proof -
  have "H (two_hashes l r) = H (two_hashes l' r')" using assms(4, 5) by (simp add: SimpleHashFromTwoHashes_def content_def)
  then have "two_hashes l r = two_hashes l' r'" using inj_onD [OF assms(1) _ assms(2, 3)] by blast
  from two_hashes_eq [OF this assms(6-9)] show ?thesis by simp
qed

lemma compute_sound:
  assumes H: "\<forall>x. length (H x) < 2 ^ 64" and leaf: "short leaf"
  shows "i < length hs \<Longrightarrow> int (length hs) < 2 ^ 63 - 1 \<Longrightarrow> \<forall>h \<in> set hs. short h \<Longrightarrow> \<forall>a \<in> set as. short a \<Longrightarrow>
    inj_on H (tree_inputs H hs \<union> proof_inputs H i (length hs) leaf as) \<Longrightarrow>
    computeHashFromAunts H (int i) (int (length hs)) leaf as = Some h \<Longrightarrow> h = content (SimpleHashFromHashes H hs) \<Longrightarrow>
    content leaf = content (hs ! i) \<and> map content as = map content (aunts H hs i)"
proof (induction "length hs" arbitrary: hs i as h rule: less_induct)
  case less
  note prems = less.prems
  show ?case
  proof (cases "length hs \<le> 1")
    case True
    with prems(1) have i: "length hs = 1" "i = 0" by auto
    then obtain x where "hs = [x]" by (cases hs) auto
    with prems(6, 7) i show ?thesis by (auto simp: compute_one aunts.simps content_def split: if_splits)
  next
    case False
    then have l: "1 < length hs" by simp
    let ?L = "take (half hs) hs" and ?R = "drop (half hs) hs"
    note hl = halves_length [OF l] and hr = half_range [OF l] and sp = SimpleHashFromHashes_split [OF l, of H]
    have "as \<noteq> []" using prems(1, 6) l by (subst (asm) computeHashFromAunts.simps) (auto split: if_splits)
    then obtain bs a where as: "as = bs @ [a]" by (metis append_butlast_last_id)
    have m: "Suc (length hs) div 2 = half hs" by (simp add: half_def)
    have sh: "short (SimpleHashFromHashes H ?L)" "short (SimpleHashFromHashes H ?R)"
      using hashes_short [OF H] prems(3) by (metis in_set_takeD, metis in_set_dropD)
    have T: "tree_inputs H hs = insert (two_hashes (SimpleHashFromHashes H ?L) (SimpleHashFromHashes H ?R)) (tree_inputs H ?L \<union> tree_inputs H ?R)"
      using l by (subst tree_inputs.simps) simp
    show ?thesis
    proof (cases "i < half hs")
      case True
      let ?c = "computeHashFromAunts H (int i) (int (half hs)) leaf bs"
      have P: "proof_inputs H i (length hs) leaf as = insert (two_hashes ?c a) (proof_inputs H i (half hs) leaf bs)"
        using l True by (subst proof_inputs.simps) (simp add: as m Let_def)
      obtain h' where h': "?c = Some h'" "SimpleHashFromTwoHashes H ?c a = Some h"
        using prems(6) compute_left [OF l prems(2) True, of H leaf bs a] by (auto simp: as split: option.splits)
      have e: "content ?c = content (SimpleHashFromHashes H ?L) \<and> content a = content (SimpleHashFromHashes H ?R)"
        by (rule level_sound [OF prems(5) _ _ h'(2) _ compute_short [OF H leaf] _ sh]) (use prems(4, 7) sp T P as in auto)
      have "content leaf = content (?L ! i) \<and> map content bs = map content (aunts H ?L i)"
      proof (rule less.hyps)
        show "inj_on H (tree_inputs H ?L \<union> proof_inputs H i (length ?L) leaf bs)"
          by (rule inj_on_subset [OF prems(5)], unfold hl T P) auto
      qed (use hl hr True prems(2-4) e h'(1) as in \<open>auto simp: content_def dest: in_set_takeD\<close>)
      with e True l show ?thesis by (subst aunts.simps) (simp add: as)
    next
      case False
      let ?c = "computeHashFromAunts H (int (i - half hs)) (int (length hs - half hs)) leaf bs"
      have P: "proof_inputs H i (length hs) leaf as = insert (two_hashes a ?c) (proof_inputs H (i - half hs) (length hs - half hs) leaf bs)"
        using l False by (subst proof_inputs.simps) (simp add: as m Let_def)
      obtain h' where h': "?c = Some h'" "SimpleHashFromTwoHashes H a ?c = Some h"
        using prems(6) compute_right [OF l prems(2) _ prems(1), of H leaf bs a] False by (auto simp: as split: option.splits)
      have e: "content a = content (SimpleHashFromHashes H ?L) \<and> content ?c = content (SimpleHashFromHashes H ?R)"
        by (rule level_sound [OF prems(5) _ _ h'(2) _ _ compute_short [OF H leaf] sh]) (use prems(4, 7) sp T P as in auto)
      have "content leaf = content (?R ! (i - half hs)) \<and> map content bs = map content (aunts H ?R (i - half hs))"
      proof (rule less.hyps)
        show "inj_on H (tree_inputs H ?R \<union> proof_inputs H (i - half hs) (length ?R) leaf bs)"
          by (rule inj_on_subset [OF prems(5)], unfold hl T P) auto
      qed (use hl hr False prems(1-4) e h'(1) as in \<open>auto simp: content_def dest: in_set_dropD\<close>)
      with e False l prems(1) show ?thesis by (subst aunts.simps) (simp add: as)
    qed
  qed
qed

text \<open>C9. Merkle proofs are sound. If \<open>Verify\<close> accepts a proof for index \<open>i\<close> against the root hash of \<open>hs\<close>, with the
  number of leaves, then the leaf is leaf \<open>i\<close> and the aunts are the ones of the tree - unless two different
  strings among those hashed for the tree and for the check have the same hash. Digests have 20 bytes.\<close>

theorem Verify_sound:
  assumes "\<forall>x. length (H x) = 20" "i < length hs" "length hs < 2 ^ 63 - 1" "\<forall>h \<in> set hs. short h" "short leaf" "\<forall>a \<in> set as. short a"
    "inj_on H (tree_inputs H hs \<union> proof_inputs H i (length hs) leaf as)"
    "Verify H as (int i) (int (length hs)) leaf (SimpleHashFromHashes H hs)"
  shows "content leaf = content (hs ! i) \<and> map content as = map content (aunts H hs i)"
proof -
  obtain h where h: "computeHashFromAunts H (int i) (int (length hs)) leaf as = Some h" "h = content (SimpleHashFromHashes H hs)"
    using assms(8) by (auto simp: Verify_def split: option.splits)
  have "\<forall>x. length (H x) < 2 ^ 64" "int (length hs) < 2 ^ 63 - 1" using assms(1, 3) by simp_all
  from compute_sound [OF this(1) assms(5, 2) this(2) assms(4, 6, 7) h] show ?thesis .
qed

definition pad20 :: "bytes \<Rightarrow> bytes" where
  "pad20 x = take 20 (x @ replicate 20 0)"

theorem Verify_sound_witness:
  "Verify pad20 [Some [1]] 1 2 (Some [2]) (SimpleHashFromHashes pad20 [Some [1], Some [2]]) \<and>
   content (Some [2]) = content ([Some [1], Some [2]] ! 1)"
proof -
  have w: "wrap_int 3 = 3" "wrap_int 1 = 1" "wrap_int 0 = 0" by (simp_all add: wrap_int_def)
  have c: "computeHashFromAunts pad20 1 2 (Some [2]) [Some [1]] = SimpleHashFromTwoHashes pad20 (Some [1]) (Some [2])"
    by (subst computeHashFromAunts.simps) (simp add: w compute_one)
  have s: "SimpleHashFromHashes pad20 [Some [1], Some [2]] = SimpleHashFromTwoHashes pad20 (Some [1]) (Some [2])" by (simp add: half_def)
  have v: "Verify pad20 [Some [1]] 1 2 (Some [2]) (SimpleHashFromHashes pad20 [Some [1], Some [2]])"
    unfolding Verify_def c s by (simp add: SimpleHashFromTwoHashes_def content_def)
  have t: "tree_inputs pad20 [Some [1], Some [2]] = {two_hashes (Some [1]) (Some [2])}"
    by (subst tree_inputs.simps) (simp add: half_def tree_inputs.simps)
  have p: "proof_inputs pad20 1 2 (Some [2]) [Some [1]] = {two_hashes (Some [1]) (Some [2])}"
    by (subst proof_inputs.simps) (simp add: Let_def compute_one proof_inputs.simps)
  have "content (Some [2]) = content ([Some [1], Some [2]] ! 1) \<and> map content [Some [1]] = map content (aunts pad20 [Some [1], Some [2]] 1)"
  proof (rule Verify_sound [where H = pad20])
    show "\<forall>x. length (pad20 x) = 20" by (auto simp: pad20_def)
    have l: "length [Some [1], Some [2 :: byte]] = 2" by simp
    show "inj_on pad20 (tree_inputs pad20 [Some [1], Some [2]] \<union> proof_inputs pad20 1 (length [Some [1], Some [2 :: byte]]) (Some [2]) [Some [1]])"
      unfolding l t p by simp
    show "Verify pad20 [Some [1]] (int 1) (int (length [Some [1], Some [2 :: byte]])) (Some [2]) (SimpleHashFromHashes pad20 [Some [1], Some [2]])"
      using v unfolding l by simp
  qed (simp_all add: short_def content_def)
  with v show ?thesis by blast
qed

section \<open>Maps\<close>

lemma Compare_eq: "Compare a b = (if a < b then -1 else if a = b then 0 else 1)"
  by (induction a b rule: Compare.induct) (auto simp: neq_iff)

lemma Less_iff: "Less a b \<longleftrightarrow> a < b"
  by (cases a; cases b) (auto simp: Less_def Compare_eq less_prod_def')

lemma kvs_Sort_sort: "kvs_Sort xs = sort xs"
proof -
  have "kv_insert x ys = insort x ys" for x ys by (induction ys) (auto simp: Less_iff)
  then have "kv_insert = insort" by (intro ext)
  then show ?thesis by (simp add: kvs_Sort_def sort_key_def)
qed

lemma kvs_Sort_unique: "mset ys = mset xs \<Longrightarrow> sorted_wrt (\<lambda>a b. \<not> Less b a) ys \<Longrightarrow> ys = kvs_Sort xs"
  unfolding kvs_Sort_sort by (rule properties_for_sort [symmetric]) (simp_all add: Less_iff not_less)

text \<open>The maps that calls make, with the pairs set so far.\<close>

inductive sm_reach :: "(bytes \<Rightarrow> bytes) \<Rightarrow> ('a \<Rightarrow> slice) \<Rightarrow> SimpleMap \<Rightarrow> (bytes \<times> 'a) multiset \<Rightarrow> bool" for H hash where
  new: "sm_reach H hash NewSimpleMap {#}"
| set: "sm_reach H hash sm M \<Longrightarrow> sm_reach H hash (sm_Set H hash k v sm) (add_mset (k, v) M)"
| sort: "sm_reach H hash sm M \<Longrightarrow> sm_reach H hash (sm_Sort sm) M"
| hash: "sm_reach H hash sm M \<Longrightarrow> sm_reach H hash (snd (sm_Hash H sm)) M"
| pairs: "sm_reach H hash sm M \<Longrightarrow> sm_reach H hash (snd (sm_KVPairs sm)) M"

definition kv_of :: "(bytes \<Rightarrow> bytes) \<Rightarrow> ('a \<Rightarrow> slice) \<Rightarrow> bytes \<times> 'a \<Rightarrow> kv_pair" where
  "kv_of H hash = (\<lambda>(k, v). (H k, content (hash v)))"

lemma sm_reach_inv:
  "sm_reach H hash sm M \<Longrightarrow> mset (kvs sm) = image_mset (kv_of H hash) M \<and> (sorted_kvs sm \<longrightarrow> sorted (kvs sm))"
  by (induction rule: sm_reach.induct)
    (auto simp: NewSimpleMap_def sm_Set_def sm_Sort_def sm_Hash_def sm_KVPairs_def Let_def kvs_Sort_sort kv_of_def SimpleHashFromBytes_def content_def)

lemma sm_Sort_kvs: "sm_reach H hash sm M \<Longrightarrow> kvs (sm_Sort sm) = sorted_list_of_multiset (image_mset (kv_of H hash) M)"
  using sm_reach_inv [of H hash sm M] sorted_list_of_multiset_mset [of "kvs sm"]
  by (auto simp: sm_Sort_def kvs_Sort_sort sorted_sort_id)

lemma fold_Set_reach: "sm_reach H hash sm M \<Longrightarrow> sm_reach H hash (fold (\<lambda>(k, v). sm_Set H hash k v) m sm) (mset m + M)"
proof (induction m arbitrary: sm M)
  case (Cons kv m)
  from Cons.IH [OF sm_reach.set [OF Cons.prems]] show ?case by (cases kv) simp
qed simp

text \<open>C15. The hash of a map does not depend on the order. Whatever sequence of \<open>Set\<close>, \<open>Sort\<close>, \<open>Hash\<close> and \<open>KVPairs\<close> made a
  \<open>SimpleMap\<close>, its hash is the tree hash of its pairs in ascending order, also after a second \<open>Hash\<close>; so
  \<open>SimpleHashFromMap\<close> and \<open>SimpleProofsFromMap\<close>, which range over a Go map, give the same result for every
  order of the iteration, and both have the same root.\<close>

theorem SimpleMap_order:
  assumes "sm_reach H hash sm (mset m)" "mset m' = mset m" "m \<noteq> []"
  shows "fst (sm_Hash H sm) = SimpleHashFromMap H hash m \<and> fst (sm_Hash H (snd (sm_Hash H sm))) = fst (sm_Hash H sm) \<and>
    sorted (fst (sm_KVPairs sm)) \<and>
    SimpleHashFromMap H hash m' = SimpleHashFromMap H hash m \<and> SimpleProofsFromMap H hash m' = SimpleProofsFromMap H hash m \<and>
    (\<exists>proofs. SimpleProofsFromMap H hash m = Ret (SimpleHashFromMap H hash m, proofs) \<and> length proofs = length m)"
proof -
  let ?l = "sorted_list_of_multiset (image_mset (kv_of H hash) (mset m))"
  have r: "kvs (sm_Sort (fold (\<lambda>(k, v). sm_Set H hash k v) n NewSimpleMap)) = ?l" if "mset n = mset m" for n
    using sm_Sort_kvs [OF fold_Set_reach [OF sm_reach.new, of H hash n]] that by simp
  have h: "SimpleHashFromMap H hash n = hashKVPairs H ?l" "SimpleProofsFromMap H hash n = SimpleProofsFromHashers H (KVPair_Hash H) ?l"
    if "mset n = mset m" for n
    using r [OF that] by (simp_all add: SimpleHashFromMap_def SimpleProofsFromMap_def sm_Hash_def Let_def)
  have "length ?l = length m" by (metis mset_sorted_list_of_multiset size_image_mset size_mset)
  then have "?l \<noteq> []" using assms(3) by auto
  from SimpleProofsFromHashers_aunts [OF this] have p: "\<exists>proofs. SimpleProofsFromMap H hash m = Ret (SimpleHashFromMap H hash m, proofs) \<and> length proofs = length m"
    using \<open>length ?l = length m\<close> by (simp add: h hashKVPairs_def)
  have "fst (sm_Hash H sm) = hashKVPairs H ?l" "fst (sm_Hash H (snd (sm_Hash H sm))) = hashKVPairs H ?l" "sorted (fst (sm_KVPairs sm))"
    using sm_Sort_kvs [OF assms(1)] sm_Sort_kvs [OF sm_reach.hash [OF assms(1)]] by (simp_all add: sm_Hash_def sm_KVPairs_def Let_def)
  with h [OF refl] h [OF assms(2)] p show ?thesis by simp
qed

theorem SimpleMap_order_witness:
  "SimpleHashFromMap pad20 Some [([1], [7]), ([2], [8])] = SimpleHashFromMap pad20 Some [([2], [8]), ([1], [7 :: byte])]"
proof -
  have "sm_reach pad20 Some (fold (\<lambda>(k, v). sm_Set pad20 Some k v) [([2], [8]), ([1], [7])] NewSimpleMap) (mset [([2], [8]), ([1], [7])])"
    using fold_Set_reach [OF sm_reach.new, of pad20 Some "[([2], [8]), ([1], [7])]"] by simp
  from SimpleMap_order [OF this, of "[([1], [7]), ([2], [8])]"] show ?thesis by (simp add: add_mset_commute)
qed

end
