(* ===== verification/Spec2Isabelle.thy ===== *)
theory Spec2Isabelle
  imports RlpTotal MemCache DbLaws BitArrayLaws AminoRecover Merkle
begin

text \<open>
  A verification development for \<^verbatim>\<open>bclib\<close>, the Go support library of the BCBChain
  block chain (sources under \<^verbatim>\<open>src/\<close>).

  \<^bold>\<open>The program.\<close> The library is a collection of packages that meet in the encoding and storage of
  chain data: numbers (\<^verbatim>\<open>src/bn\<close>), the RLP codec (\<^verbatim>\<open>src/rlp\<close>) that writes
  and reads them with all other values, a transactional memory cache
  (\<^verbatim>\<open>src/mc\<close>), and the Tendermint packages under
  \<^verbatim>\<open>src/tendermint\<close>: key-value databases with prefixes, iterators and batches
  (\<^verbatim>\<open>tmlibs/db\<close>), bit arrays (\<^verbatim>\<open>tmlibs/common\<close>), Merkle trees
  (\<^verbatim>\<open>tmlibs/merkle\<close>) and the codec of the consensus layer (\<^verbatim>\<open>go-amino\<close>).

  \<^bold>\<open>Conventions.\<close> Machine integers are words of their width, \<^verbatim>\<open>big.Int\<close> is \<open>int\<close>,
  a byte slice is a list of bytes. An error return is the left side of a sum, or the third component of
  a result that carries value, count and error at once as the code has it. A run-time panic is a value
  of its own: \<open>None\<close> where an operation can only panic or return, \<open>GoPanic\<close> or a value of
  \<open>go_panic\<close> where it can fail as well. A loop is a recursive function; where the bound is not
  structural it is a \<open>partial_function\<close> or has fuel, and the theorems say that it returns. Types
  and values that the codecs reflect on are datatypes with one constructor for each kind the code
  distinguishes. Code of other packages (hash functions, writers, readers, random numbers, Go's
  \<open>implements\<close> relation) is a parameter of the definitions that use it.

  \<^bold>\<open>The theories.\<close>

  \<^item> \<open>Prelude\<close>: words, bytes, big-endian numerals, checked writes. \<open>GoStrings\<close>: splitting,
    trimming, decimal printing and parsing.
  \<^item> \<open>Bn\<close> (\<^verbatim>\<open>bn/bignumber.go\<close>): the number type with its nil pointer, one
    definition for each method. Square roots by Newton's loop end and are exact, negative numbers panic, division
    is Euclidean, the byte and JSON encodings are undone.
  \<^item> \<open>RlpHead\<close>, \<open>RlpRaw\<close> (\<^verbatim>\<open>rlp/raw.go\<close> and the header functions of
    \<^verbatim>\<open>rlp/encode.go\<close>): \<open>Split\<close> accepts exactly the canonical encodings, \<open>CountValues\<close> ends
    and counts.
  \<^item> \<open>RlpTypes\<close> (\<^verbatim>\<open>rlp/typecache.go\<close>), \<open>RlpEncode\<close>
    (\<^verbatim>\<open>rlp/encode.go\<close>), \<open>RlpStream\<close> and \<open>RlpDecode\<close>
    (\<^verbatim>\<open>rlp/decode.go\<close>): the encoder with its buffer and list headers, the stream with its
    stack of lists, the typed decoders. \<open>RlpEncodeSpec\<close> gives the format as a specification that all three
    outputs of the encoder refine; \<open>RlpStreamLaws\<close> and \<open>RlpRoundtrip\<close> show that decoding an encoding returns
    the value; \<open>RlpTotal\<close> that decoding arbitrary bytes returns, with fuel \<open>slice_bound\<close> (two more than the
    bytes left, as every element takes at least one), except for one-byte arrays, where it does not.
  \<^item> \<open>MemCache\<close> (\<^verbatim>\<open>mc/memcache.go\<close>): the instance with its caches as objects of
    a store, critical sections as steps; every step refines an abstract cache of committed values and open
    transactions. What a \<open>tx\<close> wrote can be rolled back, up to values it wrote before others did.
  \<^item> \<open>Db\<close>, \<open>DbLaws\<close> (\<^verbatim>\<open>tmlibs/db\<close>: \<^verbatim>\<open>mem_db.go\<close>,
    \<^verbatim>\<open>mem_batch.go\<close>, \<^verbatim>\<open>prefix_db.go\<close>, \<^verbatim>\<open>util.go\<close>):
    handles nested to any depth over one database. The contract of a store is the locale \<open>kv_store\<close>; handles
    satisfy it, and the iterators deliver the keys of their domain in order. \<open>strays\<close> are the keys that
    iteration over a prefix delivers in excess; \<open>iter_panics\<close> and \<open>riter_panics\<close> say which handles panic.
  \<^item> \<open>BitArray\<close>, \<open>BitArrayLaws\<close> (\<^verbatim>\<open>tmlibs/common/bit_array.go\<close>): set operations
    against sets of indices, with their exact results where they are not the operations on sets.
  \<^item> \<open>Amino\<close>, \<open>AminoLaws\<close> (\<^verbatim>\<open>go-amino/encoder.go\<close>, \<^verbatim>\<open>decoder.go\<close>
    and the framing of \<^verbatim>\<open>amino.go\<close>): the primitive coders, with the locale \<open>coder\<close> as the
    interface that the composite decoders use. \<open>AminoTypes\<close>, \<open>AminoRegistry\<close>
    (\<^verbatim>\<open>codec.go\<close>, \<^verbatim>\<open>reflect.go\<close>): the registry of interfaces and
    concrete types as a state machine with its invariant, as long as no \<open>RegisterConcrete\<close> panics
    (\<open>codec_reach\<close>, which the theorems on whole values assume). \<open>AminoRecover\<close>: the codecs after any calls,
    panics recovered from included (\<open>codec_calls\<close>), what lookups return there, and what a failed registration
    leaves behind.
  \<^item> \<open>AminoBinary\<close> (\<^verbatim>\<open>go-amino/binary-encode.go\<close>, \<^verbatim>\<open>binary-decode.go\<close>,
    \<^verbatim>\<open>amino.go\<close>): the encoder and decoder of whole values over the registry. The encoder has fuel
    one more than the size of the value; the decoder \<open>decode_fuel\<close>, the bytes times the largest registered
    type plus the type of the target, since a part has a smaller type and the value of an interface fewer bytes.
    \<open>AminoSafe\<close> types the values (\<open>has_ty\<close>) and shows what decoding arbitrary bytes leaves behind and for which
    types it cannot panic; \<open>AminoRoundtrip\<close> that the values in \<open>surv\<close> are read back, and the inputs on which the
    decoder panics.
  \<^item> \<open>Merkle\<close> (\<^verbatim>\<open>tmlibs/merkle\<close>, \<^verbatim>\<open>tmlibs/common/kvpair.go\<close>): tree hashes,
    the linked nodes from which proofs are built as objects of a store, proofs complete and sound up to collisions of the
    hash function, maps whose hash does not depend on the order.

  \<^bold>\<open>Not modelled.\<close> Maps and user-defined methods in the RLP codec; the type caches as memo tables,
  and with them recursive types. In go-amino the methods \<open>MarshalAmino\<close> and \<open>UnmarshalAmino\<close> of user types, of which
  the repository has none, and the JSON form, which rests on \<^verbatim>\<open>encoding/json\<close>. Locks: an operation under a lock is one step, on different
  objects where it has two. Memory: allocations succeed. Everything whose meaning is
  input and output or other packages: sockets, HTTP, files, LevelDB, containers, logging, ciphers and
  signatures, generated protocol buffers.
\<close>

end
